(* ===== verification/Sdb_Prelude.thy ===== *)
theory Sdb_Prelude
  imports Complex_Main "HOL-Library.Word"
begin

text \<open>
  The vocabulary every component theory shares: the fixed-width integer types of
  \<^verbatim>\<open>src/Sdb.h\<close>, the byte-addressed memory the C code runs on, faults and results, and
  the little-endian byte representation of integers (the platforms the build targets are
  little-endian). The lemmas on memory blocks and byte strings below are the automation
  of the component proofs.
\<close>

unbundle bit_operations_syntax

section \<open>Integers, addresses, faults\<close>

type_synonym u8 = "8 word"
type_synonym u16 = "16 word"
type_synonym u32 = "32 word"
type_synonym u64 = "64 word"

text \<open>Signed integers have the same representation; \<^const>\<open>sint\<close> reads them.\<close>

type_synonym i16 = "16 word"
type_synonym i32 = "32 word"
type_synonym i64 = "64 word"

type_synonym addr = u64
type_synonym mem = "u64 \<Rightarrow> u8"

abbreviation NULL :: addr where
  "NULL \<equiv> 0"

text \<open>
  What a C program does when it leaves its defined behaviour: the branches below are
  values of the model, so that a missing check of the source is visible in a theorem.
\<close>

datatype fault = NullDeref | DivByZero | AssertFail | UseUninit | OutOfBounds

type_synonym 'a res = "fault + 'a"

named_theorems mem_simps "reading and writing memory blocks"
named_theorems word_facts "unsigned values of word expressions"

section \<open>Words\<close>

lemma unat_plus_fits [word_facts]:
  fixes a b :: "'a::len word"
  assumes "unat a + unat b < 2 ^ LENGTH('a)"
  shows "unat (a + b) = unat a + unat b"
  using assms by (simp add: unat_word_ariths)

lemma unat_minus_le [word_facts]:
  fixes a b :: "'a::len word"
  assumes "b \<le> a"
  shows "unat (a - b) = unat a - unat b"
  using assms by (rule unat_sub)

lemma unat_of_nat_fits [word_facts]:
  assumes "n < 2 ^ LENGTH('a::len)"
  shows "unat (of_nat n :: 'a word) = n"
  using assms by (simp add: unat_of_nat take_bit_eq_mod)

lemma unat_u64_less [simp, intro]: "unat (x :: u64) < 2 ^ 64"
  using unsigned_less [of x] by simp

lemma unat_u32_less [simp, intro]: "unat (x :: u32) < 2 ^ 32"
  using unsigned_less [of x] by simp

lemma unat_u16_less [simp, intro]: "unat (x :: u16) < 2 ^ 16"
  using unsigned_less [of x] by simp

lemma unat_u8_less [simp, intro]: "unat (x :: u8) < 256"
  using unsigned_less [of x] by simp

lemma unat_neg_u64:
  fixes x :: u64
  assumes "x \<noteq> 0"
  shows "unat (- x) = 2 ^ 64 - unat x"
proof -
  have "(unat x + unat (- x)) mod 2 ^ 64 = 0" using unat_word_ariths(1) [of x "- x"] by simp
  moreover have "0 < unat x" using assms by (simp add: unat_gt_0)
  moreover have "unat x + unat (- x) < 2 * 2 ^ 64"
    using unat_u64_less [of x] unat_u64_less [of "- x"] by linarith
  ultimately have "unat x + unat (- x) = 2 ^ 64"
    by (cases "unat x + unat (- x) < 2 ^ 64") (simp_all add: le_mod_geq)
  then show ?thesis by linarith
qed

lemma word_offset_eq:
  fixes a x :: "'a::len word"
  shows "a + of_nat (unat (x - a)) = x"
  by simp

section \<open>Memory blocks\<close>

text \<open>\<open>rd m a n\<close> is the \<open>n\<close> bytes at \<open>a\<close>; \<open>wr m a bs\<close> stores the bytes \<open>bs\<close> at \<open>a\<close>.\<close>

definition rd :: "mem \<Rightarrow> addr \<Rightarrow> nat \<Rightarrow> u8 list" where
  "rd m a n = map (\<lambda>i. m (a + of_nat i)) [0..<n]"

primrec wr :: "mem \<Rightarrow> addr \<Rightarrow> u8 list \<Rightarrow> mem" where
  "wr m a [] = m"
| "wr m a (b # bs) = wr (m(a := b)) (a + 1) bs"

text \<open>Address \<open>x\<close> lies in the block of \<open>n\<close> bytes at \<open>a\<close>; two blocks do not overlap.\<close>

definition in_block :: "addr \<Rightarrow> addr \<Rightarrow> nat \<Rightarrow> bool" where
  "in_block x a n \<longleftrightarrow> unat (x - a) < n"

definition disjoint_blocks :: "addr \<Rightarrow> nat \<Rightarrow> addr \<Rightarrow> nat \<Rightarrow> bool" where
  "disjoint_blocks a n b k \<longleftrightarrow> (\<forall>x. \<not> (in_block x a n \<and> in_block x b k))"

lemma length_rd [simp]: "length (rd m a n) = n"
  by (simp add: rd_def)

lemma rd_0 [simp]: "rd m a 0 = []"
  by (simp add: rd_def)

lemma nth_rd [simp]: "i < n \<Longrightarrow> rd m a n ! i = m (a + of_nat i)"
  by (simp add: rd_def)

lemma rd_eq_iff: "rd m a n = rd m' b n \<longleftrightarrow> (\<forall>i<n. m (a + of_nat i) = m' (b + of_nat i))"
  by (auto simp: rd_def)

lemma rd_append: "rd m a (n + k) = rd m a n @ rd m (a + of_nat n) k"
  by (rule nth_equalityI) (auto simp: nth_append add.assoc [symmetric] simp del: of_nat_add
      simp flip: of_nat_add)

lemma unat_pred:
  fixes d :: "'a::len word"
  assumes "d \<noteq> 0"
  shows "unat (d - 1) = unat d - 1"
  using assms by (simp add: unat_minus_one)

lemma wr_apply [mem_simps]:
  assumes "length bs \<le> 2 ^ 64"
  shows "wr m a bs x = (if in_block x a (length bs) then bs ! unat (x - a) else m x)"
  using assms
proof (induction bs arbitrary: m a)
  case Nil
  then show ?case by (simp add: in_block_def)
next
  case (Cons b bs)
  have IH: "wr (m(a := b)) (a + 1) bs x =
      (if in_block x (a + 1) (length bs) then bs ! unat (x - (a + 1)) else (m(a := b)) x)"
    using Cons by simp
  show ?case
  proof (cases "x = a")
    case True
    have "unat (- 1 :: u64) = 2 ^ 64 - 1"
      by (simp add: unsigned_minus_1_eq_mask mask_eq_exp_minus_1)
    then have "unat (a - (a + 1)) = 2 ^ 64 - 1" by simp
    then show ?thesis using True Cons.prems IH by (simp add: in_block_def)
  next
    case False
    have ne: "x - a \<noteq> 0" using False by simp
    have u: "unat (x - (a + 1)) = unat (x - a) - 1"
      using unat_pred [OF ne] by (simp add: diff_diff_eq)
    have pos: "0 < unat (x - a)" using ne by (simp add: unat_gt_0)
    have "in_block x (a + 1) (length bs) = in_block x a (length (b # bs))"
      using u pos by (auto simp: in_block_def)
    then show ?thesis using False IH u pos by (simp add: nth_Cons')
  qed
qed

lemma rd_wr_same [mem_simps]:
  assumes "length bs \<le> 2 ^ 64"
  shows "rd (wr m a bs) a (length bs) = bs"
proof (rule nth_equalityI)
  fix i assume "i < length (rd (wr m a bs) a (length bs))"
  then have i: "i < length bs" by simp
  then have "unat (of_nat i :: u64) = i" using assms by (intro unat_of_nat_fits) simp
  then show "rd (wr m a bs) a (length bs) ! i = bs ! i"
    using assms i by (simp add: wr_apply in_block_def)
qed simp

lemma in_block_rd:
  assumes "i < n" "n \<le> 2 ^ 64"
  shows "in_block (a + of_nat i) a n"
  using assms by (simp add: in_block_def unat_of_nat_fits)

lemma rd_wr_disjoint [mem_simps]:
  assumes "length bs \<le> 2 ^ 64" "n \<le> 2 ^ 64" "disjoint_blocks b n a (length bs)"
  shows "rd (wr m a bs) b n = rd m b n"
  unfolding rd_eq_iff
proof (intro allI impI)
  fix i assume "i < n"
  then have "in_block (b + of_nat i) b n" using assms(2) by (rule in_block_rd)
  then have "\<not> in_block (b + of_nat i) a (length bs)"
    using assms(3) by (auto simp: disjoint_blocks_def)
  then show "wr m a bs (b + of_nat i) = m (b + of_nat i)"
    using assms(1) by (simp add: wr_apply)
qed

lemma disjoint_blocks_sym: "disjoint_blocks a n b k \<Longrightarrow> disjoint_blocks b k a n"
  by (auto simp: disjoint_blocks_def)

text \<open>Blocks of one linear range that do not wrap around: disjoint when one ends before the other.\<close>

lemma in_block_linear:
  assumes "unat a + n \<le> 2 ^ 64"
  shows "in_block x a n \<longleftrightarrow> unat a \<le> unat x \<and> unat x < unat a + n"
proof (cases "a \<le> x")
  case True
  then have "unat (x - a) = unat x - unat a" by (rule unat_sub)
  then show ?thesis using True by (auto simp: in_block_def word_le_nat_alt)
next
  case False
  then have lt: "unat x < unat a" by (simp add: word_le_nat_alt)
  have "unat (x - a) = (unat x + 2 ^ 64 - unat a) mod 2 ^ 64"
    using lt by (simp add: unat_sub_if' word_le_nat_alt)
  also have "\<dots> = unat x + 2 ^ 64 - unat a"
    using lt unat_u64_less [of x] by simp
  finally show ?thesis using lt assms by (auto simp: in_block_def)
qed

lemma disjoint_blocks_linear:
  assumes "unat a + n \<le> unat b" "unat b + k \<le> 2 ^ 64"
  shows "disjoint_blocks a n b k"
  using assms by (auto simp: disjoint_blocks_def in_block_linear)

text \<open>Blocks given by offsets from a common base.\<close>

lemma unat_of_nat_diff:
  assumes "p < 2 ^ 63" "q < 2 ^ 63"
  shows "unat (of_nat p - of_nat q :: u64) = (if q \<le> p then p - q else 2 ^ 64 - (q - p))"
proof (cases "q \<le> p")
  case True
  then have "(of_nat p - of_nat q :: u64) = of_nat (p - q)" by (simp add: of_nat_diff)
  moreover have "unat (of_nat (p - q) :: u64) = p - q" using assms by (intro unat_of_nat_fits) simp
  ultimately show ?thesis using True by simp
next
  case False
  then have "(of_nat q - of_nat p :: u64) = of_nat (q - p)" by (simp add: of_nat_diff)
  then have eq: "(of_nat p - of_nat q :: u64) = - of_nat (q - p)" by (metis minus_diff_eq)
  have u: "unat (of_nat (q - p) :: u64) = q - p" using assms by (intro unat_of_nat_fits) simp
  have ne: "(of_nat (q - p) :: u64) \<noteq> 0" using u False by (metis diff_is_0_eq unat_0)
  have "unat (of_nat p - of_nat q :: u64) = 2 ^ 64 - (q - p)" by (simp only: eq unat_neg_u64 [OF ne] u)
  then show ?thesis using False by simp
qed

lemma in_block_offset:
  assumes "p < 2 ^ 63" "q + n \<le> 2 ^ 63"
  shows "in_block (a + of_nat p) (a + of_nat q) n \<longleftrightarrow> q \<le> p \<and> p < q + n"
proof (cases "n = 0")
  case False
  have "unat (of_nat p - of_nat q :: u64) = (if q \<le> p then p - q else 2 ^ 64 - (q - p))"
    using assms False by (intro unat_of_nat_diff) auto
  then show ?thesis using assms False by (auto simp: in_block_def)
qed (simp add: in_block_def)

lemma wr_offset:
  assumes "p < 2 ^ 63" "q + length bs \<le> 2 ^ 63"
  shows "wr m (a + of_nat q) bs (a + of_nat p) =
    (if q \<le> p \<and> p < q + length bs then bs ! (p - q) else m (a + of_nat p))"
proof (cases "q \<le> p \<and> p < q + length bs")
  case True
  then have "unat (of_nat p - of_nat q :: u64) = p - q" using assms by (subst unat_of_nat_diff) auto
  then show ?thesis using assms True by (simp add: wr_apply in_block_offset)
next
  case False
  then show ?thesis using assms by (auto simp: wr_apply in_block_offset)
qed

section \<open>Bytes of an integer\<close>

text \<open>Little-endian: the least significant byte first. \<open>of_le\<close> reads such a byte string back.\<close>

primrec le_bytes :: "nat \<Rightarrow> nat \<Rightarrow> u8 list" where
  "le_bytes 0 x = []"
| "le_bytes (Suc n) x = of_nat (x mod 256) # le_bytes n (x div 256)"

primrec of_le :: "u8 list \<Rightarrow> nat" where
  "of_le [] = 0"
| "of_le (b # bs) = unat b + 256 * of_le bs"

lemma length_le_bytes [simp]: "length (le_bytes n x) = n"
  by (induction n arbitrary: x) auto

lemma of_le_less: "of_le bs < 256 ^ length bs"
proof (induction bs)
  case (Cons b bs)
  have "unat b < 256" by simp
  then have "unat b + 256 * of_le bs < 256 * (of_le bs + 1)" by simp
  also have "\<dots> \<le> 256 * 256 ^ length bs" using Cons by simp
  finally show ?case by simp
qed simp

lemma of_le_le_bytes [simp]: "of_le (le_bytes n x) = x mod 256 ^ n"
proof (induction n arbitrary: x)
  case (Suc n)
  have "unat (of_nat (x mod 256) :: u8) = x mod 256" by (rule unat_of_nat_fits) simp
  then show ?case using Suc by (simp add: mod_mult2_eq)
qed simp

lemma le_bytes_of_le [simp]: "le_bytes (length bs) (of_le bs) = bs"
proof (induction bs)
  case (Cons b bs)
  have "unat b mod 256 = unat b" "unat b div 256 = 0" by simp_all
  then show ?case using Cons by simp
qed simp

end
