(* ===== verification/Sdb_Memory.thy ===== *)
theory Sdb_Memory
  imports Sdb_Prelude
begin

text \<open>
  The memory section of \<^verbatim>\<open>src/Sdb.h\<close>: byte copying, the bump allocator \<^verbatim>\<open>sdb_arena\<close>,
  the per-thread registry of scratch arenas, scratch arenas and the array shift.
  An arena is the record of its three fields; the bytes it hands out live in a memory
  \<^typ>\<open>mem\<close>. Where the code compares arena pointers (the scratch registry), arenas are
  objects of a store indexed by address.
\<close>

section \<open>Copying, filling and comparing bytes\<close>

text \<open>Each loop runs its index from 0 to \<open>Len\<close>; the pointer each function returns is its first argument.\<close>

function SdbMemcpy_loop :: "mem \<Rightarrow> addr \<Rightarrow> addr \<Rightarrow> nat \<Rightarrow> nat \<Rightarrow> mem" where
  "SdbMemcpy_loop m To From i Len =
     (if i < Len then SdbMemcpy_loop (m(To + of_nat i := m (From + of_nat i))) To From (Suc i) Len
      else m)"
  by pat_completeness auto
termination by (relation "measure (\<lambda>(m, To, From, i, Len). Len - i)") auto

definition SdbMemcpy :: "mem \<Rightarrow> addr \<Rightarrow> addr \<Rightarrow> u64 \<Rightarrow> mem" where
  "SdbMemcpy m To From Len = SdbMemcpy_loop m To From 0 (unat Len)"

function SdbMemset_loop :: "mem \<Rightarrow> addr \<Rightarrow> u8 \<Rightarrow> nat \<Rightarrow> nat \<Rightarrow> mem" where
  "SdbMemset_loop m Data v i Len =
     (if i < Len then SdbMemset_loop (m(Data + of_nat i := v)) Data v (Suc i) Len else m)"
  by pat_completeness auto
termination by (relation "measure (\<lambda>(m, Data, v, i, Len). Len - i)") auto

text \<open>\<open>SetTo\<close> is an \<^verbatim>\<open>int\<close>, stored truncated to a byte.\<close>

definition SdbMemset :: "mem \<Rightarrow> addr \<Rightarrow> i32 \<Rightarrow> u64 \<Rightarrow> mem" where
  "SdbMemset m Data SetTo Len = SdbMemset_loop m Data (ucast SetTo) 0 (unat Len)"

definition SdbMemZero :: "mem \<Rightarrow> addr \<Rightarrow> u64 \<Rightarrow> mem" where
  "SdbMemZero m Mem Size = SdbMemset m Mem 0 Size"

text \<open>The secure variant calls \<^verbatim>\<open>memset\<close> through a volatile pointer: the same stores.\<close>

definition SdbMemZeroSecure :: "mem \<Rightarrow> addr \<Rightarrow> u64 \<Rightarrow> mem" where
  "SdbMemZeroSecure m Mem Size = wr m Mem (replicate (unat Size) 0)"

function SdbMemcmp_loop :: "mem \<Rightarrow> addr \<Rightarrow> addr \<Rightarrow> nat \<Rightarrow> nat \<Rightarrow> bool" where
  "SdbMemcmp_loop m Lhs Rhs i Len =
     (if i < Len then
        (if m (Lhs + of_nat i) \<noteq> m (Rhs + of_nat i) then False
         else SdbMemcmp_loop m Lhs Rhs (Suc i) Len)
      else True)"
  by pat_completeness auto
termination by (relation "measure (\<lambda>(m, Lhs, Rhs, i, Len). Len - i)") auto

definition SdbMemcmp :: "mem \<Rightarrow> addr \<Rightarrow> addr \<Rightarrow> u64 \<Rightarrow> bool" where
  "SdbMemcmp m Lhs Rhs Len = SdbMemcmp_loop m Lhs Rhs 0 (unat Len)"

declare SdbMemcpy_loop.simps [simp del] SdbMemset_loop.simps [simp del]
  SdbMemcmp_loop.simps [simp del]

lemma rd_Suc: "rd m a (Suc n) = m a # rd m (a + 1) n"
proof -
  have "rd m a (1 + n) = rd m a 1 @ rd m (a + of_nat 1) n" by (rule rd_append)
  then show ?thesis by (simp add: rd_def)
qed

lemma rd_update_other:
  assumes "\<not> in_block x a n" "n \<le> 2 ^ 64"
  shows "rd (m(x := v)) a n = rd m a n"
  unfolding rd_eq_iff using in_block_rd [of _ n a] assms by fastforce

lemma in_block_suffix:
  assumes "in_block x (a + of_nat i) k" "i + k \<le> n" "n \<le> 2 ^ 64"
  shows "in_block x a n"
proof -
  have "x - a = (x - (a + of_nat i)) + of_nat i" by simp
  then have "unat (x - a) \<le> unat (x - (a + of_nat i)) + unat (of_nat i :: u64)"
    by (metis mod_less_eq_dividend unat_word_ariths(1))
  moreover have "unat (of_nat i :: u64) \<le> i" by (simp add: unat_of_nat take_bit_eq_mod)
  ultimately have "unat (x - a) \<le> unat (x - (a + of_nat i)) + i" by simp
  then show ?thesis using assms by (simp add: in_block_def)
qed

text \<open>The loop of \<open>SdbMemcpy\<close> is a block copy when source and destination do not overlap.\<close>

lemma SdbMemcpy_loop_eq:
  assumes "i \<le> n" "n \<le> 2 ^ 64" "disjoint_blocks To n From n"
  shows "SdbMemcpy_loop m To From i n =
     wr m (To + of_nat i) (rd m (From + of_nat i) (n - i))"
  using assms
proof (induction m To From i n rule: SdbMemcpy_loop.induct)
  case (1 m To From i n)
  show ?case
  proof (cases "i < n")
    case True
    let ?m = "m(To + of_nat i := m (From + of_nat i))"
    have "in_block (To + of_nat i) To n" using True "1.prems" by (intro in_block_rd) auto
    then have "\<not> in_block (To + of_nat i) (From + of_nat (Suc i)) (n - Suc i)"
      using "1.prems" True in_block_suffix [of _ From "Suc i" "n - Suc i" n]
      by (auto simp: disjoint_blocks_def)
    then have same: "rd ?m (From + of_nat (Suc i)) (n - Suc i) = rd m (From + of_nat (Suc i)) (n - Suc i)"
      using "1.prems" by (intro rd_update_other) auto
    have "n - i = Suc (n - Suc i)" using True by simp
    then have "rd m (From + of_nat i) (n - i) =
        m (From + of_nat i) # rd m (From + of_nat (Suc i)) (n - Suc i)"
      by (simp only: rd_Suc) (simp add: algebra_simps)
    moreover have "SdbMemcpy_loop m To From i n = SdbMemcpy_loop ?m To From (Suc i) n"
      using True by (simp add: SdbMemcpy_loop.simps [of m])
    ultimately show ?thesis
      using "1.IH" True "1.prems" same by (simp add: algebra_simps fun_upd_def)
  next
    case False
    then show ?thesis using "1.prems" by (simp add: SdbMemcpy_loop.simps)
  qed
qed

lemma SdbMemcpy_eq [mem_simps]:
  assumes "disjoint_blocks To (unat Len) From (unat Len)"
  shows "SdbMemcpy m To From Len = wr m To (rd m From (unat Len))"
  using SdbMemcpy_loop_eq [of 0 "unat Len" To From m] assms unat_u64_less [of Len]
  by (simp add: SdbMemcpy_def)

lemma SdbMemset_loop_eq:
  assumes "i \<le> n"
  shows "SdbMemset_loop m Data v i n = wr m (Data + of_nat i) (replicate (n - i) v)"
  using assms
proof (induction m Data v i n rule: SdbMemset_loop.induct)
  case (1 m Data v i n)
  show ?case
  proof (cases "i < n")
    case True
    then have "n - i = Suc (n - Suc i)" by simp
    then have "wr m (Data + of_nat i) (replicate (n - i) v) =
        wr (m(Data + of_nat i := v)) (Data + of_nat (Suc i)) (replicate (n - Suc i) v)"
      by (simp add: algebra_simps)
    then show ?thesis using True "1.IH" by (simp add: SdbMemset_loop.simps [of m] fun_upd_def)
  next
    case False
    then show ?thesis using "1.prems" by (simp add: SdbMemset_loop.simps)
  qed
qed

lemma SdbMemset_eq [mem_simps]:
  "SdbMemset m Data v Len = wr m Data (replicate (unat Len) (ucast v))"
  using SdbMemset_loop_eq [of 0 "unat Len"] by (simp add: SdbMemset_def)

lemma SdbMemZero_eq [mem_simps]: "SdbMemZero m Data Len = wr m Data (replicate (unat Len) 0)"
  by (simp add: SdbMemZero_def SdbMemset_eq)

lemma SdbMemcmp_loop_eq:
  "SdbMemcmp_loop m L R i n \<longleftrightarrow> (\<forall>j. i \<le> j \<and> j < n \<longrightarrow> m (L + of_nat j) = m (R + of_nat j))"
proof (induction m L R i n rule: SdbMemcmp_loop.induct)
  case (1 m L R i n)
  have split: "(\<forall>j. i \<le> j \<and> j < n \<longrightarrow> P j) \<longleftrightarrow> P i \<and> (\<forall>j. Suc i \<le> j \<and> j < n \<longrightarrow> P j)"
    if "i < n" for P using that by (metis Suc_leD Suc_leI le_eq_less_or_eq)
  show ?case
  proof (cases "i < n \<and> m (L + of_nat i) = m (R + of_nat i)")
    case True
    then show ?thesis using "1.IH" split [of "\<lambda>j. m (L + of_nat j) = m (R + of_nat j)"]
      by (simp add: SdbMemcmp_loop.simps [of m L R i n])
  next
    case False
    then show ?thesis by (subst SdbMemcmp_loop.simps) auto
  qed
qed

lemma SdbMemcmp_eq [mem_simps]:
  "SdbMemcmp m L R Len \<longleftrightarrow> rd m L (unat Len) = rd m R (unat Len)"
  by (simp add: SdbMemcmp_def SdbMemcmp_loop_eq rd_eq_iff)

end
