(* ===== verification/Sdb_Arena.thy ===== *)
theory Sdb_Arena
  imports Sdb_Memory
begin

text \<open>
  The bump allocator \<^verbatim>\<open>sdb_arena\<close> of \<^verbatim>\<open>src/Sdb.h\<close> and its operations. Sizes and
  positions are \<open>u64\<close> words, so the additions of the bounds checks wrap around as in C.
  The interface \<open>bump_allocator\<close> states what an allocation promises to its clients; it is
  interpreted on \<open>SdbArenaPush\<close>.
\<close>

section \<open>The arena and its operations\<close>

record sdb_arena =
  Cur :: u64
  Cap :: u64
  Mem :: addr

definition SdbArenaInit :: "sdb_arena \<Rightarrow> addr \<Rightarrow> u64 \<Rightarrow> sdb_arena" where
  "SdbArenaInit Arena M Size = Arena\<lparr>Cur := 0, Cap := Size, Mem := M\<rparr>"

definition SdbArenaPush :: "sdb_arena \<Rightarrow> u64 \<Rightarrow> addr \<times> sdb_arena" where
  "SdbArenaPush Arena Size =
     (if Cur Arena + Size \<le> Cap Arena
      then (Mem Arena + Cur Arena, Arena\<lparr>Cur := Cur Arena + Size\<rparr>)
      else (NULL, Arena))"

definition SdbArenaPushZero :: "mem \<Rightarrow> sdb_arena \<Rightarrow> u64 \<Rightarrow> addr \<times> sdb_arena \<times> mem" where
  "SdbArenaPushZero m Arena Size =
     (if Cur Arena + Size \<le> Cap Arena
      then (let AllocedMem = Mem Arena + Cur Arena
            in (AllocedMem, Arena\<lparr>Cur := Cur Arena + Size\<rparr>, SdbMemZero m AllocedMem Size))
      else (NULL, Arena, m))"

definition SdbArenaRemaining :: "sdb_arena \<Rightarrow> u64" where
  "SdbArenaRemaining Arena = Cap Arena - Cur Arena"

definition SdbArenaPop :: "sdb_arena \<Rightarrow> u64 \<Rightarrow> addr \<times> sdb_arena" where
  "SdbArenaPop Arena Size =
     (if Size \<le> Cur Arena
      then (Mem Arena + (Cur Arena - Size), Arena\<lparr>Cur := Cur Arena - Size\<rparr>)
      else (NULL, Arena))"

definition SdbArenaGetPos :: "sdb_arena \<Rightarrow> u64" where
  "SdbArenaGetPos Arena = Cur Arena"

definition SdbArenaSeek :: "sdb_arena \<Rightarrow> u64 \<Rightarrow> addr \<times> sdb_arena" where
  "SdbArenaSeek Arena Pos =
     (if Pos \<le> Cap Arena then (Mem Arena + Pos, Arena\<lparr>Cur := Pos\<rparr>) else (NULL, Arena))"

definition SdbArenaReserve :: "sdb_arena \<Rightarrow> u64 \<Rightarrow> u64 \<times> sdb_arena" where
  "SdbArenaReserve Arena Size =
     (if Cur Arena + Size \<le> Cap Arena
      then (Size, Arena\<lparr>Cur := Cur Arena + Size\<rparr>)
      else (SdbArenaRemaining Arena, Arena))"

definition SdbArenaClear :: "sdb_arena \<Rightarrow> sdb_arena" where
  "SdbArenaClear Arena = Arena\<lparr>Cur := 0\<rparr>"

definition SdbArenaClearZero :: "mem \<Rightarrow> sdb_arena \<Rightarrow> sdb_arena \<times> mem" where
  "SdbArenaClearZero m Arena = (Arena\<lparr>Cur := 0\<rparr>, SdbMemZero m (Mem Arena) (Cap Arena))"

text \<open>
  Bootstrapping carves a sub-arena out of \<open>Arena\<close>: its struct (\<open>sizeof_sdb_arena\<close> bytes,
  unless the caller passes one) and then its memory. The result is the address of the
  struct with its contents, or \<open>None\<close> for NULL; the parent keeps whatever was pushed.
\<close>

definition sizeof_sdb_arena :: u64 where
  "sizeof_sdb_arena = 24"

definition SdbArenaBootstrap ::
  "sdb_arena \<Rightarrow> addr \<Rightarrow> u64 \<Rightarrow> (addr \<times> sdb_arena) option \<times> sdb_arena" where
  "SdbArenaBootstrap Arena NewArena0 Size =
     (let (NewArena, Arena1) =
            (if NewArena0 = NULL then SdbArenaPush Arena sizeof_sdb_arena else (NewArena0, Arena));
          (NewArenaMem, Arena2) = SdbArenaPush Arena1 Size
      in if NewArena = NULL \<or> NewArenaMem = NULL then (None, Arena2)
         else (Some (NewArena, SdbArenaInit \<lparr>Cur = 0, Cap = 0, Mem = 0\<rparr> NewArenaMem Size), Arena2))"

lemmas arena_defs = SdbArenaInit_def SdbArenaPush_def SdbArenaPushZero_def SdbArenaRemaining_def
  SdbArenaPop_def SdbArenaGetPos_def SdbArenaSeek_def SdbArenaReserve_def SdbArenaClear_def
  SdbArenaClearZero_def

section \<open>Well-formed arenas\<close>

text \<open>
  The position is within the capacity, the memory is a block of the address space that does
  not start at NULL and does not wrap, and no object is larger than \<open>PTRDIFF_MAX\<close>.
\<close>

definition arena_ok :: "sdb_arena \<Rightarrow> bool" where
  "arena_ok A \<longleftrightarrow> Cur A \<le> Cap A \<and> Mem A \<noteq> 0 \<and> unat (Cap A) < 2 ^ 63 \<and>
     unat (Mem A) + unat (Cap A) < 2 ^ 64"

lemma push_no_wrap:
  assumes "arena_ok A" "unat Size < 2 ^ 63"
  shows "unat (Cur A + Size) = unat (Cur A) + unat Size"
proof -
  have "unat (Cur A) < 2 ^ 63" using assms(1) by (auto simp: arena_ok_def word_le_nat_alt)
  then show ?thesis using assms(2) by (intro unat_plus_fits) simp
qed

lemma mem_offset:
  assumes "arena_ok A" "k \<le> Cap A"
  shows "unat (Mem A + k) = unat (Mem A) + unat k" "Mem A + k \<noteq> 0"
proof -
  have "unat (Mem A) + unat k < 2 ^ 64" using assms by (auto simp: arena_ok_def word_le_nat_alt)
  then show u: "unat (Mem A + k) = unat (Mem A) + unat k" by (intro unat_plus_fits) simp
  have "0 < unat (Mem A)" using assms(1) by (simp add: arena_ok_def unat_gt_0)
  then show "Mem A + k \<noteq> 0" using u by (metis add_is_0 less_numeral_extra(3) unat_0)
qed

lemma push_fits_iff:
  assumes "arena_ok A" "unat Size < 2 ^ 63"
  shows "Cur A + Size \<le> Cap A \<longleftrightarrow> unat (Cur A) + unat Size \<le> unat (Cap A)"
  using push_no_wrap [OF assms] by (simp add: word_le_nat_alt)

lemma SdbArenaPush_fits:
  assumes "arena_ok A" "unat Size < 2 ^ 63" "unat (Cur A) + unat Size \<le> unat (Cap A)"
  shows "SdbArenaPush A Size = (Mem A + Cur A, A\<lparr>Cur := Cur A + Size\<rparr>)"
    and "arena_ok (A\<lparr>Cur := Cur A + Size\<rparr>)"
  using assms push_fits_iff [OF assms(1,2)] by (auto simp: SdbArenaPush_def arena_ok_def)

lemma SdbArenaPush_full:
  assumes "arena_ok A" "unat Size < 2 ^ 63" "unat (Cap A) < unat (Cur A) + unat Size"
  shows "SdbArenaPush A Size = (NULL, A)"
  using assms push_fits_iff [OF assms(1,2)] by (auto simp: SdbArenaPush_def)

lemma SdbArenaPush_null_iff:
  assumes "arena_ok A" "unat Size < 2 ^ 63"
  shows "fst (SdbArenaPush A Size) = NULL \<longleftrightarrow> unat (Cap A) < unat (Cur A) + unat Size"
proof (cases "unat (Cur A) + unat Size \<le> unat (Cap A)")
  case True
  have "Cur A \<le> Cap A" using assms(1) by (simp add: arena_ok_def)
  then show ?thesis using True SdbArenaPush_fits [OF assms True] mem_offset(2) [OF assms(1)] by simp
next
  case False
  then show ?thesis using SdbArenaPush_full [OF assms] by simp
qed

section \<open>The allocator interface\<close>

text \<open>
  A client of an allocator relies on these laws only: blocks start at the frontier, the
  frontier moves past them, and a request is refused exactly when it does not fit.
  \<open>ok_size\<close> delimits the requests the laws cover.
\<close>

fun alloc_all :: "('s \<Rightarrow> nat \<Rightarrow> (nat \<times> 's) option) \<Rightarrow> 's \<Rightarrow> nat list \<Rightarrow> nat option list \<times> 's" where
  "alloc_all al s [] = ([], s)"
| "alloc_all al s (n # ns) =
     (case al s n of
        None \<Rightarrow> (let (rs, t) = alloc_all al s ns in (None # rs, t))
      | Some (p, s') \<Rightarrow> (let (rs, t) = alloc_all al s' ns in (Some p # rs, t)))"

locale bump_allocator =
  fixes alloc :: "'s \<Rightarrow> nat \<Rightarrow> (nat \<times> 's) option"
    and inv :: "'s \<Rightarrow> bool"
    and frontier :: "'s \<Rightarrow> nat"
    and limit :: "'s \<Rightarrow> nat"
    and ok_size :: "nat \<Rightarrow> bool"
  assumes frontier_le: "inv s \<Longrightarrow> frontier s \<le> limit s"
    and alloc_Some: "inv s \<Longrightarrow> ok_size n \<Longrightarrow> alloc s n = Some (p, s') \<Longrightarrow>
      p = frontier s \<and> frontier s' = frontier s + n \<and> limit s' = limit s \<and> inv s'"
    and alloc_None_iff: "inv s \<Longrightarrow> ok_size n \<Longrightarrow> alloc s n = None \<longleftrightarrow> limit s < frontier s + n"
begin

lemma alloc_all_inv:
  assumes "inv s" "\<forall>n\<in>set ns. ok_size n" "alloc_all alloc s ns = (rs, t)"
  shows "inv t \<and> limit t = limit s \<and> frontier s \<le> frontier t \<and> length rs = length ns"
  using assms
proof (induction ns arbitrary: s rs)
  case (Cons n ns)
  show ?case
  proof (cases "alloc s n")
    case None
    then show ?thesis using Cons by (fastforce split: prod.splits)
  next
    case (Some q)
    then obtain p s' where q: "alloc s n = Some (p, s')" by (cases q) auto
    have s': "inv s'" "frontier s' = frontier s + n" "limit s' = limit s"
      using alloc_Some [OF _ _ q] Cons.prems by auto
    obtain rs' where "alloc_all alloc s' ns = (rs', t)" "rs = Some p # rs'"
      using Cons.prems(3) q by (auto split: prod.splits)
    then show ?thesis using Cons.IH [of s' rs'] s' Cons.prems(2) by auto
  qed
qed simp

lemma alloc_all_block:
  assumes "inv s" "\<forall>n\<in>set ns. ok_size n" "alloc_all alloc s ns = (rs, t)"
    and "i < length ns" "rs ! i = Some p"
  shows "frontier s \<le> p \<and> p + ns ! i \<le> frontier t"
  using assms
proof (induction ns arbitrary: s rs i)
  case (Cons n ns)
  show ?case
  proof (cases "alloc s n")
    case None
    then obtain rs' where r: "alloc_all alloc s ns = (rs', t)" "rs = None # rs'"
      using Cons.prems(3) by (auto split: prod.splits)
    then show ?thesis using Cons.IH [of s rs' "i - 1"] Cons.prems by (cases i) auto
  next
    case (Some q)
    then obtain p0 s' where q: "alloc s n = Some (p0, s')" by (cases q) auto
    have s': "inv s'" "frontier s' = frontier s + n" "p0 = frontier s"
      using alloc_Some [OF _ _ q] Cons.prems by auto
    obtain rs' where r: "alloc_all alloc s' ns = (rs', t)" "rs = Some p0 # rs'"
      using Cons.prems(3) q by (auto split: prod.splits)
    have "frontier s' \<le> frontier t" using alloc_all_inv [OF s'(1) _ r(1)] Cons.prems(2) by simp
    then show ?thesis using Cons.IH [of s' rs' "i - 1"] Cons.prems r s' by (cases i) auto
  qed
qed simp

lemma alloc_all_ordered:
  assumes "inv s" "\<forall>n\<in>set ns. ok_size n" "alloc_all alloc s ns = (rs, t)"
    and "i < j" "j < length ns" "rs ! i = Some p" "rs ! j = Some q"
  shows "p + ns ! i \<le> q"
  using assms
proof (induction ns arbitrary: s rs i j)
  case (Cons n ns)
  obtain j' where j: "j = Suc j'" using Cons.prems(4) by (cases j) auto
  show ?case
  proof (cases "alloc s n")
    case None
    then obtain rs' where r: "alloc_all alloc s ns = (rs', t)" "rs = None # rs'"
      using Cons.prems(3) by (auto split: prod.splits)
    then show ?thesis using Cons.IH [of s rs' "i - 1" j'] Cons.prems j by (cases i) auto
  next
    case (Some r0)
    then obtain p0 s' where q: "alloc s n = Some (p0, s')" by (cases r0) auto
    have s': "inv s'" "frontier s' = frontier s + n" "p0 = frontier s"
      using alloc_Some [OF _ _ q] Cons.prems by auto
    obtain rs' where r: "alloc_all alloc s' ns = (rs', t)" "rs = Some p0 # rs'"
      using Cons.prems(3) q by (auto split: prod.splits)
    show ?thesis
    proof (cases i)
      case 0
      then show ?thesis
        using alloc_all_block [OF s'(1) _ r(1), of j' q] Cons.prems j r s' by simp
    next
      case (Suc i')
      then show ?thesis using Cons.IH [of s' rs' i' j'] Cons.prems j r s' by simp
    qed
  qed
qed simp

end

text \<open>The arena provides the interface: a block is refused with NULL.\<close>

definition arena_alloc :: "sdb_arena \<Rightarrow> nat \<Rightarrow> (nat \<times> sdb_arena) option" where
  "arena_alloc A n =
     (let (p, A') = SdbArenaPush A (of_nat n) in if p = NULL then None else Some (unat p, A'))"

interpretation arena: bump_allocator arena_alloc arena_ok "\<lambda>A. unat (Mem A) + unat (Cur A)"
  "\<lambda>A. unat (Mem A) + unat (Cap A)" "\<lambda>n. n < 2 ^ 63"
proof unfold_locales
  fix A :: sdb_arena assume "arena_ok A"
  then show "unat (Mem A) + unat (Cur A) \<le> unat (Mem A) + unat (Cap A)"
    by (simp add: arena_ok_def word_le_nat_alt)
next
  fix A n p A' assume ok: "arena_ok A" and n: "n < (2::nat) ^ 63" and al: "arena_alloc A n = Some (p, A')"
  have u: "unat (of_nat n :: u64) = n" using n by (intro unat_of_nat_fits) simp
  have nn: "fst (SdbArenaPush A (of_nat n)) \<noteq> NULL"
    using al by (auto simp: arena_alloc_def split: prod.splits if_splits)
  then have fits: "unat (Cur A) + unat (of_nat n :: u64) \<le> unat (Cap A)"
    using SdbArenaPush_null_iff [OF ok, of "of_nat n"] u n by simp
  have sz: "unat (of_nat n :: u64) < 2 ^ 63" using u n by simp
  have "p = unat (Mem A + Cur A)" "A' = A\<lparr>Cur := Cur A + of_nat n\<rparr>"
    using al nn SdbArenaPush_fits(1) [OF ok sz fits] by (auto simp: arena_alloc_def)
  moreover have "Cur A \<le> Cap A" using ok by (simp add: arena_ok_def)
  ultimately show "p = unat (Mem A) + unat (Cur A) \<and>
      unat (Mem A') + unat (Cur A') = unat (Mem A) + unat (Cur A) + n \<and>
      unat (Mem A') + unat (Cap A') = unat (Mem A) + unat (Cap A) \<and> arena_ok A'"
    using SdbArenaPush_fits(2) [OF ok sz fits] mem_offset(1) [OF ok] push_no_wrap [OF ok sz] u by simp
next
  fix A n assume ok: "arena_ok A" and n: "n < (2::nat) ^ 63"
  have u: "unat (of_nat n :: u64) = n" using n by (intro unat_of_nat_fits) simp
  show "arena_alloc A n = None \<longleftrightarrow> unat (Mem A) + unat (Cap A) < unat (Mem A) + unat (Cur A) + n"
    using SdbArenaPush_null_iff [OF ok, of "of_nat n"] u n
    by (auto simp: arena_alloc_def split: prod.splits)
qed


section \<open>Sequences of allocations\<close>

text \<open>The pointers a sequence of pushes returns, NULL for the refused ones.\<close>

fun SdbArenaPushes :: "sdb_arena \<Rightarrow> u64 list \<Rightarrow> addr list \<times> sdb_arena" where
  "SdbArenaPushes A [] = ([], A)"
| "SdbArenaPushes A (n # ns) =
     (let (p, A') = SdbArenaPush A n; (ps, A'') = SdbArenaPushes A' ns in (p # ps, A''))"

lemma SdbArenaPush_null_same: "SdbArenaPush A n = (NULL, A') \<Longrightarrow> arena_ok A \<Longrightarrow> A' = A"
  using mem_offset(2) [of A "Cur A"] by (auto simp: SdbArenaPush_def arena_ok_def split: if_splits)

lemma SdbArenaPushes_alloc_all:
  assumes "arena_ok A" "\<forall>n\<in>set ns. unat n < 2 ^ 63"
  shows "alloc_all arena_alloc A (map unat ns) =
    (map (\<lambda>p. if p = NULL then None else Some (unat p)) (fst (SdbArenaPushes A ns)),
     snd (SdbArenaPushes A ns))"
  using assms
proof (induction ns arbitrary: A)
  case (Cons n ns)
  obtain p A' where p: "SdbArenaPush A n = (p, A')" by fastforce
  have n: "unat n < 2 ^ 63" using Cons.prems(2) by simp
  show ?case
  proof (cases "p = NULL")
    case True
    then have "A' = A" using p Cons.prems(1) SdbArenaPush_null_same by blast
    then show ?thesis using Cons.IH [of A] Cons.prems p True
      by (simp add: arena_alloc_def split: prod.splits)
  next
    case False
    then have al: "arena_alloc A (unat n) = Some (unat p, A')" using p by (simp add: arena_alloc_def)
    then have "arena_ok A'" using arena.alloc_Some [OF Cons.prems(1) n al] by simp
    then show ?thesis using Cons.IH [of A'] Cons.prems p al False by (simp split: prod.splits)
  qed
qed simp

lemma SdbArenaPushes_length: "length (fst (SdbArenaPushes A ns)) = length ns"
  by (induction ns arbitrary: A) (auto simp: case_prod_beta Let_def)

lemma SdbArenaPushes_ok:
  assumes "arena_ok A" "\<forall>n\<in>set ns. unat n < 2 ^ 63"
  shows "arena_ok (snd (SdbArenaPushes A ns))" "Mem (snd (SdbArenaPushes A ns)) = Mem A"
    "Cap (snd (SdbArenaPushes A ns)) = Cap A"
proof -
  show "arena_ok (snd (SdbArenaPushes A ns))"
    using arena.alloc_all_inv [OF assms(1) _ SdbArenaPushes_alloc_all [OF assms]] assms(2) by simp
  show "Mem (snd (SdbArenaPushes A ns)) = Mem A" "Cap (snd (SdbArenaPushes A ns)) = Cap A"
    by (induction ns arbitrary: A) (auto simp: SdbArenaPush_def case_prod_beta Let_def)
qed

lemma SdbArenaPushes_in_range:
  assumes "arena_ok A" "\<forall>n\<in>set ns. unat n < 2 ^ 63"
    and "i < length ns" "fst (SdbArenaPushes A ns) ! i = p" "p \<noteq> NULL"
  shows "unat (Mem A) + unat (Cur A) \<le> unat p \<and> unat p + unat (ns ! i) \<le> unat (Mem A) + unat (Cap A)"
proof -
  let ?t = "snd (SdbArenaPushes A ns)"
  have "unat (Mem A) + unat (Cur A) \<le> unat p \<and> unat p + map unat ns ! i \<le> unat (Mem ?t) + unat (Cur ?t)"
    using arena.alloc_all_block [OF assms(1) _ SdbArenaPushes_alloc_all [OF assms(1,2)], of i "unat p"]
      assms SdbArenaPushes_length [of A ns] by simp
  moreover have "unat (Cur ?t) \<le> unat (Cap ?t)"
    using SdbArenaPushes_ok(1) [OF assms(1,2)] by (simp add: arena_ok_def word_le_nat_alt)
  ultimately show ?thesis using SdbArenaPushes_ok(2,3) [OF assms(1,2)] assms(3) by simp
qed




section \<open>Undoing and refusing\<close>

lemma SdbArenaPush_Pop:
  assumes "arena_ok A" "unat Size < 2 ^ 63" "unat (Cur A) + unat Size \<le> unat (Cap A)"
  shows "SdbArenaPop (snd (SdbArenaPush A Size)) Size = (fst (SdbArenaPush A Size), A)"
proof -
  have "Size \<le> Cur A + Size" using push_no_wrap [OF assms(1,2)] by (simp add: word_le_nat_alt)
  then show ?thesis using SdbArenaPush_fits(1) [OF assms] by (simp add: SdbArenaPop_def)
qed

lemma SdbArenaSeek_ok: "arena_ok A \<Longrightarrow> arena_ok (snd (SdbArenaSeek A Pos))"
  by (simp add: SdbArenaSeek_def arena_ok_def)

lemma SdbArenaPop_ok:
  assumes "arena_ok A"
  shows "arena_ok (snd (SdbArenaPop A Size))"
proof (cases "Size \<le> Cur A")
  case True
  then have "Cur A - Size \<le> Cap A"
    using assms by (auto simp: arena_ok_def word_le_nat_alt unat_minus_le)
  then show ?thesis using assms True by (simp add: SdbArenaPop_def arena_ok_def)
qed (use assms in \<open>simp add: SdbArenaPop_def\<close>)

lemma SdbArenaReserve_refused_iff:
  assumes "arena_ok A" "unat Size < 2 ^ 63"
  shows "fst (SdbArenaReserve A Size) < Size \<longleftrightarrow> unat (Cap A) < unat (Cur A) + unat Size"
proof -
  have rem: "unat (SdbArenaRemaining A) = unat (Cap A) - unat (Cur A)"
    using assms(1) by (simp add: SdbArenaRemaining_def arena_ok_def unat_minus_le)
  have "unat (Cur A) \<le> unat (Cap A)" using assms(1) by (simp add: arena_ok_def word_le_nat_alt)
  then show ?thesis
    using push_fits_iff [OF assms] rem by (auto simp: SdbArenaReserve_def word_less_nat_alt)
qed

text \<open>
  C37. Every operation that moves the position of a well-formed arena keeps it well formed:
  the position never passes the capacity, whatever is pushed (below \<open>PTRDIFF_MAX\<close>), popped,
  sought, reserved or cleared.
\<close>

theorem arena_ops_keep_ok:
  assumes "arena_ok A" "unat Size < 2 ^ 63"
  shows "arena_ok (snd (SdbArenaPush A Size)) \<and> arena_ok (fst (snd (SdbArenaPushZero m A Size))) \<and>
    arena_ok (snd (SdbArenaPop A Size)) \<and> arena_ok (snd (SdbArenaSeek A Size)) \<and>
    arena_ok (snd (SdbArenaReserve A Size)) \<and> arena_ok (SdbArenaClear A) \<and>
    arena_ok (fst (SdbArenaClearZero m A))"
  using assms SdbArenaPop_ok [OF assms(1), of Size] SdbArenaSeek_ok [OF assms(1), of Size]
  by (auto simp: SdbArenaPush_def SdbArenaPushZero_def SdbArenaReserve_def SdbArenaClear_def
      SdbArenaClearZero_def arena_ok_def Let_def)

theorem arena_ops_keep_ok_witness:
  "arena_ok (snd (SdbArenaPush \<lparr>Cur = 8, Cap = 64, Mem = 4096\<rparr> 16))"
  using arena_ops_keep_ok [of "\<lparr>Cur = 8, Cap = 64, Mem = 4096\<rparr>" 16] by (simp add: arena_ok_def)

text \<open>
  The bounds check of a push compares \<open>Cur + Size\<close> after the addition has wrapped: on any
  arena with something pushed, a request of \<open>2^64 - Cur\<close> bytes is granted (not NULL) and moves
  the position back to 0, so that the next push hands out memory that is still in use.
\<close>

theorem arena_push_wraps:
  assumes "arena_ok A" "0 < Cur A"
  shows "fst (SdbArenaPush A (- Cur A)) = Mem A + Cur A \<and> fst (SdbArenaPush A (- Cur A)) \<noteq> NULL \<and>
    Cur (snd (SdbArenaPush A (- Cur A))) = 0 \<and> unat (Cap A) < unat (Cur A) + unat (- Cur A)"
proof -
  have "unat (- Cur A) = 2 ^ 64 - unat (Cur A)"
    using assms(2) by (intro unat_neg_u64) auto
  moreover have "Cur A \<le> Cap A" "unat (Cap A) < 2 ^ 63" using assms(1) by (simp_all add: arena_ok_def)
  ultimately show ?thesis
    using mem_offset(2) [OF assms(1)] by (simp add: SdbArenaPush_def)
qed

theorem arena_push_wraps_witness:
  "fst (SdbArenaPush \<lparr>Cur = 8, Cap = 64, Mem = 4096\<rparr> (- 8)) \<noteq> NULL"
  using arena_push_wraps [of "\<lparr>Cur = 8, Cap = 64, Mem = 4096\<rparr>"] by (simp add: arena_ok_def)

end
