(* ===== verification/Sdb_Containers.thy ===== *)
theory Sdb_Containers
  imports Sdb_Arena
begin

text \<open>
  \<^verbatim>\<open>SdbArrayShift\<close> with \<^verbatim>\<open>SdbArrayDeleteAndShift\<close>, and the pool allocator that
  \<^verbatim>\<open>SDB_POOL_ALLOCATOR_DEFINE\<close> generates for a struct with a \<open>Next\<close> field.
\<close>

section \<open>Shifting array elements\<close>

text \<open>\<^verbatim>\<open>memmove\<close> copies as if through a temporary: read the block, then write it.\<close>

definition SdbArrayShift :: "mem \<Rightarrow> addr \<Rightarrow> u64 \<Rightarrow> u64 \<Rightarrow> u64 \<Rightarrow> u64 \<Rightarrow> mem" where
  "SdbArrayShift m Array From To Count ElementSize =
     (if From \<noteq> To then
        (let Src = Array + From * ElementSize;
             Dst = Array + To * ElementSize;
             NumElements = (if Count > From then Count - From else 0)
         in if NumElements > 0 then
              (let NBytes = NumElements * ElementSize in wr m Dst (rd m Src (unat NBytes)))
            else m)
      else m)"

definition SdbArrayDeleteAndShift :: "mem \<Rightarrow> addr \<Rightarrow> u64 \<Rightarrow> u64 \<Rightarrow> u64 \<Rightarrow> mem" where
  "SdbArrayDeleteAndShift m Array i Count ElementSize = SdbArrayShift m Array (i + 1) i Count ElementSize"

text \<open>The array as a list of its \<open>n\<close> elements of \<open>e\<close> bytes.\<close>

definition elems :: "mem \<Rightarrow> addr \<Rightarrow> nat \<Rightarrow> nat \<Rightarrow> u8 list list" where
  "elems m a e n = map (\<lambda>k. rd m (a + of_nat (k * e)) e) [0..<n]"

lemma rd_offset_eq: "rd m (a + of_nat p) n = map (\<lambda>j. m (a + of_nat (p + j))) [0..<n]"
  by (simp add: rd_def add.assoc)

lemma SdbArrayDelete_eq:
  assumes "unat Count * unat ES < 2 ^ 63" "unat i < unat Count" "0 < unat ES"
  shows "SdbArrayDeleteAndShift m a i Count ES =
    wr m (a + of_nat (unat i * unat ES))
      (rd m (a + of_nat (Suc (unat i) * unat ES)) ((unat Count - Suc (unat i)) * unat ES))"
proof -
  have "unat Count \<le> unat Count * unat ES" using assms(3) by (cases "unat ES") auto
  then have c: "unat Count < 2 ^ 63" using assms(1) by (rule le_less_trans)
  then have i1: "unat (i + 1) = Suc (unat i)" using assms(2) by (subst unat_plus_fits) auto
  have w: "x * ES = of_nat (unat x * unat ES)" for x by simp
  have ne: "i + 1 \<noteq> i" by simp
  show ?thesis
  proof (cases "Suc (unat i) < unat Count")
    case True
    then have lt: "i + 1 < Count" using i1 by (simp add: word_less_nat_alt)
    then have d: "unat (Count - (i + 1)) = unat Count - Suc (unat i)" using i1 by (subst unat_minus_le) auto
    have "(unat Count - Suc (unat i)) * unat ES < 2 ^ 63"
      using assms(1) by (meson diff_le_self le_less_trans mult_le_mono1)
    then have nb: "unat ((Count - (i + 1)) * ES) = (unat Count - Suc (unat i)) * unat ES"
      unfolding w d by (intro unat_of_nat_fits) simp
    have "0 < Count - (i + 1)" using d True by (simp add: word_less_nat_alt)
    then show ?thesis
      using lt ne nb i1 w [of i] w [of "i + 1"] by (simp add: SdbArrayDeleteAndShift_def SdbArrayShift_def)
  next
    case False
    then have "\<not> i + 1 < Count" "unat Count - Suc (unat i) = 0" using i1 assms(2) by (simp_all add: word_less_nat_alt)
    then show ?thesis by (simp add: SdbArrayDeleteAndShift_def SdbArrayShift_def)
  qed
qed

text \<open>
  Deleting element \<open>i\<close> of an array by shifting leaves, in the first \<open>Count - 1\<close> slots, the
  other elements in their order.
\<close>

theorem array_delete_and_shift:
  assumes "unat Count * unat ES < 2 ^ 63" "unat i < unat Count" "0 < unat ES"
  shows "elems (SdbArrayDeleteAndShift m a i Count ES) a (unat ES) (unat Count - 1) =
    take (unat i) (elems m a (unat ES) (unat Count)) @ drop (Suc (unat i)) (elems m a (unat ES) (unat Count))"
proof (rule nth_equalityI)
  let ?e = "unat ES" and ?n = "unat Count" and ?i = "unat i"
  let ?m' = "SdbArrayDeleteAndShift m a i Count ES"
  let ?bs = "rd m (a + of_nat (Suc ?i * ?e)) ((?n - Suc ?i) * ?e)"
  show "length (elems ?m' a ?e (?n - 1)) = length (take ?i (elems m a ?e ?n) @ drop (Suc ?i) (elems m a ?e ?n))"
    using assms(2) by (simp add: elems_def)
  fix k assume "k < length (elems ?m' a ?e (?n - 1))"
  then have k: "k < ?n - 1" by (simp add: elems_def)
  have total: "?i * ?e + length ?bs \<le> 2 ^ 63"
  proof -
    have "?i * ?e + (?n - Suc ?i) * ?e = (?n - 1) * ?e" using assms(2) by (simp flip: add_mult_distrib)
    also have "\<dots> \<le> ?n * ?e" by simp
    finally show ?thesis using assms(1) by simp
  qed
  have byte: "?m' (a + of_nat (k * ?e + j)) =
      m (a + of_nat ((if k < ?i then k else Suc k) * ?e + j))" if j: "j < ?e" for j
  proof -
    have "Suc k * ?e \<le> ?n * ?e" using k by (intro mult_le_mono1) simp
    then have p: "k * ?e + j < 2 ^ 63" using assms(1) j by simp
    have eq: "?m' (a + of_nat (k * ?e + j)) =
        (if ?i * ?e \<le> k * ?e + j \<and> k * ?e + j < ?i * ?e + length ?bs
         then ?bs ! (k * ?e + j - ?i * ?e) else m (a + of_nat (k * ?e + j)))"
      unfolding SdbArrayDelete_eq [OF assms] using p total by (rule wr_offset)
    show ?thesis
    proof (cases "k < ?i")
      case True
      then have "Suc k * ?e \<le> ?i * ?e" by (intro mult_le_mono1) simp
      then show ?thesis using eq True j by simp
    next
      case False
      then have le: "?i * ?e \<le> k * ?e" by simp
      have "Suc k * ?e \<le> (?n - 1) * ?e" using k by (intro mult_le_mono1) simp
      also have "(?n - 1) * ?e = ?i * ?e + (?n - Suc ?i) * ?e" using assms(2) by (simp flip: add_mult_distrib)
      finally have lt: "k * ?e + j < ?i * ?e + length ?bs" using j by simp
      then have "?bs ! (k * ?e + j - ?i * ?e) = m (a + of_nat (Suc ?i * ?e) + of_nat (k * ?e + j - ?i * ?e))"
        using le unfolding length_rd by (intro nth_rd) linarith
      also have "a + of_nat (Suc ?i * ?e) + of_nat (k * ?e + j - ?i * ?e) =
          a + of_nat (Suc ?i * ?e + (k * ?e + j - ?i * ?e))"
        by (simp only: of_nat_add add.assoc)
      also have "Suc ?i * ?e + (k * ?e + j - ?i * ?e) = Suc k * ?e + j" using le unfolding mult_Suc by linarith
      finally show ?thesis using eq False le lt by simp
    qed
  qed
  have "elems ?m' a ?e (?n - 1) ! k = rd m (a + of_nat ((if k < ?i then k else Suc k) * ?e)) ?e"
    using k byte unfolding elems_def by (simp add: rd_offset_eq del: of_nat_add of_nat_mult)
  also have "\<dots> = (take ?i (elems m a ?e ?n) @ drop (Suc ?i) (elems m a ?e ?n)) ! k"
    using k assms(2) by (auto simp: elems_def nth_append min_def)
  finally show "elems ?m' a ?e (?n - 1) ! k =
      (take ?i (elems m a ?e ?n) @ drop (Suc ?i) (elems m a ?e ?n)) ! k" .
qed

theorem array_delete_and_shift_witness:
  "elems (SdbArrayDeleteAndShift ((\<lambda>_. 0)(16 := 1, 18 := 2, 20 := 3)) 16 1 3 2) 16 2 2 = [[1, 0], [3, 0]]"
  using array_delete_and_shift [of 3 2 1 "(\<lambda>_. 0)(16 := 1, 18 := 2, 20 := 3)" 16]
  by (simp add: elems_def rd_def upt_rec)


section \<open>The pool allocator\<close>

text \<open>
  \<open>FirstFree\<close> heads the list of released instances, linked by their \<open>Next\<close> fields; \<open>sz\<close> is
  the size of the struct. Zeroing a struct also clears its \<open>Next\<close> field.
\<close>

record sdb_pool =
  PoolArena :: sdb_arena
  FirstFree :: addr

definition PoolAlloc ::
  "u64 \<Rightarrow> (addr \<Rightarrow> addr) \<Rightarrow> mem \<Rightarrow> sdb_pool \<Rightarrow> addr \<times> (addr \<Rightarrow> addr) \<times> mem \<times> sdb_pool" where
  "PoolAlloc sz Next m Pool =
     (let Result = FirstFree Pool
      in if Result \<noteq> NULL
         then (Result, Next(Result := NULL), SdbMemZero m Result sz, Pool\<lparr>FirstFree := Next Result\<rparr>)
         else (let (Result, A, m') = SdbArenaPushZero m (PoolArena Pool) sz
               in (Result, (if Result = NULL then Next else Next(Result := NULL)), m', Pool\<lparr>PoolArena := A\<rparr>)))"

definition PoolRelease :: "(addr \<Rightarrow> addr) \<Rightarrow> sdb_pool \<Rightarrow> addr \<Rightarrow> (addr \<Rightarrow> addr) \<times> sdb_pool" where
  "PoolRelease Next Pool Instance = (Next(Instance := FirstFree Pool), Pool\<lparr>FirstFree := Instance\<rparr>)"

fun free_chain :: "(addr \<Rightarrow> addr) \<Rightarrow> addr \<Rightarrow> addr list \<Rightarrow> bool" where
  "free_chain Next p [] \<longleftrightarrow> p = NULL"
| "free_chain Next p (x # xs) \<longleftrightarrow> p = x \<and> x \<noteq> NULL \<and> free_chain Next (Next x) xs"

text \<open>
  The instances \<open>live\<close> handed out and the free ones \<open>fs\<close> are distinct and lie below the
  arena's position.
\<close>

definition pool_ok :: "u64 \<Rightarrow> (addr \<Rightarrow> addr) \<Rightarrow> sdb_pool \<Rightarrow> addr list \<Rightarrow> addr list \<Rightarrow> bool" where
  "pool_ok sz Next Pool fs live \<longleftrightarrow>
     arena_ok (PoolArena Pool) \<and> 0 < unat sz \<and> unat sz < 2 ^ 63 \<and> free_chain Next (FirstFree Pool) fs \<and>
     distinct (fs @ live) \<and> NULL \<notin> set live \<and>
     (\<forall>x\<in>set (fs @ live). unat x < unat (Mem (PoolArena Pool)) + unat (Cur (PoolArena Pool)))"

lemma free_chain_cong: "(\<And>x. x \<in> set xs \<Longrightarrow> Next x = Next' x) \<Longrightarrow> free_chain Next p xs = free_chain Next' p xs"
  by (induction xs arbitrary: p) auto

lemma free_chain_NULL: "free_chain Next NULL xs \<longleftrightarrow> xs = []"
  by (cases xs) auto

text \<open>
  The pool never hands out an instance that is still in use: an allocation returns NULL or
  a fresh instance and keeps the pool's invariant, and so does releasing a live instance,
  which is the next one to be handed out.
\<close>

theorem pool_alloc_fresh:
  assumes "pool_ok sz Next Pool fs live" "PoolAlloc sz Next m Pool = (r, Next', m', Pool')" "r \<noteq> NULL"
  shows "r \<notin> set live \<and> pool_ok sz Next' Pool' (tl fs) (r # live) \<and>
    (let (Next2, Pool2) = PoolRelease Next' Pool' r
     in pool_ok sz Next2 Pool2 (r # tl fs) live \<and> fst (PoolAlloc sz Next2 m' Pool2) = r)"
proof (cases fs)
  case Nil
  let ?A = "PoolArena Pool"
  note ok = assms(1) [unfolded pool_ok_def]
  have "FirstFree Pool = NULL" using ok Nil by simp
  then have r: "r = Mem ?A + Cur ?A" and le: "Cur ?A + sz \<le> Cap ?A"
    and P: "Pool' = Pool\<lparr>PoolArena := ?A\<lparr>Cur := Cur ?A + sz\<rparr>\<rparr>" and N: "Next' = Next(r := NULL)"
    using assms(2,3) by (auto simp: PoolAlloc_def SdbArenaPushZero_def Let_def split: if_splits)
  have fits: "unat (Cur ?A) + unat sz \<le> unat (Cap ?A)" using push_fits_iff le ok by blast
  have ur: "unat r = unat (Mem ?A) + unat (Cur ?A)"
    using mem_offset(1) [of ?A "Cur ?A"] ok r by (simp add: arena_ok_def)
  have A': "arena_ok (?A\<lparr>Cur := Cur ?A + sz\<rparr>)" "unat (Cur ?A + sz) = unat (Cur ?A) + unat sz"
    using SdbArenaPush_fits(2) [OF _ _ fits] push_no_wrap ok by auto
  have nl: "r \<notin> set live" using ok ur by (metis Un_iff less_irrefl set_append)
  then show ?thesis
    using ok Nil A' P N ur assms(3) \<open>FirstFree Pool = NULL\<close>
    by (fastforce simp: pool_ok_def PoolRelease_def PoolAlloc_def Let_def)
next
  case (Cons f fs')
  note ok = assms(1) [unfolded pool_ok_def]
  have f: "FirstFree Pool = f" "f \<noteq> NULL" "free_chain Next (Next f) fs'" using ok Cons by auto
  then have r: "r = f" "Next' = Next(f := NULL)" "Pool' = Pool\<lparr>FirstFree := Next f\<rparr>"
    using assms(2) by (auto simp: PoolAlloc_def Let_def)
  have "free_chain (Next(f := v)) (Next f) fs'" for v
    using f(3) ok Cons by (subst free_chain_cong [of _ _ Next]) auto
  then show ?thesis
    using ok Cons f r by (auto simp: pool_ok_def PoolRelease_def PoolAlloc_def Let_def)
qed

theorem pool_alloc_fresh_witness:
  "16 \<notin> set [24 :: addr] \<and> pool_ok 8 (\<lambda>_. NULL) \<lparr>PoolArena = \<lparr>Cur = 16, Cap = 64, Mem = 16\<rparr>, FirstFree = NULL\<rparr> [] [16, 24]"
proof -
  let ?P = "\<lparr>PoolArena = \<lparr>Cur = 16, Cap = 64, Mem = 16\<rparr>, FirstFree = 16\<rparr>"
  have ok: "pool_ok 8 (\<lambda>_. NULL) ?P [16] [24]" by (simp add: pool_ok_def arena_ok_def)
  have same: "(\<lambda>_. NULL)(16 := NULL) = (\<lambda>_. NULL)" by auto
  have al: "PoolAlloc 8 (\<lambda>_. NULL) (\<lambda>_. 0) ?P =
      (16, \<lambda>_. NULL, SdbMemZero (\<lambda>_. 0) 16 8, ?P\<lparr>FirstFree := NULL\<rparr>)"
    by (simp add: PoolAlloc_def Let_def same)
  show ?thesis using pool_alloc_fresh [OF ok al] by simp
qed

end
