(* ===== verification/Sdb_Misc.thy ===== *)
theory Sdb_Misc
  imports Sdb_Prelude
begin

text \<open>
  The miscellaneous section of \<^verbatim>\<open>src/Sdb.h\<close>: error codes and their texts, log levels, the
  sign bit of a double, memory sizes written as text (\<^verbatim>\<open>"8mB"\<close>), and the PCG random number
  generator.
\<close>

section \<open>Error codes\<close>

datatype sdbe = SDBE_SUCCESS | SDBE_ERR | SDBE_DBS_UNAVAIL | SDBE_CP_UNAVAIL
  | SDBE_CONN_CLOSED_SUCS | SDBE_CONN_CLOSED_ERR | SDBE_PG_ERR | SDBE_JSON_ERR | SDBE_PTR_WAS_NULL

primrec sdbe_code :: "sdbe \<Rightarrow> int" where
  "sdbe_code SDBE_SUCCESS = 0"
| "sdbe_code SDBE_ERR = 1"
| "sdbe_code SDBE_DBS_UNAVAIL = 2"
| "sdbe_code SDBE_CP_UNAVAIL = 3"
| "sdbe_code SDBE_CONN_CLOSED_SUCS = 4"
| "sdbe_code SDBE_CONN_CLOSED_ERR = 5"
| "sdbe_code SDBE_PG_ERR = 6"
| "sdbe_code SDBE_JSON_ERR = 7"
| "sdbe_code SDBE_PTR_WAS_NULL = 8"

definition SdbStrErr :: "int \<Rightarrow> string" where
  "SdbStrErr E0 =
     (let E = (if E0 < 0 then - E0 else E0)
      in if E = sdbe_code SDBE_SUCCESS then ''Success''
         else if E = sdbe_code SDBE_ERR then ''Error''
         else if E = sdbe_code SDBE_DBS_UNAVAIL then ''Database system unavailable''
         else if E = sdbe_code SDBE_CP_UNAVAIL then ''Communication protocol unavailable''
         else if E = sdbe_code SDBE_CONN_CLOSED_SUCS then ''Connection closed successfully''
         else if E = sdbe_code SDBE_CONN_CLOSED_ERR then ''Connection closed with error''
         else if E = sdbe_code SDBE_PG_ERR then ''PostgreSQL error''
         else if E = sdbe_code SDBE_JSON_ERR then ''JSON parsing error''
         else if E = sdbe_code SDBE_PTR_WAS_NULL then ''Pointer was NULL''
         else ''Unknown error'')"

lemma SdbStrErr_sign: "SdbStrErr (- E) = SdbStrErr E"
  by (auto simp: SdbStrErr_def Let_def)

lemma SdbStrErr_inj:
  "SdbStrErr (- sdbe_code a) = SdbStrErr (- sdbe_code b) \<Longrightarrow> a = b"
  unfolding SdbStrErr_sign by (cases a; cases b; simp add: SdbStrErr_def)

definition SdbDoubleSignBit :: "u64 \<Rightarrow> u64" where
  "SdbDoubleSignBit F = F AND push_bit 63 1"

section \<open>Memory sizes as text\<close>

text \<open>The characters \<^verbatim>\<open>isspace\<close> accepts in the C locale, and decimal digits.\<close>

definition isspace :: "char \<Rightarrow> bool" where
  "isspace c \<longleftrightarrow> c = CHR '' '' \<or> 9 \<le> (of_char c :: nat) \<and> (of_char c :: nat) \<le> 13"

definition isdigit :: "char \<Rightarrow> bool" where
  "isdigit c \<longleftrightarrow> 48 \<le> (of_char c :: nat) \<and> (of_char c :: nat) \<le> 57"

definition digits_value :: "string \<Rightarrow> nat" where
  "digits_value = foldl (\<lambda>v c. 10 * v + (of_char c - 48)) 0"

text \<open>
  \<^verbatim>\<open>strtoull\<close> in base 10: white space, an optional sign, digits; the value saturates at
  \<^verbatim>\<open>ULLONG_MAX\<close>. The second component is the text at \<^verbatim>\<open>EndPtr\<close>, the whole input when there
  is no number.
\<close>

definition strtoull10 :: "string \<Rightarrow> u64 \<times> string" where
  "strtoull10 s =
     (let t = dropWhile isspace s;
          neg = (case t of [] \<Rightarrow> False | c # _ \<Rightarrow> c = CHR ''-'');
          t = (case t of [] \<Rightarrow> [] | c # r \<Rightarrow> if c = CHR ''-'' \<or> c = CHR ''+'' then r else t);
          ds = takeWhile isdigit t;
          v = digits_value ds
      in if ds = [] then (0, s)
         else ((if 2 ^ 64 \<le> v then - 1 else if neg then - of_nat v else of_nat v), dropWhile isdigit t))"

text \<open>The character at index \<open>i\<close> of a C string, the terminating NUL included.\<close>

definition char_at :: "string \<Rightarrow> nat \<Rightarrow> char" where
  "char_at s i = (if i < length s then s ! i else CHR 0x00)"

text \<open>The multipliers of the \<^verbatim>\<open>switch\<close>; \<open>None\<close> where it returns 0.\<close>

definition size_multiplier :: "string \<Rightarrow> nat option" where
  "size_multiplier EndPtr =
     (let c = char_at EndPtr 0
      in if c = CHR ''T'' then Some (1000 * 1000 * 1000 * 1000)
         else if c = CHR ''t'' then Some (1024 * 1024 * 1024 * 1024)
         else if c = CHR ''G'' then Some (1000 * 1000 * 1000)
         else if c = CHR ''g'' then Some (1024 * 1024 * 1024)
         else if c = CHR ''M'' then Some (1000 * 1000)
         else if c = CHR ''m'' then Some (1024 * 1024)
         else if c = CHR ''K'' then Some 1000
         else if c = CHR ''k'' then Some 1024
         else if c = CHR ''B'' then (if char_at EndPtr 1 \<noteq> CHR 0x00 then None else Some 1)
         else None)"

definition SdbMemSizeFromString :: "string option \<Rightarrow> u64" where
  "SdbMemSizeFromString SizeStr =
     (case SizeStr of
        None \<Rightarrow> 0
      | Some s \<Rightarrow>
          if s = [] then 0
          else
            (let (Value, EndPtr) = strtoull10 s
             in if EndPtr = s then 0
                else
                  (let EndPtr = dropWhile isspace EndPtr
                   in if EndPtr = [] then Value
                      else
                        (case size_multiplier EndPtr of
                           None \<Rightarrow> 0
                         | Some Multiplier \<Rightarrow>
                             if char_at EndPtr 0 \<noteq> CHR ''B'' \<and>
                                (char_at EndPtr 1 \<noteq> CHR ''B'' \<or> char_at EndPtr 2 \<noteq> CHR 0x00)
                             then 0
                             else Value * of_nat Multiplier))))"

text \<open>Decimal numerals, to state what the parser reads.\<close>

fun decimal :: "nat \<Rightarrow> string" where
  "decimal n = (if n < 10 then [char_of (48 + n)] else decimal (n div 10) @ [char_of (48 + n mod 10)])"

declare decimal.simps [simp del]

lemma digits_value_snoc: "digits_value (s @ [c]) = 10 * digits_value s + (of_char c - 48)"
  by (simp add: digits_value_def)

lemma decimal_digits: "\<forall>c\<in>set (decimal n). isdigit c"
proof (induction n rule: decimal.induct)
  case (1 n)
  then show ?case by (subst decimal.simps) (auto simp: isdigit_def)
qed

lemma decimal_value: "digits_value (decimal n) = n"
proof (induction n rule: decimal.induct)
  case (1 n)
  show ?case
  proof (cases "n < 10")
    case True
    then show ?thesis by (subst decimal.simps) (simp add: digits_value_def)
  next
    case False
    then show ?thesis using 1 by (subst decimal.simps) (simp add: digits_value_snoc)
  qed
qed

lemma decimal_nonempty: "decimal n \<noteq> []"
  by (subst decimal.simps) simp

lemma takeWhile_all_append: "\<forall>x\<in>set xs. P x \<Longrightarrow> ys = [] \<or> \<not> P (hd ys) \<Longrightarrow>
    takeWhile P (xs @ ys) = xs \<and> dropWhile P (xs @ ys) = ys"
  by (cases ys) (auto simp: takeWhile_append dropWhile_append)

lemma isdigit_facts: "isdigit c \<Longrightarrow> \<not> isspace c \<and> c \<noteq> CHR ''-'' \<and> c \<noteq> CHR ''+''"
  by (auto simp: isdigit_def isspace_def)

lemma strtoull10_decimal:
  assumes "rest = [] \<or> \<not> isdigit (hd rest)" "n < 2 ^ 64"
  shows "strtoull10 (decimal n @ rest) = (of_nat n, rest)"
proof -
  obtain c cs where c: "decimal n = c # cs" using decimal_nonempty by (cases "decimal n") auto
  then have d: "isdigit c" using decimal_digits [of n] by simp
  have td: "takeWhile isdigit (decimal n @ rest) = decimal n" "dropWhile isdigit (decimal n @ rest) = rest"
    using takeWhile_all_append [OF decimal_digits assms(1)] by auto
  have "dropWhile isspace (decimal n @ rest) = decimal n @ rest" using c isdigit_facts [OF d] by simp
  then show ?thesis
    using c isdigit_facts [OF d] td decimal_value [of n] assms(2) decimal_nonempty [of n]
    by (simp add: strtoull10_def Let_def)
qed

text \<open>The unit suffixes and what each multiplies by.\<close>

definition size_units :: "(string \<times> nat) list" where
  "size_units = [('''', 1), (''B'', 1), (''KB'', 10 ^ 3), (''kB'', 2 ^ 10), (''MB'', 10 ^ 6), (''mB'', 2 ^ 20),
     (''GB'', 10 ^ 9), (''gB'', 2 ^ 30), (''TB'', 10 ^ 12), (''tB'', 2 ^ 40)]"

lemma unit_facts:
  "\<forall>(u, k)\<in>set size_units. u \<noteq> [] \<longrightarrow> size_multiplier u = Some k \<and>
     \<not> (char_at u 0 \<noteq> CHR ''B'' \<and> (char_at u 1 \<noteq> CHR ''B'' \<or> char_at u 2 \<noteq> CHR 0x00))"
  by (simp add: size_units_def size_multiplier_def char_at_def)

text \<open>
  The decimal numeral of a 64-bit number followed by a unit, with or without spaces
  between them, is read as the number times the unit: capital letters are powers of 1000,
  small ones powers of 1024. The product wraps at 2^64.
\<close>

theorem mem_size_from_string:
  assumes "n < 2 ^ 64" "(u, k) \<in> set size_units" "\<forall>c\<in>set sp. isspace c"
  shows "SdbMemSizeFromString (Some (decimal n @ sp @ u)) = of_nat (n * k)"
proof -
  let ?s = "decimal n @ sp @ u"
  have u: "u = [] \<or> \<not> isdigit (hd u) \<and> \<not> isspace (hd u)"
    using assms(2) by (auto simp: size_units_def isdigit_def isspace_def)
  have sp: "sp @ u = [] \<or> \<not> isdigit (hd (sp @ u))"
  proof (cases sp)
    case Nil
    then show ?thesis using u by auto
  next
    case (Cons c cs)
    then show ?thesis using assms(3) isdigit_facts by auto
  qed
  have ds: "dropWhile isspace (sp @ u) = u" using takeWhile_all_append [OF assms(3)] u by blast
  have st: "strtoull10 ?s = (of_nat n, sp @ u)" using strtoull10_decimal [OF sp assms(1)] .
  have ne: "?s \<noteq> []" "sp @ u \<noteq> ?s" using decimal_nonempty [of n] by auto
  show ?thesis
  proof (cases "u = []")
    case True
    then show ?thesis using assms(2) ds st ne by (simp add: SdbMemSizeFromString_def size_units_def)
  next
    case False
    then have "size_multiplier u = Some k"
      and unit: "\<not> (char_at u 0 \<noteq> CHR ''B'' \<and> (char_at u 1 \<noteq> CHR ''B'' \<or> char_at u 2 \<noteq> CHR 0x00))"
      using unit_facts assms(2) by auto
    then have "SdbMemSizeFromString (Some ?s) = of_nat n * of_nat k"
      unfolding SdbMemSizeFromString_def option.case st using False ds ne by (simp only: prod.case if_False option.case Let_def)
    then show ?thesis by simp
  qed
qed

theorem mem_size_from_string_witness:
  "SdbMemSizeFromString (Some ''8mB'') = 8388608"
proof -
  have "decimal 8 = ''8''" by code_simp
  then show ?thesis using mem_size_from_string [of 8 "''mB''" "2 ^ 20" "[]"] by (simp add: size_units_def)
qed

section \<open>The PCG generator\<close>

definition SdbSeedRandPCG :: "u32 \<Rightarrow> u32" where
  "SdbSeedRandPCG Seed = Seed"

text \<open>The generator takes its state and returns the number drawn and the next state.\<close>

definition SdbRandPCG :: "u32 \<Rightarrow> u32 \<times> u32" where
  "SdbRandPCG State =
     (let State' = State * 747796405 + 2891336453;
          Word = (drop_bit (unat (drop_bit 28 State + 4)) State XOR State) * 277803737
      in (drop_bit 22 Word XOR Word, State'))"

text \<open>A shift right by \<open>k\<close> xored in is undone by looking at the top bits first.\<close>

lemma unat_drop: "unat (drop_bit k (d::u32)) = unat d div 2 ^ k"
  by (simp only: unat_drop_bit_eq) (simp only: drop_bit_eq_div)
lemma drop_bit_fixpoint:
  fixes d :: u32
  assumes "drop_bit k d = d" "0 < k"
  shows "d = 0"
proof -
  have e: "unat d div 2 ^ k = unat d" using assms(1) unat_drop [of k d] by simp
  have "unat d = 0"
  proof (rule ccontr)
    assume "unat d \<noteq> 0"
    then have "unat d div 2 ^ k < unat d" using assms(2) by (intro div_less_dividend) (simp_all add: one_less_power del: One_nat_def)
    then show False using e by simp
  qed
  then show ?thesis by (simp add: unat_eq_zero)
qed
lemma xor_zero_iff: "a XOR b = 0 \<longleftrightarrow> a = (b :: u32)"
  by (metis xor.assoc xor.left_neutral xor.right_neutral xor_self_eq)
lemma xorshift_inj:
  fixes s t :: u32
  assumes "drop_bit k s XOR s = drop_bit k t XOR t" "0 < k"
  shows "s = t"
proof -
  have "drop_bit k (s XOR t) XOR (s XOR t) = (drop_bit k s XOR s) XOR (drop_bit k t XOR t)"
    by (simp only: drop_bit_xor ac_simps)
  also have "\<dots> = 0" using assms(1) by simp
  finally have "drop_bit k (s XOR t) = s XOR t" by (simp only: xor_zero_iff)
  then have "s XOR t = 0" using assms(2) by (rule drop_bit_fixpoint)
  then show ?thesis by (simp only: xor_zero_iff)
qed
lemma mult_odd_inj:
  fixes s t c d :: u32
  assumes "c * d = 1" "s * c = t * c"
  shows "s = t"
proof -
  have "s * c * d = t * c * d" using assms(2) by simp
  then show ?thesis using assms(1) by (simp only: mult.assoc mult_1_right)
qed
lemma drop_bit_big: "32 \<le> k \<Longrightarrow> drop_bit k (s :: u32) = 0"
proof -
  assume "32 \<le> k"
  then have "(2::nat) ^ 32 \<le> 2 ^ k" by (intro power_increasing) auto
  moreover have "unat s < 2 ^ 32" using unsigned_less [of s] by simp
  ultimately have "unat s div 2 ^ k = 0" by (intro div_less) linarith
  then show ?thesis using unat_drop [of k s] by (simp add: unat_eq_zero)
qed
lemma pcg_top_bits:
  fixes s :: u32
  assumes "4 \<le> k"
  shows "drop_bit 28 (drop_bit k s XOR s) = drop_bit 28 s"
proof -
  have "drop_bit 28 (drop_bit k s) = 0" using assms drop_bit_big [of "28 + k" s] by (simp add: drop_bit_drop_bit)
  then show ?thesis by (simp only: drop_bit_xor xor.left_neutral)
qed

definition pcg_word :: "u32 \<Rightarrow> u32" where
  "pcg_word s = (drop_bit (unat (drop_bit 28 s + 4)) s XOR s) * 277803737"

lemma SdbRandPCG_eq:
  "SdbRandPCG s = (drop_bit 22 (pcg_word s) XOR pcg_word s, s * 747796405 + 2891336453)"
  by (simp only: SdbRandPCG_def pcg_word_def Let_def)

lemma pcg_multipliers_invertible:
  "(747796405 :: u32) * 3425435293 = 1" "(277803737 :: u32) * 2897767785 = 1"
  by simp_all

lemma pcg_shift_ge_4: "4 \<le> unat (drop_bit 28 (x :: u32) + 4)"
proof -
  have "unat x < 16 * 2 ^ 28" using unsigned_less [of x] by simp
  then have lt: "unat (drop_bit 28 x) < 16" unfolding unat_drop by (rule less_mult_imp_div_less)
  have four: "unat (4 :: u32) = 4" by simp
  have "unat (drop_bit 28 x) + unat (4 :: u32) < 2 ^ LENGTH(32)" using lt four by simp
  then have "unat (drop_bit 28 x + 4) = unat (drop_bit 28 x) + 4"
    unfolding unat_plus_if' four by (simp only: if_True)
  then show ?thesis by linarith
qed

lemma pcg_word_inj:
  assumes "pcg_word s = pcg_word t"
  shows "s = t"
proof -
  define k where "k x = unat (drop_bit 28 x + 4)" for x :: u32
  have ge: "4 \<le> k x" for x unfolding k_def by (rule pcg_shift_ge_4)
  have eq: "drop_bit (k s) s XOR s = drop_bit (k t) t XOR t"
    apply (rule mult_odd_inj)
    apply (rule pcg_multipliers_invertible(2))
    apply (insert assms)
    apply (simp only: pcg_word_def k_def)
    done
  have "drop_bit 28 s = drop_bit 28 (drop_bit (k s) s XOR s)" by (rule pcg_top_bits [OF ge, symmetric])
  also have "\<dots> = drop_bit 28 t" unfolding eq by (rule pcg_top_bits [OF ge])
  finally have "k s = k t" by (simp only: k_def)
  then have e: "drop_bit (k t) s XOR s = drop_bit (k t) t XOR t" using eq by (simp only:)
  have z: "0 < k t" using ge [of t] by linarith
  show ?thesis by (rule xorshift_inj [OF e z])
qed

text \<open>
  The generator loses nothing of its 32-bit state: distinct states step to distinct states
  and yield distinct numbers, so over all states every 32-bit number is drawn exactly once.
\<close>

theorem pcg_bijective:
  "inj (\<lambda>s. snd (SdbRandPCG s)) \<and> bij (\<lambda>s. fst (SdbRandPCG s))"
proof
  show "inj (\<lambda>s. snd (SdbRandPCG s))"
  proof (rule injI)
    fix s t assume "snd (SdbRandPCG s) = snd (SdbRandPCG t)"
    then have "s * 747796405 = t * 747796405" by (simp only: SdbRandPCG_eq snd_conv add_right_cancel)
    then show "s = t" by (rule mult_odd_inj [OF pcg_multipliers_invertible(1)])
  qed
  have inj: "inj (\<lambda>s. fst (SdbRandPCG s))"
  proof (rule injI)
    fix s t assume "fst (SdbRandPCG s) = fst (SdbRandPCG t)"
    then have "pcg_word s = pcg_word t"
      unfolding SdbRandPCG_eq fst_conv by (rule xorshift_inj) simp
    then show "s = t" by (rule pcg_word_inj)
  qed
  have "finite (UNIV :: u32 set)" by (rule finite)
  then show "bij (\<lambda>s. fst (SdbRandPCG s))"
    using inj by (intro bijI finite_UNIV_inj_surj) assumption+
qed

end
