(* ===== verification/Sdb_Scratch.thy ===== *)
theory Sdb_Scratch
  imports Sdb_Arena
begin

text \<open>
  The registry of a thread's scratch arenas (\<^verbatim>\<open>sdb__thread_arenas__\<close>), scratch arenas, the
  array shift and the pool allocator of \<^verbatim>\<open>src/Sdb.h\<close>. Arenas are compared by address here,
  so they are objects of a store.
\<close>

section \<open>The registry of a thread's arenas\<close>

type_synonym arena_store = "addr \<Rightarrow> sdb_arena"

text \<open>
  \<open>Arenas\<close> is the array of arena pointers the registry points to, \<open>None\<close> before
  initialisation. The array is static storage, all NULL at first.
\<close>

record thread_arenas =
  Arenas :: "addr list option"
  TaCount :: u64
  MaxCount :: u64

definition SDB_THREAD_ARENAS_REGISTER :: "u64 \<Rightarrow> addr list \<times> thread_arenas" where
  "SDB_THREAD_ARENAS_REGISTER count =
     (replicate (unat count) NULL, \<lparr>Arenas = None, TaCount = 0, MaxCount = count\<rparr>)"

definition Sdb_ThreadArenasInit :: "addr list \<Rightarrow> thread_arenas \<Rightarrow> thread_arenas" where
  "Sdb_ThreadArenasInit TABuf TAs = TAs\<lparr>Arenas := Some TABuf\<rparr>"

definition Sdb_ThreadArenasAdd :: "addr \<Rightarrow> thread_arenas \<Rightarrow> (int \<times> thread_arenas) res" where
  "Sdb_ThreadArenasAdd Arena TAs =
     (if TaCount TAs + 1 \<le> MaxCount TAs
      then (case Arenas TAs of
              None \<Rightarrow> Inl NullDeref
            | Some as \<Rightarrow> Inr (0, TAs\<lparr>Arenas := Some (as[unat (TaCount TAs) := Arena]),
                                   TaCount := TaCount TAs + 1\<rparr>))
      else Inr (- 1, TAs))"

section \<open>Scratch arenas\<close>

record sdb_scratch_arena =
  ScArena :: addr
  F5 :: u64

definition SdbScratchBegin :: "arena_store \<Rightarrow> addr \<Rightarrow> sdb_scratch_arena" where
  "SdbScratchBegin st Arena = \<lparr>ScArena = Arena, F5 = SdbArenaGetPos (st Arena)\<rparr>"

text \<open>The two nested loops with their \<^verbatim>\<open>goto exit\<close>: the inner one leaves as soon as one conflict differs.\<close>

fun scratch_inner :: "addr \<Rightarrow> addr list \<Rightarrow> bool" where
  "scratch_inner a [] = False"
| "scratch_inner a (c # cs) = (if a \<noteq> c then True else scratch_inner a cs)"

fun scratch_scan :: "addr list \<Rightarrow> addr list \<Rightarrow> addr" where
  "scratch_scan [] Conflicts = NULL"
| "scratch_scan (a # as) Conflicts = (if scratch_inner a Conflicts then a else scratch_scan as Conflicts)"

definition Sdb_ScratchGet :: "arena_store \<Rightarrow> addr list \<Rightarrow> thread_arenas \<Rightarrow> sdb_scratch_arena res" where
  "Sdb_ScratchGet st Conflicts TAs =
     (case Arenas TAs of
        None \<Rightarrow> (if Conflicts \<noteq> [] \<and> TaCount TAs = 0 then Inr \<lparr>ScArena = NULL, F5 = 0\<rparr> else Inl NullDeref)
      | Some as \<Rightarrow>
          (let Arena = (if Conflicts \<noteq> [] then scratch_scan (take (unat (TaCount TAs)) as) Conflicts
                        else as ! 0)
           in Inr (if Arena = NULL then \<lparr>ScArena = NULL, F5 = 0\<rparr> else SdbScratchBegin st Arena)))"

definition Sdb_ScratchRelease :: "arena_store \<Rightarrow> sdb_scratch_arena \<Rightarrow> arena_store res" where
  "Sdb_ScratchRelease st Scratch =
     (if ScArena Scratch = NULL then Inl NullDeref
      else Inr (st(ScArena Scratch := snd (SdbArenaSeek (st (ScArena Scratch)) (F5 Scratch)))))"

section \<open>Properties of the registry\<close>

definition registry_ok :: "thread_arenas \<Rightarrow> bool" where
  "registry_ok TAs \<longleftrightarrow> (\<exists>as. Arenas TAs = Some as \<and> length as = unat (MaxCount TAs) \<and>
     TaCount TAs \<le> MaxCount TAs \<and> MaxCount TAs < 2 ^ 32)"

lemma registry_initialised:
  assumes "count < 2 ^ 32"
  shows "registry_ok (Sdb_ThreadArenasInit (fst (SDB_THREAD_ARENAS_REGISTER count))
     (snd (SDB_THREAD_ARENAS_REGISTER count)))"
  using assms by (simp add: registry_ok_def Sdb_ThreadArenasInit_def SDB_THREAD_ARENAS_REGISTER_def)

lemma count_succ:
  assumes "registry_ok TAs" "TaCount TAs \<le> 2 ^ 32"
  shows "unat (TaCount TAs + 1) = Suc (unat (TaCount TAs))"
proof -
  have "unat (TaCount TAs) + unat (1 :: u64) < 2 ^ 64" using assms(2) by (simp add: word_le_nat_alt)
  then show ?thesis by (subst unat_plus_fits) auto
qed

lemma registry_add:
  assumes "registry_ok TAs"
  shows "Sdb_ThreadArenasAdd a TAs =
    (if TaCount TAs < MaxCount TAs
     then Inr (0, TAs\<lparr>Arenas := Some ((the (Arenas TAs))[unat (TaCount TAs) := a]), TaCount := TaCount TAs + 1\<rparr>)
     else Inr (- 1, TAs))"
proof -
  have "TaCount TAs \<le> 2 ^ 32" using assms by (auto simp: registry_ok_def)
  then have "TaCount TAs + 1 \<le> MaxCount TAs \<longleftrightarrow> TaCount TAs < MaxCount TAs"
    using count_succ [OF assms] by (simp add: word_le_nat_alt word_less_nat_alt Suc_le_eq)
  then show ?thesis using assms by (auto simp: Sdb_ThreadArenasAdd_def registry_ok_def)
qed

text \<open>
  A registered arena is stored behind the ones registered before it; the registry never
  holds more than \<open>MaxCount\<close> arenas, and a full one answers -1 and is left as it was.
\<close>

theorem thread_arenas_add:
  assumes "registry_ok TAs" "Arenas TAs = Some as"
  shows "(TaCount TAs < MaxCount TAs \<longrightarrow>
      (\<exists>TAs'. Sdb_ThreadArenasAdd a TAs = Inr (0, TAs') \<and> registry_ok TAs' \<and>
        (\<exists>bs. Arenas TAs' = Some bs \<and>
          take (unat (TaCount TAs')) bs = take (unat (TaCount TAs)) as @ [a]))) \<and>
    (\<not> TaCount TAs < MaxCount TAs \<longrightarrow> Sdb_ThreadArenasAdd a TAs = Inr (- 1, TAs))"
proof (intro conjI impI)
  assume lt: "TaCount TAs < MaxCount TAs"
  let ?n = "unat (TaCount TAs)"
  let ?T = "TAs\<lparr>Arenas := Some (as[?n := a]), TaCount := TaCount TAs + 1\<rparr>"
  have len: "length as = unat (MaxCount TAs)" "TaCount TAs \<le> 2 ^ 32"
    using assms by (auto simp: registry_ok_def)
  have n: "?n < length as" using lt len by (simp add: word_less_nat_alt)
  have S: "unat (TaCount TAs + 1) = Suc ?n" using count_succ [OF assms(1)] len by simp
  have "take (Suc ?n) (as[?n := a]) = take ?n as @ [a]"
    using n by (simp add: take_Suc_conv_app_nth)
  moreover have "registry_ok ?T"
    using assms len lt S by (auto simp: registry_ok_def word_le_nat_alt word_less_nat_alt)
  ultimately show "\<exists>TAs'. Sdb_ThreadArenasAdd a TAs = Inr (0, TAs') \<and> registry_ok TAs' \<and>
        (\<exists>bs. Arenas TAs' = Some bs \<and> take (unat (TaCount TAs')) bs = take ?n as @ [a])"
    using registry_add [OF assms(1), of a] assms(2) lt S by auto
next
  assume "\<not> TaCount TAs < MaxCount TAs"
  then show "Sdb_ThreadArenasAdd a TAs = Inr (- 1, TAs)" using registry_add [OF assms(1)] by simp
qed

theorem thread_arenas_add_witness:
  "Sdb_ThreadArenasAdd 96 \<lparr>Arenas = Some [64, 80], TaCount = 2, MaxCount = 2\<rparr> =
     Inr (- 1, \<lparr>Arenas = Some [64, 80], TaCount = 2, MaxCount = 2\<rparr>)"
  using thread_arenas_add [of "\<lparr>Arenas = Some [64, 80], TaCount = 2, MaxCount = 2\<rparr>" "[64, 80]" 96]
  by (simp add: registry_ok_def)

section \<open>Choosing and releasing a scratch arena\<close>

lemma scratch_inner_iff: "scratch_inner a cs \<longleftrightarrow> (\<exists>c\<in>set cs. a \<noteq> c)"
  by (induction cs) auto

lemma scratch_scan_one: "scratch_scan as [c] = NULL \<or> scratch_scan as [c] \<in> set as \<and> scratch_scan as [c] \<noteq> c"
  by (induction as) auto



text \<open>
  With two distinct conflicts the search leaves its inner loop at the first one that
  differs, so the first registered arena is always chosen, even when it is itself one of
  the conflicts.
\<close>

theorem scratch_get_two_conflicts:
  assumes "Arenas TAs = Some (a # as)" "0 < TaCount TAs" "a \<noteq> NULL"
    and "c \<noteq> d" "{c, d} \<subseteq> set Conflicts"
  shows "Sdb_ScratchGet st Conflicts TAs = Inr (SdbScratchBegin st a)"
proof -
  have "0 < unat (TaCount TAs)" using assms(2) by (simp add: word_less_nat_alt)
  then have "take (unat (TaCount TAs)) (a # as) = a # take (unat (TaCount TAs) - 1) as"
    by (simp add: take_Cons')
  moreover have "scratch_inner a Conflicts" using assms(4,5) by (cases "a = c") (auto simp: scratch_inner_iff)
  moreover have "Conflicts \<noteq> []" using assms(5) by auto
  ultimately show ?thesis using assms(1,3) by (simp add: Sdb_ScratchGet_def)
qed

theorem scratch_get_two_conflicts_witness:
  "Sdb_ScratchGet (\<lambda>_. \<lparr>Cur = 5, Cap = 9, Mem = 16\<rparr>) [64, 80]
     \<lparr>Arenas = Some [64, 80, 96], TaCount = 3, MaxCount = 3\<rparr> = Inr \<lparr>ScArena = 64, F5 = 5\<rparr>"
  using scratch_get_two_conflicts [of "\<lparr>Arenas = Some [64, 80, 96], TaCount = 3, MaxCount = 3\<rparr>" 64 "[80, 96]"
      64 80 "[64, 80]" "\<lambda>_. \<lparr>Cur = 5, Cap = 9, Mem = 16\<rparr>"]
  by (simp add: SdbScratchBegin_def SdbArenaGetPos_def)

text \<open>
  Whatever is pushed on an arena between taking it as scratch and releasing it, the
  release restores the arena exactly, and no other arena of the store has changed.
\<close>

theorem scratch_release_restores:
  assumes "arena_ok (st a)" "a \<noteq> NULL" "\<forall>n\<in>set ns. unat n < 2 ^ 63"
  shows "Sdb_ScratchRelease (st(a := snd (SdbArenaPushes (st a) ns))) (SdbScratchBegin st a) = Inr st"
proof -
  let ?A = "snd (SdbArenaPushes (st a) ns)"
  have same: "Cap ?A = Cap (st a)" "Mem ?A = Mem (st a)" using SdbArenaPushes_ok [OF assms(1,3)] by auto
  have "?A\<lparr>Cur := Cur (st a)\<rparr> = st a" using same by (intro sdb_arena.equality) simp_all
  then have "st(a := ?A\<lparr>Cur := Cur (st a)\<rparr>) = st" by (simp only: fun_upd_triv)
  moreover have "Cur (st a) \<le> Cap ?A" using assms(1) same by (simp add: arena_ok_def)
  ultimately show ?thesis
    using assms(2) by (simp add: Sdb_ScratchRelease_def SdbScratchBegin_def SdbArenaGetPos_def SdbArenaSeek_def)
qed

theorem scratch_release_restores_witness:
  "Sdb_ScratchRelease ((\<lambda>_. \<lparr>Cur = 8, Cap = 64, Mem = 4096\<rparr>)(7 :=
      snd (SdbArenaPushes \<lparr>Cur = 8, Cap = 64, Mem = 4096\<rparr> [16, 100])))
     (SdbScratchBegin (\<lambda>_. \<lparr>Cur = 8, Cap = 64, Mem = 4096\<rparr>) 7) = Inr (\<lambda>_. \<lparr>Cur = 8, Cap = 64, Mem = 4096\<rparr>)"
  using scratch_release_restores [of "\<lambda>_. \<lparr>Cur = 8, Cap = 64, Mem = 4096\<rparr>" 7 "[16, 100]"]
  by (simp add: arena_ok_def)

end
