(* ===== verification/Sdb_Time.thy ===== *)
theory Sdb_Time
  imports Sdb_Prelude
begin

text \<open>
  Time differences and timestamps (\<^verbatim>\<open>src/Common/Time.h\<close>, \<^verbatim>\<open>src/Common/Time.c\<close>). The conversion macros
  divide by constants like \<^verbatim>\<open>1e9\<close>, so they compute in IEEE double precision: the 64-bit count is
  rounded to 53 significant bits, the quotient again, and the result is truncated.
\<close>

section \<open>Double precision on natural numbers\<close>

fun bitlen :: "nat \<Rightarrow> nat" where
  "bitlen n = (if n = 0 then 0 else Suc (bitlen (n div 2)))"

declare bitlen.simps [simp del]

text \<open>\<open>rne n d\<close> is \<open>n / d\<close> rounded to the nearest integer, ties to even.\<close>

definition rne :: "nat \<Rightarrow> nat \<Rightarrow> nat" where
  "rne n d = (if 2 * (n mod d) < d \<or> (2 * (n mod d) = d \<and> even (n div d)) then n div d else Suc (n div d))"

text \<open>
  The double nearest to a natural number, and the truncated double quotient of two: the
  mantissa has 53 bits, and the quotient of less than 1 is rounded as in \<open>[1/2, 1)\<close>, which
  does not affect its truncation.
\<close>

definition dbl :: "nat \<Rightarrow> nat" where
  "dbl x = (let k = bitlen x in if k \<le> 53 then x else rne x (2 ^ (k - 53)) * 2 ^ (k - 53))"

definition trunc_div :: "nat \<Rightarrow> nat \<Rightarrow> nat" where
  "trunc_div n d =
     (let k = bitlen (n div d)
      in if k \<le> 53 then rne (n * 2 ^ (53 - k)) d div 2 ^ (53 - k)
         else rne n (d * 2 ^ (k - 53)) * 2 ^ (k - 53))"

section \<open>The macros\<close>

type_synonym sdb_timediff = u64

definition SDB_TIME_MAX :: sdb_timediff where "SDB_TIME_MAX = - 1"

definition SDB_TIME_S :: "nat \<Rightarrow> sdb_timediff" where "SDB_TIME_S s = of_nat (dbl (dbl s * 10 ^ 9))"
definition SDB_TIME_MS :: "nat \<Rightarrow> sdb_timediff" where "SDB_TIME_MS ms = of_nat (dbl (dbl ms * 10 ^ 6))"
definition SDB_TIME_US :: "nat \<Rightarrow> sdb_timediff" where "SDB_TIME_US us = of_nat (dbl (dbl us * 10 ^ 3))"

definition SDB_TIME_TO_S :: "sdb_timediff \<Rightarrow> u64" where
  "SDB_TIME_TO_S ns = of_nat (trunc_div (dbl (unat ns)) (10 ^ 9))"
definition SDB_TIME_TO_MS :: "sdb_timediff \<Rightarrow> u64" where
  "SDB_TIME_TO_MS ns = of_nat (trunc_div (dbl (unat ns)) (10 ^ 6))"
definition SDB_TIME_TO_US :: "sdb_timediff \<Rightarrow> u64" where
  "SDB_TIME_TO_US ns = of_nat (trunc_div (dbl (unat ns)) (10 ^ 3))"
definition SDB_TIME_TO_NS :: "sdb_timediff \<Rightarrow> u64" where
  "SDB_TIME_TO_NS ns = ns"

section \<open>Timestamps\<close>

text \<open>Seconds and nanoseconds are signed 64-bit; the sums below stay far from the bounds.\<close>

record timespec =
  tv_sec :: int
  tv_nsec :: int

record timeval =
  tvl_sec :: int
  tvl_usec :: int

text \<open>The clock's answer is an argument; \<open>None\<close> is an error with the given \<^verbatim>\<open>errno\<close>.\<close>

definition SdbTimeNow :: "timespec option \<Rightarrow> int \<Rightarrow> timespec \<Rightarrow> int \<times> timespec" where
  "SdbTimeNow clock err Timespec = (case clock of None \<Rightarrow> (- err, Timespec) | Some t \<Rightarrow> (0, t))"

definition SdbTimeMonotonic :: "timespec option \<Rightarrow> timespec \<Rightarrow> int \<times> timespec" where
  "SdbTimeMonotonic clock TimeStamp = (case clock of None \<Rightarrow> (- 1, TimeStamp) | Some t \<Rightarrow> (0, t))"

definition SdbTimeAdd :: "timespec \<Rightarrow> sdb_timediff \<Rightarrow> timespec" where
  "SdbTimeAdd Timespec Delta =
     (let Timespec = Timespec\<lparr>tv_sec := tv_sec Timespec + int (unat (SDB_TIME_TO_S Delta))\<rparr>;
          Timespec = Timespec\<lparr>tv_nsec := tv_nsec Timespec + int (unat (SDB_TIME_TO_NS Delta mod 10 ^ 9))\<rparr>
      in if tv_nsec Timespec \<ge> 10 ^ 9
         then Timespec\<lparr>tv_sec := tv_sec Timespec + 1, tv_nsec := tv_nsec Timespec mod 2 ^ 64 mod 10 ^ 9\<rparr>
         else Timespec)"

definition SdbTimespecAbsolute :: "timespec option \<Rightarrow> int \<Rightarrow> timespec \<Rightarrow> sdb_timediff \<Rightarrow> int \<times> timespec" where
  "SdbTimespecAbsolute clock err Timespec Delta =
     (let (Ret, Timespec) = SdbTimeNow clock err Timespec
      in if Ret \<noteq> 0 then (Ret, Timespec) else (Ret, SdbTimeAdd Timespec Delta))"

definition SdbTimePrintSpecDiffWT :: "timespec \<Rightarrow> timespec \<Rightarrow> timespec" where
  "SdbTimePrintSpecDiffWT StartTime EndTime =
     (if tv_nsec EndTime < tv_nsec StartTime
      then \<lparr>tv_sec = tv_sec EndTime - tv_sec StartTime - 1,
            tv_nsec = 1000000000 + tv_nsec EndTime - tv_nsec StartTime\<rparr>
      else \<lparr>tv_sec = tv_sec EndTime - tv_sec StartTime, tv_nsec = tv_nsec EndTime - tv_nsec StartTime\<rparr>)"

definition SdbTimespec :: "sdb_timediff \<Rightarrow> timespec" where
  "SdbTimespec Delta = \<lparr>tv_sec = int (unat (SDB_TIME_TO_S Delta)), tv_nsec = int (unat (SDB_TIME_TO_NS Delta mod 10 ^ 9))\<rparr>"

definition SdbTimeval :: "sdb_timediff \<Rightarrow> timeval" where
  "SdbTimeval Delta =
     \<lparr>tvl_sec = int (unat (SDB_TIME_TO_S Delta)), tvl_usec = int (unat (SDB_TIME_TO_US Delta AND 10 ^ 6))\<rparr>"

text \<open>For timestamps after 1970 the doubles are not negative.\<close>

definition TimespecNs :: "timespec \<Rightarrow> int" where
  "TimespecNs t = int (dbl (dbl (nat (tv_sec t) * 10 ^ 9) + nat (tv_nsec t)))"

definition SdbTimeoutExpired :: "timespec \<Rightarrow> timespec \<Rightarrow> bool" where
  "SdbTimeoutExpired Timeout Now = (TimespecNs Now > TimespecNs Timeout)"

text \<open>\<open>nanosleep\<close> is the outcome of the call of that name.\<close>

definition SdbSleep :: "(timespec \<Rightarrow> int) \<Rightarrow> int \<Rightarrow> sdb_timediff \<Rightarrow> int" where
  "SdbSleep nanosleep err Delta =
     (let Ret = nanosleep (SdbTimespec Delta) in if Ret \<noteq> 0 then - err else Ret)"

section \<open>Facts about the rounding\<close>

lemma bitlen_0 [simp]: "bitlen 0 = 0"
  by (simp add: bitlen.simps)

lemma bitlen_bound: "n < 2 ^ bitlen n"
proof (induction n rule: bitlen.induct)
  case (1 n)
  show ?case
  proof (cases "n = 0")
    case False
    then have "n div 2 < 2 ^ bitlen (n div 2)" using 1 by blast
    then have "n < 2 * 2 ^ bitlen (n div 2)" by linarith
    then show ?thesis using False by (subst bitlen.simps) simp
  qed simp
qed

lemma bitlen_lower: "0 < n \<Longrightarrow> 2 ^ (bitlen n - 1) \<le> n"
proof (induction n rule: bitlen.induct)
  case (1 n)
  show ?case
  proof (cases "n div 2 = 0")
    case True
    then show ?thesis using 1 by (subst bitlen.simps) simp
  next
    case False
    then have "bitlen (n div 2) \<noteq> 0" by (subst bitlen.simps) simp
    moreover have "2 ^ (bitlen (n div 2) - 1) \<le> n div 2" using 1 False by simp
    ultimately have "2 ^ bitlen (n div 2) \<le> n"
      by (cases "bitlen (n div 2)") auto
    then show ?thesis using 1 by (subst bitlen.simps) simp
  qed
qed

lemma bitlen_le:
  assumes "n < 2 ^ k"
  shows "bitlen n \<le> k"
proof (cases "n = 0")
  case False
  then have "(2::nat) ^ (bitlen n - 1) < 2 ^ k" using bitlen_lower [of n] assms by linarith
  then show ?thesis by simp
qed simp

lemma bitlen_mono: "m \<le> n \<Longrightarrow> bitlen m \<le> bitlen n"
  using bitlen_bound [of n] by (intro bitlen_le) linarith

lemma dbl_exact: "x < 2 ^ 53 \<Longrightarrow> dbl x = x"
  using bitlen_le [of x 53] by (simp add: dbl_def)

lemma rne_bounds: "n div d \<le> rne n d" "rne n d \<le> Suc (n div d)"
  by (auto simp: rne_def)

lemma trunc_div_exact:
  assumes "n div d < 2 ^ k" "k \<le> 53" "d < 2 ^ (54 - k)" "0 < d"
  shows "trunc_div n d = n div d"
proof -
  define q r where "q = n div d" and "r = n mod d"
  define e where "e = 53 - bitlen q"
  have k: "bitlen q \<le> k" using bitlen_le [of q k] assms(1) by (simp add: q_def)
  have "54 - k \<le> Suc e" using k assms(2) by (simp add: e_def)
  then have "(2::nat) ^ (54 - k) \<le> 2 ^ Suc e" by (rule power_increasing) simp
  then have d: "d < 2 * 2 ^ e" using assms(3) by simp
  have r: "r < d" and n: "n = q * d + r" using assms(4) by (simp_all add: q_def r_def)
  have N: "n * 2 ^ e = d * (q * 2 ^ e) + r * 2 ^ e" unfolding n by (simp add: algebra_simps)
  have up: "rne (n * 2 ^ e) d < Suc q * 2 ^ e"
  proof -
    define a b where "a = r * 2 ^ e div d" and "b = r * 2 ^ e mod d"
    have ab: "r * 2 ^ e = a * d + b" "b < d" using assms(4) by (simp_all add: a_def b_def)
    have div: "n * 2 ^ e div d = q * 2 ^ e + a" "n * 2 ^ e mod d = b"
      unfolding N using assms(4) by (simp_all add: a_def b_def)
    have le: "r * 2 ^ e + 2 ^ e \<le> d * 2 ^ e"
      using r by (metis Suc_leI add.commute mult_Suc mult_le_mono1)
    then have "a * d + b + 2 ^ e \<le> 2 ^ e * d" using ab(1) by (simp add: mult.commute)
    moreover have "(0::nat) < 2 ^ e" by simp
    ultimately have "a * d < 2 ^ e * d" by linarith
    then have a: "a < 2 ^ e" by simp
    show ?thesis
    proof (cases "Suc a = 2 ^ e")
      case False
      then have "Suc (Suc a) \<le> 2 ^ e" using a by linarith
      then show ?thesis using rne_bounds(2) [of "n * 2 ^ e" d] div by simp
    next
      case True
      then have "a * d + b + 2 ^ e \<le> a * d + d" using \<open>a * d + b + 2 ^ e \<le> 2 ^ e * d\<close>
        by (metis True add.commute mult_Suc)
      then have "2 * b < d" using d by linarith
      then have "rne (n * 2 ^ e) d = q * 2 ^ e + a" using div by (simp add: rne_def)
      then show ?thesis using a by simp
    qed
  qed
  have "n * 2 ^ e div d = q * 2 ^ e + r * 2 ^ e div d" unfolding N using assms(4) by simp
  then have low: "q * 2 ^ e \<le> rne (n * 2 ^ e) d" using rne_bounds(1) [of "n * 2 ^ e" d] by linarith
  have "rne (n * 2 ^ e) d div 2 ^ e = q"
  proof (rule div_nat_eqI)
    show "2 ^ e * q \<le> rne (n * 2 ^ e) d" using low by (simp add: mult.commute)
    show "rne (n * 2 ^ e) d < 2 ^ e * Suc q" using up by (simp add: mult.commute)
  qed
  then show ?thesis using k assms(2) by (simp add: trunc_div_def Let_def q_def [symmetric] e_def)
qed

section \<open>Sums and differences\<close>

lemma conversions_exact:
  assumes "unat ns < 2 ^ 53"
  shows "unat (SDB_TIME_TO_S ns) = unat ns div 10 ^ 9" "unat (SDB_TIME_TO_MS ns) = unat ns div 10 ^ 6"
    and "unat (SDB_TIME_TO_US ns) = unat ns div 10 ^ 3"
proof -
  have u: "unat (of_nat (unat ns div d) :: u64) = unat ns div d" for d
    using unat_u64_less [of ns] by (intro unat_of_nat_fits) (auto intro: le_less_trans [OF div_le_dividend])
  note d = dbl_exact [OF assms]
  have "trunc_div (unat ns) (10 ^ 9) = unat ns div 10 ^ 9"
    using assms by (intro trunc_div_exact [of _ _ 24]) auto
  then show "unat (SDB_TIME_TO_S ns) = unat ns div 10 ^ 9" by (simp only: SDB_TIME_TO_S_def d u)
  have "trunc_div (unat ns) (10 ^ 6) = unat ns div 10 ^ 6"
    using assms by (intro trunc_div_exact [of _ _ 34]) auto
  then show "unat (SDB_TIME_TO_MS ns) = unat ns div 10 ^ 6" by (simp only: SDB_TIME_TO_MS_def d u)
  have "trunc_div (unat ns) (10 ^ 3) = unat ns div 10 ^ 3"
    using assms by (intro trunc_div_exact [of _ _ 44]) auto
  then show "unat (SDB_TIME_TO_US ns) = unat ns div 10 ^ 3" by (simp only: SDB_TIME_TO_US_def d u)
qed

definition total_ns :: "timespec \<Rightarrow> int" where
  "total_ns t = tv_sec t * 10 ^ 9 + tv_nsec t"

definition timespec_ok :: "timespec \<Rightarrow> bool" where
  "timespec_ok t \<longleftrightarrow> 0 \<le> tv_nsec t \<and> tv_nsec t < 10 ^ 9"

lemma SdbTimespec_exact:
  assumes "unat Delta < 2 ^ 53"
  shows "SdbTimespec Delta = \<lparr>tv_sec = int (unat Delta div 10 ^ 9), tv_nsec = int (unat Delta mod 10 ^ 9)\<rparr>"
  using conversions_exact(1) [OF assms]
  by (simp add: SdbTimespec_def SDB_TIME_TO_NS_def unat_mod_distrib)

lemma SdbTimespec_ok:
  assumes "unat Delta < 2 ^ 53"
  shows "timespec_ok (SdbTimespec Delta)" "total_ns (SdbTimespec Delta) = int (unat Delta)"
proof -
  define b :: nat where "b = 10 ^ 9"
  have b: "0 < b" "int b = 10 ^ 9" by (simp_all add: b_def)
  have e: "SdbTimespec Delta = \<lparr>tv_sec = int (unat Delta div b), tv_nsec = int (unat Delta mod b)\<rparr>"
    using SdbTimespec_exact [OF assms] by (simp only: b_def)
  have "int (unat Delta mod b) < int b" using b(1) by (simp only: of_nat_less_iff mod_less_divisor)
  then show "timespec_ok (SdbTimespec Delta)" unfolding timespec_ok_def e timespec.select_convs b(2) [symmetric] by simp
  have "int (unat Delta div b) * int b + int (unat Delta mod b) = int (unat Delta)"
    by (simp only: of_nat_mult [symmetric] of_nat_add [symmetric] div_mult_mod_eq)
  then show "total_ns (SdbTimespec Delta) = int (unat Delta)"
    unfolding total_ns_def e timespec.select_convs b(2) [symmetric] .
qed

lemma SdbTimeAdd_exact:
  assumes "unat Delta < 2 ^ 53" "timespec_ok t"
  shows "timespec_ok (SdbTimeAdd t Delta)" "total_ns (SdbTimeAdd t Delta) = total_ns t + int (unat Delta)"
proof -
  define q r where "q = unat Delta div 10 ^ 9" and "r = unat Delta mod 10 ^ 9"
  have D: "unat Delta = q * 10 ^ 9 + r" "r < 10 ^ 9" unfolding q_def r_def by simp_all
  have S: "unat (SDB_TIME_TO_S Delta) = q" using conversions_exact(1) [OF assms(1)] by (simp add: q_def)
  have N: "unat (SDB_TIME_TO_NS Delta mod 10 ^ 9) = r"
    by (simp add: SDB_TIME_TO_NS_def unat_mod_distrib r_def)
  have "int (unat (SDB_TIME_TO_S Delta)) = int q" "int (unat (SDB_TIME_TO_NS Delta mod 10 ^ 9)) = int r"
    by (simp_all only: S N)
  then have SN: "uint (SDB_TIME_TO_S Delta) = int q" "uint (SDB_TIME_TO_NS Delta mod 10 ^ 9) = int r" by simp_all
  have b: "0 \<le> tv_nsec t" "tv_nsec t < 10 ^ 9" using assms(2) by (simp_all add: timespec_ok_def)
  have wrap: "(tv_nsec t + int r) mod 2 ^ 64 mod 10 ^ 9 = tv_nsec t + int r - 10 ^ 9"
    if "10 ^ 9 \<le> tv_nsec t + int r"
  proof -
    have "int r < 10 ^ 9" using D(2) by simp
    then have lt: "tv_nsec t + int r < 2 * 10 ^ 9" using b by linarith
    then have "(tv_nsec t + int r) mod 2 ^ 64 = tv_nsec t + int r" using b by (intro mod_pos_pos_trivial) simp_all
    moreover have "(tv_nsec t + int r) mod 10 ^ 9 = (tv_nsec t + int r - 10 ^ 9) mod 10 ^ 9" by simp
    moreover have "(tv_nsec t + int r - 10 ^ 9) mod 10 ^ 9 = tv_nsec t + int r - 10 ^ 9"
      using lt that by (intro mod_pos_pos_trivial) simp_all
    ultimately show ?thesis by simp
  qed
  show "timespec_ok (SdbTimeAdd t Delta)" "total_ns (SdbTimeAdd t Delta) = total_ns t + int (unat Delta)"
    using b wrap D SN by (auto simp: timespec_ok_def total_ns_def SdbTimeAdd_def Let_def)
qed

lemma diff_exact:
  assumes "timespec_ok a" "timespec_ok b" "total_ns a \<le> total_ns b"
  shows "timespec_ok (SdbTimePrintSpecDiffWT a b)"
    and "total_ns (SdbTimePrintSpecDiffWT a b) = total_ns b - total_ns a"
  using assms by (auto simp: timespec_ok_def total_ns_def SdbTimePrintSpecDiffWT_def algebra_simps)

lemma total_ns_inj:
  assumes "timespec_ok a" "timespec_ok b" "total_ns a = total_ns b"
  shows "a = b"
proof -
  have "tv_sec a = total_ns a div 10 ^ 9" "tv_sec b = total_ns b div 10 ^ 9"
    "tv_nsec a = total_ns a mod 10 ^ 9" "tv_nsec b = total_ns b mod 10 ^ 9"
    using assms(1,2) by (simp_all add: timespec_ok_def total_ns_def mod_pos_pos_trivial div_pos_pos_trivial)
  then show ?thesis using assms(3) by simp
qed

text \<open>
  For a delta below \<open>2^53\<close> nanoseconds (104 days) the double arithmetic of the macros is exact:
  adding it to a timestamp gives a normalised timestamp exactly that much later, and the
  difference of the two is the delta again, as \<^verbatim>\<open>SdbTimespec\<close> converts it.
\<close>

theorem time_add_diff:
  assumes "unat Delta < 2 ^ 53" "timespec_ok t"
  shows "timespec_ok (SdbTimeAdd t Delta) \<and> total_ns (SdbTimeAdd t Delta) = total_ns t + int (unat Delta) \<and>
    SdbTimePrintSpecDiffWT t (SdbTimeAdd t Delta) = SdbTimespec Delta"
proof (intro conjI SdbTimeAdd_exact assms)
  note add = SdbTimeAdd_exact [OF assms] and spec = SdbTimespec_ok [OF assms(1)]
  have "total_ns t \<le> total_ns (SdbTimeAdd t Delta)" unfolding add(2) by (rule zle_iff_zadd [THEN iffD2]) blast
  note diff = diff_exact [OF assms(2) add(1) this]
  show "SdbTimePrintSpecDiffWT t (SdbTimeAdd t Delta) = SdbTimespec Delta"
    by (rule total_ns_inj [OF diff(1) spec(1)]) (simp only: diff(2) add(2) spec(2) add_diff_cancel_left')
qed

theorem time_add_diff_witness:
  "SdbTimePrintSpecDiffWT \<lparr>tv_sec = 5, tv_nsec = 900000000\<rparr> (SdbTimeAdd \<lparr>tv_sec = 5, tv_nsec = 900000000\<rparr> 1500000000) =
   SdbTimespec 1500000000"
  using time_add_diff [of 1500000000 "\<lparr>tv_sec = 5, tv_nsec = 900000000\<rparr>"] by (simp add: timespec_ok_def)

text \<open>
  \<^verbatim>\<open>SdbTimeval\<close> masks the microseconds with the bits of a million instead of taking the
  remainder: the half second every socket receive asks for becomes 458752 microseconds, and a
  whole second is counted twice.
\<close>

theorem timeval_masks:
  "SdbTimeval (SDB_TIME_MS 500) = \<lparr>tvl_sec = 0, tvl_usec = 458752\<rparr> \<and>
   SdbTimeval (SDB_TIME_S 1) = \<lparr>tvl_sec = 1, tvl_usec = 1000000\<rparr>"
proof -
  have "SDB_TIME_MS 500 = 500000000" "SDB_TIME_S 1 = 1000000000"
    by (simp_all add: SDB_TIME_MS_def SDB_TIME_S_def dbl_exact)
  moreover have "unat (SDB_TIME_TO_US 500000000) = 500000" "unat (SDB_TIME_TO_US 1000000000) = 1000000"
    using conversions_exact(3) [of 500000000] conversions_exact(3) [of 1000000000] by simp_all
  then have "SDB_TIME_TO_US 500000000 = 500000" "SDB_TIME_TO_US 1000000000 = 1000000"
    by (simp_all add: word_unat_eq_iff)
  ultimately show ?thesis
    using conversions_exact(1) [of 500000000] conversions_exact(1) [of 1000000000] by (simp add: SdbTimeval_def)
qed

section \<open>Expiry\<close>

lemma rne_mono:
  assumes "m \<le> n"
  shows "rne m d \<le> rne n d"
proof (cases "m div d = n div d")
  case True
  then have "m mod d \<le> n mod d" using assms by (metis add_le_cancel_left mult_div_mod_eq)
  then show ?thesis using True by (auto simp: rne_def)
next
  case False
  then have "Suc (m div d) \<le> n div d" using assms div_le_mono [of m n d] by simp
  then show ?thesis using rne_bounds(2) [of m d] rne_bounds(1) [of n d] by linarith
qed

lemma split_pow: "53 < k \<Longrightarrow> (2::nat) ^ 53 * 2 ^ (k - 53) = 2 ^ k"
  by (simp only: power_add [symmetric]) simp

lemma dbl_upper: "dbl x \<le> 2 ^ bitlen x"
proof (cases "bitlen x \<le> 53")
  case True
  then show ?thesis using bitlen_bound [of x] by (simp add: dbl_def)
next
  case False
  define d where "d = (2::nat) ^ (bitlen x - 53)"
  have p: "2 ^ 53 * d = 2 ^ bitlen x" unfolding d_def using False by (intro split_pow) simp
  then have "x div d < 2 ^ 53" using bitlen_bound [of x] by (intro less_mult_imp_div_less) simp
  then have "rne x d \<le> 2 ^ 53" using rne_bounds(2) [of x d] by linarith
  then have "rne x d * d \<le> 2 ^ 53 * d" by (rule mult_le_mono1)
  then show ?thesis using False unfolding p by (simp add: dbl_def Let_def d_def)
qed

lemma dbl_lower:
  assumes "0 < x"
  shows "2 ^ (bitlen x - 1) \<le> dbl x"
proof (cases "bitlen x \<le> 53")
  case True
  then show ?thesis using bitlen_lower [OF assms] by (simp add: dbl_def)
next
  case False
  define d where "d = (2::nat) ^ (bitlen x - 53)"
  have "bitlen x - 1 = 52 + (bitlen x - 53)" using False by simp
  then have p: "2 ^ (bitlen x - 1) = 2 ^ 52 * d" by (simp only: d_def power_add)
  have "2 ^ 52 * d div d \<le> x div d"
    using bitlen_lower [OF assms] unfolding p by (rule div_le_mono)
  then have "2 ^ 52 \<le> x div d" by (simp add: d_def)
  then have "2 ^ 52 \<le> rne x d" using rne_bounds(1) [of x d] by linarith
  then have "2 ^ 52 * d \<le> rne x d * d" by (rule mult_le_mono1)
  then show ?thesis using False unfolding p by (simp add: dbl_def Let_def d_def)
qed

lemma dbl_mono:
  assumes "x \<le> y"
  shows "dbl x \<le> dbl y"
proof (cases "bitlen x = bitlen y")
  case True
  then show ?thesis using assms rne_mono [OF assms] by (simp add: dbl_def Let_def)
next
  case False
  then have k: "bitlen x < bitlen y" using bitlen_mono [OF assms] by simp
  then have y: "0 < y" by (cases y) auto
  have "dbl x \<le> 2 ^ bitlen x" by (rule dbl_upper)
  also have "(2::nat) ^ bitlen x \<le> 2 ^ (bitlen y - 1)" using k by (intro power_increasing) auto
  also have "\<dots> \<le> dbl y" using y by (rule dbl_lower)
  finally show ?thesis .
qed

lemma dbl_error:
  assumes "x < 2 ^ 62"
  shows "dbl x \<le> x + 256" "x \<le> dbl x + 256"
proof -
  define d where "d = (2::nat) ^ (bitlen x - 53)"
  have "bitlen x - 53 \<le> 9" using bitlen_le [OF assms] by simp
  then have "d \<le> 2 ^ 9" unfolding d_def by (intro power_increasing) auto
  then have d: "0 < d" "d \<le> 512" by (simp_all add: d_def)
  have x: "x = x div d * d + x mod d" by simp
  have r: "x mod d < d" using d(1) by simp
  have "rne x d * d \<le> x + 256 \<and> x \<le> rne x d * d + 256"
  proof (cases "2 * (x mod d) < d \<or> (2 * (x mod d) = d \<and> even (x div d))")
    case True
    then have "rne x d * d = x div d * d" by (simp add: rne_def)
    then show ?thesis using True d(2) x by linarith
  next
    case False
    then have "rne x d * d = x div d * d + d" "d \<le> 2 * (x mod d)" by (auto simp: rne_def)
    then show ?thesis using d(2) x r by linarith
  qed
  then show "dbl x \<le> x + 256" "x \<le> dbl x + 256" by (auto simp: dbl_def Let_def d_def)
qed

lemma dbl_seconds:
  assumes "s < 2 ^ 32"
  shows "dbl (s * 10 ^ 9) = s * 10 ^ 9"
proof (cases "bitlen (s * 10 ^ 9) \<le> 53")
  case False
  define d where "d = (2::nat) ^ (bitlen (s * 10 ^ 9) - 53)"
  have "s * 10 ^ 9 < 2 ^ 62" using assms by simp
  then have "bitlen (s * 10 ^ 9) - 53 \<le> 9" using bitlen_le [of "s * 10 ^ 9" 62] by simp
  then have "d dvd 2 ^ 9" unfolding d_def by (rule le_imp_power_dvd)
  moreover have "(2::nat) ^ 9 dvd s * 10 ^ 9" by (rule dvd_mult) simp
  ultimately have "d dvd s * 10 ^ 9" by (rule dvd_trans)
  then have "rne (s * 10 ^ 9) d * d = s * 10 ^ 9" by (auto simp: rne_def d_def)
  then show ?thesis using False by (simp only: dbl_def Let_def d_def if_False)
qed (simp add: dbl_def)

lemma TimespecNs_dbl:
  assumes "timespec_ok t" "0 \<le> tv_sec t" "tv_sec t < 2 ^ 32"
  shows "TimespecNs t = int (dbl (nat (total_ns t)))" "nat (total_ns t) < 2 ^ 62"
proof -
  have "nat (tv_sec t) < 2 ^ 32" using assms by simp
  note s = dbl_seconds [OF this]
  have n: "nat (total_ns t) = nat (tv_sec t) * 10 ^ 9 + nat (tv_nsec t)"
    using assms by (simp add: total_ns_def timespec_ok_def nat_add_distrib nat_mult_distrib)
  then show "TimespecNs t = int (dbl (nat (total_ns t)))" by (simp only: TimespecNs_def s)
  have "total_ns t < 2 ^ 62" using assms by (simp add: total_ns_def timespec_ok_def)
  then show "nat (total_ns t) < 2 ^ 62" by simp
qed

text \<open>
  For timestamps until the year 2106, \<^verbatim>\<open>SdbTimeoutExpired\<close>, which compares nanosecond counts
  rounded to doubles, never reports a timeout early, and reports it at the latest 512
  nanoseconds late.
\<close>

theorem timeout_expired:
  assumes "timespec_ok Timeout" "0 \<le> tv_sec Timeout" "tv_sec Timeout < 2 ^ 32"
    and "timespec_ok Now" "0 \<le> tv_sec Now" "tv_sec Now < 2 ^ 32"
  shows "(total_ns Now \<le> total_ns Timeout \<longrightarrow> \<not> SdbTimeoutExpired Timeout Now) \<and>
    (total_ns Timeout + 512 < total_ns Now \<longrightarrow> SdbTimeoutExpired Timeout Now)"
proof -
  note t = TimespecNs_dbl [OF assms(1-3)] and n = TimespecNs_dbl [OF assms(4-6)]
  have pos: "0 \<le> total_ns Timeout" "0 \<le> total_ns Now"
    using assms by (simp_all add: total_ns_def timespec_ok_def)
  show ?thesis
  proof (intro conjI impI)
    assume "total_ns Now \<le> total_ns Timeout"
    then have "dbl (nat (total_ns Now)) \<le> dbl (nat (total_ns Timeout))" by (intro dbl_mono nat_mono)
    then show "\<not> SdbTimeoutExpired Timeout Now" by (simp add: SdbTimeoutExpired_def t n)
  next
    assume "total_ns Timeout + 512 < total_ns Now"
    then have "nat (total_ns Timeout) + 512 < nat (total_ns Now)" using pos by linarith
    then have "dbl (nat (total_ns Timeout)) < dbl (nat (total_ns Now))"
      using dbl_error(1) [OF t(2)] dbl_error(2) [OF n(2)] by linarith
    then show "SdbTimeoutExpired Timeout Now" by (simp add: SdbTimeoutExpired_def t n)
  qed
qed

theorem timeout_expired_witness:
  "SdbTimeoutExpired \<lparr>tv_sec = 1700000000, tv_nsec = 0\<rparr> \<lparr>tv_sec = 1700000000, tv_nsec = 1000\<rparr>"
  using timeout_expired [of "\<lparr>tv_sec = 1700000000, tv_nsec = 0\<rparr>" "\<lparr>tv_sec = 1700000000, tv_nsec = 1000\<rparr>"]
  by (simp add: timespec_ok_def total_ns_def)

end
