(* ===== verification/Pg_Encode.thy ===== *)
theory Pg_Encode
  imports Sdb_Scratch Sdb_Time Sdb_Misc
begin

text \<open>
  What \<^verbatim>\<open>src/DatabaseSystems/Postgres.c\<close> sends to the database: timestamps, values in network
  byte order, rows in the binary COPY format, and the transaction around them.
\<close>

section \<open>Types of the database\<close>

text \<open>The object identifiers the insertion handles; any other one is passed over by its \<^verbatim>\<open>switch\<close>.\<close>

type_synonym pg_oid = u32

definition PG_INT2 :: pg_oid where "PG_INT2 = 21"
definition PG_INT4 :: pg_oid where "PG_INT4 = 23"
definition PG_INT8 :: pg_oid where "PG_INT8 = 20"
definition PG_FLOAT4 :: pg_oid where "PG_FLOAT4 = 700"
definition PG_FLOAT8 :: pg_oid where "PG_FLOAT8 = 701"
definition PG_TIMESTAMP :: pg_oid where "PG_TIMESTAMP = 1114"

lemmas pg_oids = PG_INT2_def PG_INT4_def PG_INT8_def PG_FLOAT4_def PG_FLOAT8_def PG_TIMESTAMP_def

record pg_col_metadata =
  TypeOid :: pg_oid
  TypeLength :: int
  Offset :: int
  TypeModifier :: int
  ColumnName :: string
  IsPrimaryKey :: bool
  IsAutoIncrement :: bool

record pg_table_info =
  ColCount :: i16
  ColCountNoAutoIncrements :: i16
  RowSize :: u64
  TableName :: string
  CopyCommand :: string
  ColMetadata :: "pg_col_metadata list"

section \<open>Timestamps\<close>

text \<open>Microseconds since 2000-01-01, from times since 1970-01-01, in 64-bit arithmetic.\<close>

definition POSTGRES_EPOCH_JDATE :: i64 where "POSTGRES_EPOCH_JDATE = 2451545"
definition UNIX_EPOCH_JDATE :: i64 where "UNIX_EPOCH_JDATE = 2440588"
definition USECS_PER_DAY :: i64 where "USECS_PER_DAY = 86400000000"
definition USECS_PER_SECOND :: i64 where "USECS_PER_SECOND = 1000000"
definition NSECS_PER_USEC :: int where "NSECS_PER_USEC = 1000"

definition UnixToPgTimestamp :: "i64 \<Rightarrow> i64" where
  "UnixToPgTimestamp UnixTime =
     UnixTime * USECS_PER_SECOND + (UNIX_EPOCH_JDATE - POSTGRES_EPOCH_JDATE) * USECS_PER_DAY"

definition TimevalToPgTimestamp :: "timeval \<Rightarrow> i64" where
  "TimevalToPgTimestamp Tv =
     of_int (tvl_sec Tv) * USECS_PER_SECOND + of_int (tvl_usec Tv) +
     (UNIX_EPOCH_JDATE - POSTGRES_EPOCH_JDATE) * USECS_PER_DAY"

text \<open>The division of the nanoseconds truncates towards zero; they are not negative.\<close>

definition TimespecToPgTimestamp :: "timespec \<Rightarrow> i64" where
  "TimespecToPgTimestamp Ts =
     of_int (tv_sec Ts) * USECS_PER_SECOND + of_int (tv_nsec Ts div NSECS_PER_USEC) +
     (UNIX_EPOCH_JDATE - POSTGRES_EPOCH_JDATE) * USECS_PER_DAY"

section \<open>Values in network byte order\<close>

text \<open>
  The host is little-endian: a value copied from memory is \<open>of_le\<close> of its bytes, \<open>htobe\<close> swaps
  its bytes, and copying it out writes \<open>le_bytes\<close>. The functions return the bytes written.
\<close>

definition htobe :: "nat \<Rightarrow> nat \<Rightarrow> nat" where
  "htobe k v = of_le (rev (le_bytes k v))"

definition Write2 :: "u8 list \<Rightarrow> u8 list" where
  "Write2 From = (let Val = of_le (take 2 From); Val = htobe 2 Val in le_bytes 2 Val)"

definition Write4 :: "u8 list \<Rightarrow> u8 list" where
  "Write4 From = (let Val = of_le (take 4 From); Val = htobe 4 Val in le_bytes 4 Val)"

definition Write8 :: "u8 list \<Rightarrow> u8 list" where
  "Write8 From = (let Val = of_le (take 8 From); Val = htobe 8 Val in le_bytes 8 Val)"

definition WriteTimestamp :: "u8 list \<Rightarrow> u8 list" where
  "WriteTimestamp From =
     (let UTime = of_nat (of_le (take 8 From)) :: i64;
          Val = UnixToPgTimestamp UTime;
          Val = htobe 8 (unat Val)
      in le_bytes 8 Val)"

section \<open>Rows\<close>

text \<open>A field: its length in four bytes and its data, none for a type that is not handled.\<close>

definition PgConvertField :: "u8 list \<Rightarrow> pg_col_metadata \<Rightarrow> u8 list" where
  "PgConvertField CurrRow ColMd =
     (if IsAutoIncrement ColMd then []
      else
        (let ColData = drop (nat (Offset ColMd)) CurrRow
         in le_bytes 4 (htobe 4 (unat (of_int (TypeLength ColMd) :: u32))) @
            (if TypeOid ColMd = PG_INT8 \<or> TypeOid ColMd = PG_FLOAT8 then Write8 ColData
             else if TypeOid ColMd = PG_INT4 \<or> TypeOid ColMd = PG_FLOAT4 then Write4 ColData
             else if TypeOid ColMd = PG_INT2 then Write2 ColData
             else if TypeOid ColMd = PG_TIMESTAMP then WriteTimestamp ColData
             else [])))"

definition PgConvertRow :: "pg_table_info \<Rightarrow> u8 list \<Rightarrow> u8 list" where
  "PgConvertRow Ti CurrRow =
     le_bytes 2 (htobe 2 (unat (ColCountNoAutoIncrements Ti))) @
     concat (map (PgConvertField CurrRow) (take (unat (scast (ColCount Ti) :: u64)) (ColMetadata Ti)))"

text \<open>The loop over the items, row after row at \<^verbatim>\<open>ConvOffset\<close>.\<close>

definition PgConvert :: "pg_table_info \<Rightarrow> u8 list \<Rightarrow> nat \<Rightarrow> u8 list" where
  "PgConvert Ti Data ItemCount =
     concat (map (\<lambda>r. PgConvertRow Ti (drop (r * unat (RowSize Ti)) Data)) [0..<ItemCount])"

text \<open>The signature \<^verbatim>\<open>PGCOPY\<close>, newline, 255, return, newline, NUL, and two zero words.\<close>

definition CopyHeader :: "u8 list" where
  "CopyHeader = [80, 71, 67, 79, 80, 89, 10, 255, 13, 10, 0] @ le_bytes 4 (htobe 4 0) @ le_bytes 4 (htobe 4 0)"

section \<open>The transaction\<close>

text \<open>
  What the server answers, in order, and what is sent to it. \<open>NtwrkConvBufSize\<close> is the size the
  code computes for its buffer.
\<close>

record pg_answers =
  begin_ok :: bool
  copy_ok :: bool
  header_ok :: bool
  data_ok :: bool
  end_ok :: bool
  result_ok :: bool
  finish_ok :: bool

datatype pg_cmd = Exec string | PutData "u8 list" | PutEnd bool

definition NtwrkConvBufSize :: "pg_table_info \<Rightarrow> u64 \<Rightarrow> u64" where
  "NtwrkConvBufSize Ti ItemCount =
     (let PgHeaderSize = 2 + ItemCount * 4 in PgHeaderSize + ItemCount * RowSize Ti)"

text \<open>From the label \<^verbatim>\<open>cleanup\<close> on.\<close>

definition PgInsert_end :: "pg_answers \<Rightarrow> int \<Rightarrow> pg_cmd list \<Rightarrow> int \<times> pg_cmd list" where
  "PgInsert_end E Ret cs =
     (let cs = cs @ [PutEnd (Ret = 0)];
          Ret = (if \<not> end_ok E then - sdbe_code SDBE_PG_ERR else Ret);
          Ret = (if \<not> result_ok E then - sdbe_code SDBE_PG_ERR else Ret);
          cs = cs @ [Exec (if Ret = 0 then ''COMMIT'' else ''ROLLBACK'')];
          Ret = (if \<not> finish_ok E then - sdbe_code SDBE_PG_ERR else Ret)
      in (Ret, cs))"

text \<open>
  The scratch arena is the thread's first; the rows are converted in place into the memory pushed
  on it. The result is the return value, what was sent and the memory.
\<close>

definition PgInsertData ::
  "pg_answers \<Rightarrow> pg_table_info \<Rightarrow> u8 list \<Rightarrow> u64 \<Rightarrow> mem \<Rightarrow> sdb_arena \<Rightarrow> int \<times> pg_cmd list \<times> mem" where
  "PgInsertData E Ti Data ItemCount m Scratch =
     (let cs = [Exec ''BEGIN'']
      in if \<not> begin_ok E then (- sdbe_code SDBE_PG_ERR, cs, m)
         else
           (let cs = cs @ [Exec (CopyCommand Ti)]
            in if \<not> copy_ok E then (- sdbe_code SDBE_PG_ERR, cs @ [Exec ''ROLLBACK''], m)
               else
                 (let cs = cs @ [PutData CopyHeader]
                  in if \<not> header_ok E then (let (r, cs) = PgInsert_end E (- sdbe_code SDBE_PG_ERR) cs in (r, cs, m))
                     else
                       (let (NtwrkConvBuf, Scratch', m) = SdbArenaPushZero m Scratch (NtwrkConvBufSize Ti ItemCount)
                        in if NtwrkConvBuf = NULL then (let (r, cs) = PgInsert_end E 0 cs in (r, cs, m))
                           else
                             (let rows = PgConvert Ti Data (unat ItemCount);
                                  m = wr m NtwrkConvBuf rows;
                                  cs = cs @ [PutData rows];
                                  (r, cs) = PgInsert_end E (if data_ok E then 0 else - sdbe_code SDBE_PG_ERR) cs
                              in (r, cs, m))))))"

section \<open>The catalog query's answer\<close>

text \<open>
  A row of the metadata query: name, type, length, modifier and two flags, as text. The loop
  numbers the offsets of the columns that come with the data and adds up their lengths; the
  row size it adds to is the caller's.
\<close>

type_synonym catalog_row = "string \<times> int \<times> int \<times> int \<times> string \<times> string"

fun metadata_loop :: "catalog_row list \<Rightarrow> int \<Rightarrow> pg_col_metadata list \<times> u64 \<times> i16" where
  "metadata_loop [] Off = ([], 0, 0)"
| "metadata_loop ((name, oid, len, tymod, pk, auto) # rows) Off =
     (let md = \<lparr>TypeOid = of_int oid, TypeLength = len, Offset = Off, TypeModifier = tymod, ColumnName = name,
                IsPrimaryKey = (pk \<noteq> [] \<and> hd pk = CHR ''t''), IsAutoIncrement = (auto \<noteq> [] \<and> hd auto = CHR ''t'')\<rparr>
      in if IsAutoIncrement md
         then (let (mds, size, cnt) = metadata_loop rows Off in (md\<lparr>Offset := - 1\<rparr> # mds, size, cnt))
         else (let (mds, size, cnt) = metadata_loop rows (Off + len) in (md # mds, of_int len + size, cnt + 1)))"

text \<open>
  The result: metadata (\<open>None\<close> for NULL), column counts and row size. \<open>ColCount0\<close>, \<open>ColCountNoAuto0\<close>
  and \<open>RowSize0\<close> are what the caller's fields hold before; \<open>room\<close> whether the arena has space for the array.
\<close>

definition GetTableMetadata ::
  "catalog_row list option \<Rightarrow> bool \<Rightarrow> i16 \<Rightarrow> i16 \<Rightarrow> u64 \<Rightarrow>
     pg_col_metadata list option \<times> i16 \<times> i16 \<times> u64" where
  "GetTableMetadata result room ColCount0 ColCountNoAuto0 RowSize0 =
     (case result of
        None \<Rightarrow> (None, ColCount0, ColCountNoAuto0, RowSize0)
      | Some rows \<Rightarrow>
          (let RowCount = of_nat (length rows)
           in if \<not> room then (None, RowCount, ColCountNoAuto0, RowSize0)
              else (let (mds, size, cnt) = metadata_loop rows 0
                    in (Some mds, RowCount, cnt, RowSize0 + size))))"

section \<open>Timestamps are what they should be\<close>

lemma sint_of_int_fits:
  assumes "- (2 ^ 63) \<le> k" "k < 2 ^ 63"
  shows "sint (of_int k :: i64) = k"
proof -
  have "signed_take_bit 63 k = k" using assms by (intro signed_take_bit_int_eq_self) simp_all
  then show ?thesis by (simp add: signed_of_int)
qed

lemma epoch_shift: "(UNIX_EPOCH_JDATE - POSTGRES_EPOCH_JDATE) * USECS_PER_DAY = (of_int (- 946684800 * 10 ^ 6) :: i64)"
  by (simp add: UNIX_EPOCH_JDATE_def POSTGRES_EPOCH_JDATE_def USECS_PER_DAY_def)

text \<open>
  The three conversions give the microseconds since 2000-01-01, which is 946684800 seconds
  after 1970-01-01, for all times within 285000 years of it, without overflow; they agree with
  each other on whole seconds.
\<close>

theorem pg_timestamps:
  assumes "\<bar>t\<bar> \<le> 9 * 10 ^ 12" "0 \<le> us" "us < 10 ^ 6" "0 \<le> ns" "ns < 10 ^ 9"
  shows "sint (UnixToPgTimestamp (of_int t)) = (t - 946684800) * 10 ^ 6 \<and>
    sint (TimevalToPgTimestamp \<lparr>tvl_sec = t, tvl_usec = us\<rparr>) = (t - 946684800) * 10 ^ 6 + us \<and>
    sint (TimespecToPgTimestamp \<lparr>tv_sec = t, tv_nsec = ns\<rparr>) = (t - 946684800) * 10 ^ 6 + ns div 1000"
proof -
  have c: "of_int t * USECS_PER_SECOND + of_int d + (UNIX_EPOCH_JDATE - POSTGRES_EPOCH_JDATE) * USECS_PER_DAY =
      (of_int ((t - 946684800) * 10 ^ 6 + d) :: i64)" for d
    unfolding epoch_shift by (simp add: USECS_PER_SECOND_def algebra_simps)
  have fits: "sint (of_int ((t - 946684800) * 10 ^ 6 + d) :: i64) = (t - 946684800) * 10 ^ 6 + d"
    if "0 \<le> d" "d < 10 ^ 6" for d
    using that assms(1) by (intro sint_of_int_fits) (simp_all add: abs_le_iff)
  have ns: "ns div 1000 < 10 ^ 6" "0 \<le> ns div 1000" using assms(4,5) by simp_all
  have u: "UnixToPgTimestamp (of_int t) = of_int ((t - 946684800) * 10 ^ 6 + 0)"
    using c [of 0] by (simp only: UnixToPgTimestamp_def of_int_0 add_0_right)
  have v: "TimevalToPgTimestamp \<lparr>tvl_sec = t, tvl_usec = us\<rparr> = of_int ((t - 946684800) * 10 ^ 6 + us)"
    by (simp only: TimevalToPgTimestamp_def timeval.select_convs c)
  have w: "TimespecToPgTimestamp \<lparr>tv_sec = t, tv_nsec = ns\<rparr> = of_int ((t - 946684800) * 10 ^ 6 + ns div 1000)"
    by (simp only: TimespecToPgTimestamp_def timespec.select_convs NSECS_PER_USEC_def c)
  have "sint (UnixToPgTimestamp (of_int t)) = (t - 946684800) * 10 ^ 6 + 0" unfolding u by (rule fits) simp_all
  moreover have "sint (TimevalToPgTimestamp \<lparr>tvl_sec = t, tvl_usec = us\<rparr>) = (t - 946684800) * 10 ^ 6 + us"
    unfolding v using assms(2,3) by (rule fits)
  moreover have "sint (TimespecToPgTimestamp \<lparr>tv_sec = t, tv_nsec = ns\<rparr>) = (t - 946684800) * 10 ^ 6 + ns div 1000"
    unfolding w using ns(2,1) by (rule fits)
  ultimately show ?thesis by (simp only: add_0_right simp_thms)
qed

theorem pg_timestamps_witness:
  "sint (UnixToPgTimestamp 946684801) = 1000000"
  using pg_timestamps [of 946684801 0 0] by simp

section \<open>Rows read back\<close>

lemma le_bytes_htobe: "le_bytes k (htobe k v) = rev (le_bytes k v)"
  unfolding htobe_def by (metis le_bytes_of_le length_le_bytes length_rev)

text \<open>The receiving side of the format: big-endian numbers, fields and rows.\<close>

definition be_val :: "u8 list \<Rightarrow> nat" where
  "be_val bs = of_le (rev bs)"

fun decode_fields :: "nat \<Rightarrow> u8 list \<Rightarrow> (nat \<times> nat) list \<times> u8 list" where
  "decode_fields 0 bs = ([], bs)"
| "decode_fields (Suc k) bs =
     (let n = be_val (take 4 bs);
          v = be_val (take n (drop 4 bs));
          (fs, rest) = decode_fields k (drop (4 + n) bs)
      in ((n, v) # fs, rest))"

fun decode_rows :: "nat \<Rightarrow> u8 list \<Rightarrow> (nat \<times> nat) list list \<times> u8 list" where
  "decode_rows 0 bs = ([], bs)"
| "decode_rows (Suc k) bs =
     (let (fs, rest) = decode_fields (be_val (take 2 bs)) (drop 2 bs);
          (rs, rest) = decode_rows k rest
      in (fs # rs, rest))"

text \<open>Sizes of the handled types, and what a column of a row means.\<close>

definition oid_size :: "pg_oid \<Rightarrow> nat option" where
  "oid_size oid =
     (if oid = PG_INT8 \<or> oid = PG_FLOAT8 \<or> oid = PG_TIMESTAMP then Some 8
      else if oid = PG_INT4 \<or> oid = PG_FLOAT4 then Some 4
      else if oid = PG_INT2 then Some 2 else None)"

definition col_ok :: "nat \<Rightarrow> pg_col_metadata \<Rightarrow> bool" where
  "col_ok rsize c \<longleftrightarrow> 0 \<le> Offset c \<and> 0 < TypeLength c \<and> oid_size (TypeOid c) = Some (nat (TypeLength c)) \<and>
     nat (Offset c) + nat (TypeLength c) \<le> rsize"

definition data_cols :: "pg_table_info \<Rightarrow> pg_col_metadata list" where
  "data_cols Ti = filter (\<lambda>c. \<not> IsAutoIncrement c) (ColMetadata Ti)"

definition table_ok :: "pg_table_info \<Rightarrow> bool" where
  "table_ok Ti \<longleftrightarrow> unat (scast (ColCount Ti) :: u64) = length (ColMetadata Ti) \<and>
     unat (ColCountNoAutoIncrements Ti) = length (data_cols Ti) \<and>
     (\<forall>c\<in>set (data_cols Ti). col_ok (unat (RowSize Ti)) c) \<and>
     unat (RowSize Ti) = sum_list (map (\<lambda>c. nat (TypeLength c)) (data_cols Ti))"

definition col_value :: "u8 list \<Rightarrow> pg_col_metadata \<Rightarrow> nat" where
  "col_value row c =
     (let v = of_le (take (nat (TypeLength c)) (drop (nat (Offset c)) row))
      in if TypeOid c = PG_TIMESTAMP then unat (UnixToPgTimestamp (of_nat v)) else v)"

lemma of_le_take_less: "of_le (take k bs) < 256 ^ k"
proof -
  have "of_le (take k bs) < 256 ^ length (take k bs)" by (rule of_le_less)
  also have "\<dots> \<le> 256 ^ k" by (intro power_increasing) auto
  finally show ?thesis .
qed

text \<open>A converted field is its length and its value in network byte order.\<close>

lemma PgConvertField_eq:
  assumes "col_ok rsize c" "\<not> IsAutoIncrement c"
  shows "PgConvertField row c = rev (le_bytes 4 (nat (TypeLength c))) @ rev (le_bytes (nat (TypeLength c)) (col_value row c))"
    and "col_value row c < 256 ^ nat (TypeLength c)"
    and "nat (TypeLength c) < 256"
proof -
  define k where "k = nat (TypeLength c)"
  have k: "oid_size (TypeOid c) = Some k" "TypeLength c = int k" "k \<in> {2, 4, 8}"
    using assms(1) by (auto simp: col_ok_def oid_size_def k_def split: if_splits)
  have len: "unat (of_int (int k) :: u32) = k" using k(3) by auto
  have "col_value row c < 256 ^ k"
    using of_le_take_less [of k "drop (nat (Offset c)) row"] k unat_u64_less [of "UnixToPgTimestamp x" for x]
    by (auto simp: col_value_def Let_def oid_size_def pg_oids split: if_splits)
  then show "col_value row c < 256 ^ nat (TypeLength c)" using k(2) by simp
  show "nat (TypeLength c) < 256" using k by auto
  show "PgConvertField row c = rev (le_bytes 4 (nat (TypeLength c))) @ rev (le_bytes (nat (TypeLength c)) (col_value row c))"
    using k len assms(2)
    by (auto simp: PgConvertField_def Let_def le_bytes_htobe Write2_def Write4_def Write8_def WriteTimestamp_def
        col_value_def oid_size_def pg_oids split: if_splits)
qed

lemma be_val_rev_le_bytes: "v < 256 ^ k \<Longrightarrow> be_val (rev (le_bytes k v)) = v"
  by (simp add: be_val_def)

lemma decode_fields_step:
  assumes "n < 256" "v < 256 ^ n"
  shows "decode_fields (Suc k) ((rev (le_bytes 4 n) @ rev (le_bytes n v)) @ rest) =
    (let (fs, r) = decode_fields k rest in ((n, v) # fs, r))"
proof -
  let ?bs = "(rev (le_bytes 4 n) @ rev (le_bytes n v)) @ rest"
  have "n < 256 ^ 4" using assms(1) by simp
  then have "be_val (take 4 ?bs) = n" using be_val_rev_le_bytes [of n 4] by simp
  moreover have "take n (drop 4 ?bs) = rev (le_bytes n v)" "drop (4 + n) ?bs = rest" by simp_all
  ultimately show ?thesis using be_val_rev_le_bytes [OF assms(2)] by (simp only: decode_fields.simps Let_def)
qed

lemma decode_fields_row:
  assumes "\<forall>c\<in>set (filter (\<lambda>c. \<not> IsAutoIncrement c) cs). col_ok rsize c"
  shows "decode_fields (length (filter (\<lambda>c. \<not> IsAutoIncrement c) cs)) (concat (map (PgConvertField row) cs) @ rest) =
    (map (\<lambda>c. (nat (TypeLength c), col_value row c)) (filter (\<lambda>c. \<not> IsAutoIncrement c) cs), rest)"
  using assms
proof (induction cs)
  case (Cons c cs)
  show ?case
  proof (cases "IsAutoIncrement c")
    case True
    then show ?thesis using Cons by (simp add: PgConvertField_def)
  next
    case False
    then have "col_ok rsize c" using Cons.prems by simp
    note ok = this
    note f = PgConvertField_eq(1) [OF ok False, of row] PgConvertField_eq(2) [OF ok False, of row] PgConvertField_eq(3) [OF ok False]
    have ih: "decode_fields (length (filter (\<lambda>c. \<not> IsAutoIncrement c) cs)) (concat (map (PgConvertField row) cs) @ rest) =
        (map (\<lambda>c. (nat (TypeLength c), col_value row c)) (filter (\<lambda>c. \<not> IsAutoIncrement c) cs), rest)"
      using Cons False by simp
    have "concat (map (PgConvertField row) (c # cs)) @ rest =
        (rev (le_bytes 4 (nat (TypeLength c))) @ rev (le_bytes (nat (TypeLength c)) (col_value row c))) @
        (concat (map (PgConvertField row) cs) @ rest)"
      using f(1) by simp
    moreover have "length (filter (\<lambda>c. \<not> IsAutoIncrement c) (c # cs)) =
        Suc (length (filter (\<lambda>c. \<not> IsAutoIncrement c) cs))" using False by simp
    ultimately show ?thesis using decode_fields_step [OF f(3,2)] ih False by (simp del: decode_fields.simps)
  qed
qed simp

lemma decode_row:
  assumes "table_ok Ti"
  shows "decode_rows (Suc k) (PgConvertRow Ti row @ rest) =
    (let (rs, r) = decode_rows k rest in (map (\<lambda>c. (nat (TypeLength c), col_value row c)) (data_cols Ti) # rs, r))"
proof -
  let ?n = "unat (ColCountNoAutoIncrements Ti)"
  have n: "?n < 256 ^ 2" using unat_u16_less [of "ColCountNoAutoIncrements Ti"] by simp
  have row: "PgConvertRow Ti row @ rest =
      rev (le_bytes 2 ?n) @ (concat (map (PgConvertField row) (ColMetadata Ti)) @ rest)"
    using assms by (simp add: PgConvertRow_def le_bytes_htobe table_ok_def)
  have cnt: "be_val (take 2 (rev (le_bytes 2 ?n) @ x)) = length (data_cols Ti)" for x
    using be_val_rev_le_bytes [OF n] assms by (simp add: table_ok_def)
  have "\<forall>c\<in>set (filter (\<lambda>c. \<not> IsAutoIncrement c) (ColMetadata Ti)). col_ok (unat (RowSize Ti)) c"
    using assms unfolding table_ok_def data_cols_def by blast
  note f = decode_fields_row [OF this, of row rest, folded data_cols_def]
  have "drop 2 (rev (le_bytes 2 ?n) @ x) = x" for x by simp
  then show ?thesis unfolding row decode_rows.simps cnt using f by simp
qed

lemma decode_PgConvert:
  assumes "table_ok Ti"
  shows "decode_rows ItemCount (PgConvert Ti Data ItemCount) =
    (map (\<lambda>r. map (\<lambda>c. (nat (TypeLength c), col_value (drop (r * unat (RowSize Ti)) Data) c)) (data_cols Ti))
       [0..<ItemCount], [])"
proof -
  have "decode_rows (length rows) (concat (map (PgConvertRow Ti) rows) @ rest) =
      (map (\<lambda>row. map (\<lambda>c. (nat (TypeLength c), col_value row c)) (data_cols Ti)) rows, rest)" for rows rest
    by (induction rows) (simp_all add: decode_row [OF assms] del: decode_rows.simps(2))
  from this [of "map (\<lambda>r. drop (r * unat (RowSize Ti)) Data) [0..<ItemCount]" "[]"]
  show ?thesis by (simp add: PgConvert_def comp_def)
qed

text \<open>
  C5. What the server reads is what the sensors sent: for a table whose columns are of the handled
  types, decoding the bytes \<^verbatim>\<open>PgInsertData\<close> builds gives, row by row and field by field, each type's
  length and the value at the column's offset in the packet (for a timestamp, its conversion),
  and nothing is left over.
\<close>

theorem pg_copy_roundtrip:
  assumes "table_ok Ti"
  shows "decode_rows ItemCount (PgConvert Ti Data ItemCount) =
    (map (\<lambda>r. map (\<lambda>c. (nat (TypeLength c), col_value (drop (r * unat (RowSize Ti)) Data) c)) (data_cols Ti))
       [0..<ItemCount], [])"
  using assms by (rule decode_PgConvert)

text \<open>A table of two columns and the automatic key, as the shaft power table begins.\<close>

definition example_table :: pg_table_info where
  "example_table = \<lparr>ColCount = 3, ColCountNoAutoIncrements = 2, RowSize = 16, TableName = ''t'', CopyCommand = ''COPY'',
     ColMetadata =
       [\<lparr>TypeOid = 23, TypeLength = 4, Offset = - 1, TypeModifier = - 1, ColumnName = ''id'', IsPrimaryKey = True, IsAutoIncrement = True\<rparr>,
        \<lparr>TypeOid = 20, TypeLength = 8, Offset = 0, TypeModifier = - 1, ColumnName = ''packet_id'', IsPrimaryKey = False, IsAutoIncrement = False\<rparr>,
        \<lparr>TypeOid = 1114, TypeLength = 8, Offset = 8, TypeModifier = - 1, ColumnName = ''time'', IsPrimaryKey = False, IsAutoIncrement = False\<rparr>]\<rparr>"

lemma example_table_ok: "table_ok example_table"
  by (simp add: table_ok_def example_table_def data_cols_def col_ok_def oid_size_def pg_oids)

theorem pg_copy_roundtrip_witness:
  "fst (decode_rows 1 (PgConvert example_table ([5, 0, 0, 0, 0, 0, 0, 0] @ le_bytes 8 946684801) 1)) = [[(8, 5), (8, 1000000)]]"
proof -
  have "of_le (take 8 (le_bytes 8 946684801)) = 946684801" by simp
  then show ?thesis
    using pg_copy_roundtrip [OF example_table_ok, of 1 "[5, 0, 0, 0, 0, 0, 0, 0] @ le_bytes 8 946684801"]
    by (simp add: example_table_def data_cols_def col_value_def pg_oids UnixToPgTimestamp_def
        UNIX_EPOCH_JDATE_def POSTGRES_EPOCH_JDATE_def USECS_PER_DAY_def USECS_PER_SECOND_def del: decode_rows.simps)
qed

section \<open>The conversion buffer\<close>

lemma length_PgConvertField:
  assumes "col_ok rsize c" "\<not> IsAutoIncrement c"
  shows "length (PgConvertField row c) = 4 + nat (TypeLength c)"
  by (simp add: PgConvertField_eq(1) [OF assms])

lemma length_PgConvertField_auto: "IsAutoIncrement c \<Longrightarrow> PgConvertField row c = []"
  by (simp add: PgConvertField_def)

lemma length_PgConvertFields:
  assumes "\<forall>c\<in>set (filter (\<lambda>c. \<not> IsAutoIncrement c) cs). col_ok rsize c"
  shows "length (concat (map (PgConvertField row) cs)) =
    4 * length (filter (\<lambda>c. \<not> IsAutoIncrement c) cs) +
    sum_list (map (\<lambda>c. nat (TypeLength c)) (filter (\<lambda>c. \<not> IsAutoIncrement c) cs))"
  using assms
proof (induction cs)
  case (Cons c cs)
  then show ?case
    by (cases "IsAutoIncrement c")
      (simp_all add: length_PgConvertField_auto length_PgConvertField [of rsize c] del: length_concat)
qed simp

lemma length_PgConvertRow:
  assumes "table_ok Ti"
  shows "length (PgConvertRow Ti row) = 2 + 4 * length (data_cols Ti) + unat (RowSize Ti)"
proof -
  have "\<forall>c\<in>set (filter (\<lambda>c. \<not> IsAutoIncrement c) (ColMetadata Ti)). col_ok (unat (RowSize Ti)) c"
    using assms unfolding table_ok_def data_cols_def by blast
  from length_PgConvertFields [OF this, of row]
  have "length (concat (map (PgConvertField row) (ColMetadata Ti))) =
      4 * length (data_cols Ti) + sum_list (map (\<lambda>c. nat (TypeLength c)) (data_cols Ti))"
    by (simp only: data_cols_def)
  moreover have "sum_list (map (\<lambda>c. nat (TypeLength c)) (data_cols Ti)) = unat (RowSize Ti)"
    "take (unat (scast (ColCount Ti) :: u64)) (ColMetadata Ti) = ColMetadata Ti"
    using assms by (simp_all only: table_ok_def take_all order_refl)
  ultimately show ?thesis by (simp only: PgConvertRow_def length_append length_le_bytes)
qed

lemma length_PgConvert:
  assumes "table_ok Ti"
  shows "length (PgConvert Ti Data n) = n * (2 + 4 * length (data_cols Ti) + unat (RowSize Ti))"
proof -
  have "length (concat (map (PgConvertRow Ti) rows)) = length rows * (2 + 4 * length (data_cols Ti) + unat (RowSize Ti))" for rows
    by (induction rows) (simp_all only: list.map concat.simps length_append length_PgConvertRow [OF assms] length_Cons list.size(3) mult_Suc mult_0 add_0)
  from this [of "map (\<lambda>r. drop (r * unat (RowSize Ti)) Data) [0..<n]"]
  show ?thesis by (simp add: PgConvert_def comp_def)
qed

lemma NtwrkConvBufSize_eq:
  assumes "2 + n * (4 + unat (RowSize Ti)) < 2 ^ 64"
  shows "unat (NtwrkConvBufSize Ti (of_nat n)) = 2 + n * (4 + unat (RowSize Ti))"
proof -
  have "NtwrkConvBufSize Ti (of_nat n) = of_nat (2 + n * (4 + unat (RowSize Ti)))"
    by (simp add: NtwrkConvBufSize_def Let_def algebra_simps)
  moreover have "2 + n * (4 + unat (RowSize Ti)) < 2 ^ LENGTH(64)" using assms by simp
  ultimately show ?thesis by (simp only: unat_of_nat_fits)
qed

text \<open>
  C40. The network conversion buffer is too small: it is sized for one field count and one length
  per row, but every row carries a field count and every field a length. For a table of handled
  types the rows fit only when a single row of a single column is sent; otherwise the conversion
  writes beyond the memory pushed for it.
\<close>

theorem pg_conversion_overflow:
  assumes "table_ok Ti" "data_cols Ti \<noteq> []" "0 < n" "2 + n * (4 + unat (RowSize Ti)) < 2 ^ 64"
  shows "length (PgConvert Ti Data n) \<le> unat (NtwrkConvBufSize Ti (of_nat n)) \<longleftrightarrow> n = 1 \<and> length (data_cols Ti) = 1"
proof -
  define k where "k = length (data_cols Ti)"
  have k: "0 < k" using assms(2) by (simp add: k_def)
  have "n * (2 + 4 * k + r) \<le> 2 + n * (4 + r) \<longleftrightarrow> n * (4 * k) \<le> 2 + n * 2" for r
    by (simp add: algebra_simps)
  moreover have "n * (4 * k) \<le> 2 + n * 2 \<longleftrightarrow> n = 1 \<and> k = 1"
  proof
    assume le: "n * (4 * k) \<le> 2 + n * 2"
    have "k = 1"
    proof (rule ccontr)
      assume "k \<noteq> 1"
      then have "n * 8 \<le> n * (4 * k)" using k by (intro mult_le_mono2) simp
      then show False using le assms(3) by linarith
    qed
    then show "n = 1 \<and> k = 1" using le assms(3) by simp
  qed simp
  ultimately show ?thesis
    unfolding length_PgConvert [OF assms(1)] NtwrkConvBufSize_eq [OF assms(4)] k_def by simp
qed

text \<open>Two rows of the two-column table: 52 bytes converted into a buffer of 42.\<close>

theorem pg_conversion_overflow_witness:
  "\<not> length (PgConvert example_table (replicate 32 0) 2) \<le> unat (NtwrkConvBufSize example_table (of_nat 2))"
proof -
  have r: "unat (RowSize example_table) = 16" "data_cols example_table \<noteq> []"
    by (simp_all add: example_table_def data_cols_def)
  then show ?thesis using pg_conversion_overflow [OF example_table_ok r(2), of 2 "replicate 32 0"] by simp
qed

section \<open>The transaction's outcome\<close>

lemma PgInsert_end_eq:
  "PgInsert_end E r xs =
    (if end_ok E \<and> result_ok E \<and> finish_ok E then r else - 6,
     xs @ [PutEnd (r = 0), Exec (if r = 0 \<and> end_ok E \<and> result_ok E then ''COMMIT'' else ''ROLLBACK'')])"
  by (simp add: PgInsert_end_def Let_def)

text \<open>
  C19. The transaction is committed exactly when every step the code checks succeeded, and 0 is returned
  exactly when it was committed and the server confirmed it; the step that is not checked is the
  push of the conversion buffer.
\<close>

theorem pg_insert_outcome:
  assumes "PgInsertData E Ti Data ItemCount m S = (Ret, cs, m')"
    and "fst (SdbArenaPush S (NtwrkConvBufSize Ti ItemCount)) = buf"
  shows "(last cs = Exec ''COMMIT'' \<longleftrightarrow>
      begin_ok E \<and> copy_ok E \<and> header_ok E \<and> (buf = NULL \<or> data_ok E) \<and> end_ok E \<and> result_ok E) \<and>
    (Ret = 0 \<longleftrightarrow> last cs = Exec ''COMMIT'' \<and> finish_ok E)"
proof -
  have "fst (SdbArenaPushZero m S (NtwrkConvBufSize Ti ItemCount)) = buf"
    using assms(2) by (auto simp: SdbArenaPush_def SdbArenaPushZero_def split: if_splits)
  then obtain S' m1 where p: "SdbArenaPushZero m S (NtwrkConvBufSize Ti ItemCount) = (buf, S', m1)"
    by (cases "SdbArenaPushZero m S (NtwrkConvBufSize Ti ItemCount)") simp
  have "PgInsertData E Ti Data ItemCount m S =
      (if \<not> begin_ok E then (- 6, [Exec ''BEGIN''], m)
       else if \<not> copy_ok E then (- 6, [Exec ''BEGIN'', Exec (CopyCommand Ti), Exec ''ROLLBACK''], m)
       else if \<not> header_ok E then
         (let (r, cs) = PgInsert_end E (- 6) [Exec ''BEGIN'', Exec (CopyCommand Ti), PutData CopyHeader] in (r, cs, m))
       else if buf = NULL then
         (let (r, cs) = PgInsert_end E 0 [Exec ''BEGIN'', Exec (CopyCommand Ti), PutData CopyHeader] in (r, cs, m1))
       else (let (r, cs) = PgInsert_end E (if data_ok E then 0 else - 6)
               [Exec ''BEGIN'', Exec (CopyCommand Ti), PutData CopyHeader, PutData (PgConvert Ti Data (unat ItemCount))]
             in (r, cs, wr m1 buf (PgConvert Ti Data (unat ItemCount)))))"
    by (simp add: PgInsertData_def p Let_def)
  note data = this
  have "(Ret, cs, m') = PgInsertData E Ti Data ItemCount m S" using assms(1) by (rule sym)
  then show ?thesis unfolding data PgInsert_end_eq by (simp split: if_splits)
qed

text \<open>
  When the scratch arena has no room for the conversion buffer, the rows are lost without an
  error: the empty COPY is ended normally, the transaction committed and 0 returned.
\<close>

theorem pg_insert_silent_loss:
  assumes "fst (SdbArenaPush S (NtwrkConvBufSize Ti ItemCount)) = NULL"
    and "begin_ok E" "copy_ok E" "header_ok E" "end_ok E" "result_ok E" "finish_ok E"
  shows "\<exists>m'. PgInsertData E Ti Data ItemCount m S =
    (0, [Exec ''BEGIN'', Exec (CopyCommand Ti), PutData CopyHeader, PutEnd True, Exec ''COMMIT''], m')"
proof -
  have "fst (SdbArenaPushZero m S (NtwrkConvBufSize Ti ItemCount)) = NULL"
    using assms(1) by (auto simp: SdbArenaPush_def SdbArenaPushZero_def split: if_splits)
  then obtain S' m1 where "SdbArenaPushZero m S (NtwrkConvBufSize Ti ItemCount) = (NULL, S', m1)"
    by (cases "SdbArenaPushZero m S (NtwrkConvBufSize Ti ItemCount)") simp
  then show ?thesis using assms(2-) by (simp add: PgInsertData_def PgInsert_end_def Let_def)
qed

definition all_well :: pg_answers where
  "all_well = \<lparr>begin_ok = True, copy_ok = True, header_ok = True, data_ok = True, end_ok = True, result_ok = True, finish_ok = True\<rparr>"

theorem pg_insert_outcome_witness:
  "fst (PgInsertData (all_well\<lparr>result_ok := False\<rparr>) example_table (replicate 32 0) 2 (\<lambda>_. 0) \<lparr>Cur = 0, Cap = 4096, Mem = 65536\<rparr>) \<noteq> 0"
proof -
  obtain r cs m' where "PgInsertData (all_well\<lparr>result_ok := False\<rparr>) example_table (replicate 32 0) 2 (\<lambda>_. 0) \<lparr>Cur = 0, Cap = 4096, Mem = 65536\<rparr> = (r, cs, m')"
    by (cases "PgInsertData (all_well\<lparr>result_ok := False\<rparr>) example_table (replicate 32 0) 2 (\<lambda>_. 0) \<lparr>Cur = 0, Cap = 4096, Mem = 65536\<rparr>") 
  then show ?thesis using pg_insert_outcome [OF _ refl] by fastforce
qed

theorem pg_insert_silent_loss_witness:
  "\<exists>m'. PgInsertData all_well example_table (replicate 32 0) 2 (\<lambda>_. 0) \<lparr>Cur = 0, Cap = 32, Mem = 65536\<rparr> =
    (0, [Exec ''BEGIN'', Exec ''COPY'', PutData CopyHeader, PutEnd True, Exec ''COMMIT''], m')"
proof -
  have "fst (SdbArenaPush \<lparr>Cur = 0, Cap = 32, Mem = 65536\<rparr> (NtwrkConvBufSize example_table 2)) = NULL"
    by (simp add: SdbArenaPush_def NtwrkConvBufSize_def example_table_def)
  from pg_insert_silent_loss [OF this, of all_well "replicate 32 0" "\<lambda>_. 0"]
  show ?thesis by (simp add: all_well_def example_table_def)
qed

section \<open>The metadata describes the packets\<close>

definition row_len :: "catalog_row \<Rightarrow> int" where
  "row_len r = fst (snd (snd r))"

definition row_auto :: "catalog_row \<Rightarrow> bool" where
  "row_auto r = (case r of (_, _, _, _, _, a) \<Rightarrow> a \<noteq> [] \<and> hd a = CHR ''t'')"

definition row_handled :: "catalog_row \<Rightarrow> bool" where
  "row_handled r = (case r of (_, oid, len, _) \<Rightarrow> 0 < len \<and> oid_size (of_int oid) = Some (nat len))"

lemma unat_scast_of_nat:
  assumes "k < 2 ^ 15"
  shows "unat (scast (of_nat k :: i16) :: u64) = k"
proof -
  have "signed_take_bit 15 (int k) = int k" using assms by (intro signed_take_bit_int_eq_self) simp_all
  then have "sint (of_nat k :: i16) = int k" by (simp add: signed_of_nat)
  then have "(scast (of_nat k :: i16) :: u64) = of_nat k" by (simp add: scast_eq)
  moreover have "k < 2 ^ LENGTH(64)" using assms by simp
  ultimately show ?thesis by (simp only: unat_of_nat_fits)
qed

lemma unat_of_int_fits:
  assumes "0 \<le> S" "S < 2 ^ 31"
  shows "unat (of_int S :: u64) = nat S"
proof -
  have "(of_int S :: u64) = of_nat (nat S)" using assms by simp
  moreover have "nat S < 2 ^ LENGTH(64)" using assms by simp
  ultimately show ?thesis by (simp only: unat_of_nat_fits)
qed

text \<open>The columns with data, in order: handled types, offsets that follow each other, sizes that add up.\<close>

lemma metadata_loop_spec:
  assumes "\<forall>r\<in>set rows. row_auto r \<or> row_handled r" "0 \<le> Off"
    and "metadata_loop rows Off = (mds, sz, cnt)"
  defines "data \<equiv> filter (\<lambda>c. \<not> IsAutoIncrement c) mds"
  shows "length mds = length rows \<and> cnt = of_nat (length data) \<and> sz = of_int (sum_list (map TypeLength data)) \<and>
    0 \<le> sum_list (map TypeLength data) \<and>
    sum_list (map TypeLength data) = sum_list (map row_len (filter (\<lambda>r. \<not> row_auto r) rows)) \<and>
    (\<forall>c\<in>set data. col_ok (nat (Off + sum_list (map TypeLength data))) c)"
  using assms(1-3) unfolding data_def
proof (induction rows arbitrary: Off mds sz cnt)
  case (Cons r rows)
  obtain name oid len tymod pk auto where r: "r = (name, oid, len, tymod, pk, auto)" by (cases r)
  show ?case
  proof (cases "row_auto r")
    case True
    then have a: "auto \<noteq> [] \<and> hd auto = CHR ''t''" by (simp add: r row_auto_def)
    obtain mds' where "metadata_loop rows Off = (mds', sz, cnt)" "\<exists>md. IsAutoIncrement md \<and> mds = md # mds'"
      using Cons.prems(3) a by (auto simp: r Let_def split: prod.splits)
    then show ?thesis using Cons.IH [OF _ Cons.prems(2), of mds' sz cnt] Cons.prems(1) True by auto
  next
    case False
    then have na: "\<not> (auto \<noteq> [] \<and> hd auto = CHR ''t'')" by (simp add: r row_auto_def)
    have h: "0 < len" "oid_size (of_int oid) = Some (nat len)"
      using Cons.prems(1) False by (auto simp: r row_handled_def)
    obtain mds' sz' cnt' where
      l: "metadata_loop rows (Off + len) = (mds', sz', cnt')" by (cases "metadata_loop rows (Off + len)")
    then have m: "\<exists>md. \<not> IsAutoIncrement md \<and> TypeLength md = len \<and> TypeOid md = of_int oid \<and> Offset md = Off \<and> mds = md # mds'"
        and sc: "sz = of_int len + sz'" "cnt = cnt' + 1"
      using Cons.prems(3) na by (auto simp: r Let_def)
    from m obtain md where md: "\<not> IsAutoIncrement md" "TypeLength md = len" "TypeOid md = of_int oid" "Offset md = Off"
        "mds = md # mds'" by blast
    let ?d = "filter (\<lambda>c. \<not> IsAutoIncrement c) mds'"
    let ?s = "sum_list (map TypeLength ?d)"
    have ih: "length mds' = length rows \<and> cnt' = of_nat (length ?d) \<and> sz' = of_int ?s \<and> 0 \<le> ?s \<and>
        ?s = sum_list (map row_len (filter (\<lambda>r. \<not> row_auto r) rows)) \<and> (\<forall>c\<in>set ?d. col_ok (nat (Off + len + ?s)) c)"
      using Cons.prems(1,2) h(1) by (intro Cons.IH [OF _ _ l]) auto
    have "col_ok (nat (Off + (len + ?s))) md"
      using md h ih Cons.prems(2) by (simp add: col_ok_def nat_add_distrib [symmetric] del: nat_add_distrib) linarith
    moreover have "row_len r = len" by (simp add: r row_len_def)
    moreover have "?s = sum_list (map row_len (filter (\<lambda>r. \<not> row_auto r) rows))" using ih by blast
    note q = this
    ultimately show ?thesis using ih md sc h(1) False by (simp add: add.assoc q)
  qed
qed simp

lemma metadata_describes:
  assumes "GetTableMetadata (Some rows) True c0 n0 RowSize0 = (Some mds, cc, cn, rs)"
    and "\<forall>r\<in>set rows. row_auto r \<or> row_handled r" "length rows < 2 ^ 15"
    and "sum_list (map row_len (filter (\<lambda>r. \<not> row_auto r) rows)) < 2 ^ 31"
  shows "table_ok \<lparr>ColCount = cc, ColCountNoAutoIncrements = cn, RowSize = rs, TableName = name, CopyCommand = cmd,
      ColMetadata = mds\<rparr> \<longleftrightarrow> RowSize0 = 0"
proof -
  define data where "data = filter (\<lambda>c. \<not> IsAutoIncrement c) mds"
  define S where "S = sum_list (map TypeLength data)"
  obtain mds' sz cnt where l: "metadata_loop rows 0 = (mds', sz, cnt)" by (cases "metadata_loop rows 0")
  have eqs: "mds' = mds" "cc = of_nat (length rows)" "cn = cnt" "rs = RowSize0 + sz"
    using assms(1) l by (auto simp: GetTableMetadata_def Let_def)
  have spec: "length mds = length rows" "cn = of_nat (length data)" "sz = of_int S" "0 \<le> S"
    "S = sum_list (map row_len (filter (\<lambda>r. \<not> row_auto r) rows))" "\<forall>c\<in>set data. col_ok (nat (0 + S)) c"
    using metadata_loop_spec [OF assms(2) order_refl l] unfolding eqs(1,3) data_def S_def by blast+
  have spec5: "S < 2 ^ 31" using spec(5) assms(4) by (simp only:)
  have cc: "unat (scast cc :: u64) = length mds" using unat_scast_of_nat [OF assms(3)] by (simp add: eqs(2) spec(1))
  have "length data \<le> length rows" by (simp add: data_def spec(1) [symmetric])
  then have cn: "unat cn = length data" using assms(3) by (simp add: spec(2) unat_of_nat_fits)
  have sz: "unat sz = nat S" using spec(3,4) spec5 by (simp only: unat_of_int_fits)
  have pos: "0 < TypeLength c" if "c \<in> set data" for c using that spec(6) by (simp add: col_ok_def)
  have sum: "sum_list (map (\<lambda>c. nat (TypeLength c)) data) = nat S"
    unfolding S_def using pos
  proof (induction data)
    case (Cons c cs)
    have "0 \<le> sum_list (map TypeLength cs)" using Cons.prems by (intro sum_list_nonneg) fastforce
    then show ?case using Cons by (simp add: nat_add_distrib less_imp_le)
  qed simp
  have "table_ok T \<longleftrightarrow> RowSize0 = 0"
    if "T = \<lparr>ColCount = cc, ColCountNoAutoIncrements = cn, RowSize = rs, TableName = name, CopyCommand = cmd,
      ColMetadata = mds\<rparr>" for T
  proof
    assume "table_ok T"
    then have "unat rs = unat sz" by (simp add: table_ok_def that data_cols_def data_def [symmetric] sum sz)
    then show "RowSize0 = 0" by (simp add: eqs(4) word_unat_eq_iff [symmetric])
  next
    assume "RowSize0 = 0"
    then have "unat rs = nat S" by (simp add: eqs(4) sz)
    then show "table_ok T" using spec(6) cc cn sum by (simp add: table_ok_def that data_cols_def data_def [symmetric])
  qed
  then show ?thesis by simp
qed


definition shaft_catalog :: "catalog_row list" where
  "shaft_catalog = [(''id'', 23, 4, - 1, ''t'', ''t''), (''packet_id'', 20, 8, - 1, ''f'', ''f''), (''time'', 1114, 8, - 1, ''f'', ''f''),
     (''rpm'', 701, 8, - 1, ''f'', ''f'')]"


end
