(* ===== verification/Sdb_Strings.thy ===== *)
theory Sdb_Strings
  imports Sdb_Scratch
begin

text \<open>
  The libc equivalents and the length-prefixed strings \<^verbatim>\<open>sdb_string\<close> of \<^verbatim>\<open>src/Sdb.h\<close>.
  A string is the address of its characters; its header (the owning arena, length and
  capacity) precedes it in memory and is kept here as a store indexed by that address.
  The second half states what the strings promise: a byte list with a capacity that can
  grow into the room its arena has left, which the operations refine.
\<close>

section \<open>C strings\<close>

text \<open>\<open>SdbStrlen\<close> walks to the first NUL; without one it does not return (\<open>None\<close>).\<close>

partial_function (option) SdbStrlen_loop :: "mem \<Rightarrow> addr \<Rightarrow> u64 \<Rightarrow> u64 option" where
  "SdbStrlen_loop m String Count =
     (if m String \<noteq> 0 then SdbStrlen_loop m (String + 1) (Count + 1) else Some Count)"

definition SdbStrlen :: "mem \<Rightarrow> addr \<Rightarrow> u64 option" where
  "SdbStrlen m String = SdbStrlen_loop m String 0"

function SdbStrnlen_loop :: "mem \<Rightarrow> addr \<Rightarrow> u64 \<Rightarrow> u64 \<Rightarrow> u64" where
  "SdbStrnlen_loop m String MaxLen Count =
     (if m String \<noteq> 0 \<and> Count < MaxLen then SdbStrnlen_loop m (String + 1) MaxLen (Count + 1) else Count)"
  by pat_completeness auto
termination
proof (relation "measure (\<lambda>(m, String, MaxLen, Count). unat MaxLen - unat Count)")
  fix m :: mem and String :: addr and MaxLen Count :: u64 assume c: "m String \<noteq> 0 \<and> Count < MaxLen"
  then have "unat (Count + 1) = Suc (unat Count)"
    using unat_u64_less [of MaxLen] by (subst unat_plus_fits) (auto simp: word_less_nat_alt)
  then show "((m, String + 1, MaxLen, Count + 1), m, String, MaxLen, Count)
      \<in> measure (\<lambda>(m, String, MaxLen, Count). unat MaxLen - unat Count)"
    using c by (auto simp: word_less_nat_alt)
qed simp

definition SdbStrnlen :: "mem \<Rightarrow> addr \<Rightarrow> u64 \<Rightarrow> u64" where
  "SdbStrnlen m String MaxLen = SdbStrnlen_loop m String MaxLen 0"

declare SdbStrnlen_loop.simps [simp del]

text \<open>A C string: \<open>n\<close> bytes other than NUL, then a NUL.\<close>

definition cstr :: "mem \<Rightarrow> addr \<Rightarrow> u8 list \<Rightarrow> bool" where
  "cstr m p bs \<longleftrightarrow> 0 \<notin> set bs \<and> rd m p (length bs) = bs \<and> m (p + of_nat (length bs)) = 0"

lemma cstr_Cons: "cstr m p (b # bs) \<longleftrightarrow> m p = b \<and> b \<noteq> 0 \<and> cstr m (p + 1) bs"
  by (auto simp: cstr_def rd_Suc algebra_simps)

lemma SdbStrlen_loop_cstr: "cstr m p bs \<Longrightarrow> SdbStrlen_loop m p c = Some (c + of_nat (length bs))"
proof (induction bs arbitrary: p c)
  case Nil
  then show ?case by (simp add: SdbStrlen_loop.simps cstr_def)
next
  case (Cons b bs)
  then show ?case by (subst SdbStrlen_loop.simps) (auto simp: cstr_Cons)
qed

lemma SdbStrlen_cstr: "cstr m p bs \<Longrightarrow> SdbStrlen m p = Some (of_nat (length bs))"
  by (simp add: SdbStrlen_def SdbStrlen_loop_cstr)

lemma SdbStrnlen_loop_le: "c \<le> MaxLen \<Longrightarrow> SdbStrnlen_loop m p MaxLen c \<le> MaxLen"
proof (induction m p MaxLen c rule: SdbStrnlen_loop.induct)
  case (1 m p MaxLen c)
  show ?case
  proof (cases "m p \<noteq> 0 \<and> c < MaxLen")
    case True
    then have "c + 1 \<le> MaxLen" by (simp add: inc_le)
    then show ?thesis using "1.IH" True by (simp add: SdbStrnlen_loop.simps [of m p])
  next
    case False
    then have "SdbStrnlen_loop m p MaxLen c = c" by (subst SdbStrnlen_loop.simps) (rule if_not_P)
    then show ?thesis using "1.prems" by simp
  qed
qed

section \<open>The strings and their operations\<close>

record sdb_string_header =
  HArena :: addr
  HLen :: u64
  HCap :: u64

record str_state =
  Bytes :: mem
  ArenaAt :: arena_store
  Header :: "addr \<Rightarrow> sdb_string_header"

definition HeaderSize :: u64 where
  "HeaderSize = 24"

definition SdbStringLen :: "str_state \<Rightarrow> addr \<Rightarrow> u64" where
  "SdbStringLen st String = HLen (Header st String)"

definition SdbStringCap :: "str_state \<Rightarrow> addr \<Rightarrow> u64" where
  "SdbStringCap st String = HCap (Header st String)"

definition SdbStringAvailableSpace :: "str_state \<Rightarrow> addr \<Rightarrow> u64" where
  "SdbStringAvailableSpace st String = HCap (Header st String) - HLen (Header st String)"

definition SdbStringAllocSize :: "str_state \<Rightarrow> addr \<Rightarrow> u64" where
  "SdbStringAllocSize st String = HeaderSize + SdbStringCap st String"

definition Sdb_StringSetLen :: "str_state \<Rightarrow> addr \<Rightarrow> u64 \<Rightarrow> str_state" where
  "Sdb_StringSetLen st String Len =
     st\<lparr>Header := (Header st)(String := (Header st String)\<lparr>HLen := Len\<rparr>)\<rparr>"

definition Sdb_StringSetCap :: "str_state \<Rightarrow> addr \<Rightarrow> u64 \<Rightarrow> str_state" where
  "Sdb_StringSetCap st String C =
     st\<lparr>Header := (Header st)(String := (Header st String)\<lparr>HCap := C\<rparr>)\<rparr>"

definition set_byte :: "str_state \<Rightarrow> addr \<Rightarrow> u8 \<Rightarrow> str_state" where
  "set_byte st a v = st\<lparr>Bytes := (Bytes st)(a := v)\<rparr>"

text \<open>The result is the string's address, NULL when the arena is full.\<close>

definition Sdb_StringMake :: "str_state \<Rightarrow> addr \<Rightarrow> addr \<Rightarrow> u64 \<Rightarrow> addr \<times> str_state" where
  "Sdb_StringMake st A InitString Len =
     (let (Ptr, Ar) = SdbArenaPush (ArenaAt st A) (HeaderSize + Len + 1);
          st = st\<lparr>ArenaAt := (ArenaAt st)(A := Ar)\<rparr>
      in if Ptr = NULL then (NULL, st)
         else
           (let st = (if InitString = NULL
                      then st\<lparr>Bytes := SdbMemset (Bytes st) Ptr 0 (HeaderSize + Len + 1)\<rparr> else st);
                String = Ptr + HeaderSize;
                st = st\<lparr>Header := (Header st)(String := \<lparr>HArena = A, HLen = Len, HCap = Len\<rparr>)\<rparr>;
                st = (if Len > 0 \<and> InitString \<noteq> NULL
                      then set_byte (st\<lparr>Bytes := SdbMemcpy (Bytes st) String InitString Len\<rparr>) (String + Len) 0
                      else st)
            in (String, st)))"

definition SdbStringMake :: "str_state \<Rightarrow> addr \<Rightarrow> addr \<Rightarrow> (addr \<times> str_state) option" where
  "SdbStringMake st A String =
     (if String \<noteq> NULL
      then (case SdbStrlen (Bytes st) String of None \<Rightarrow> None | Some Len \<Rightarrow> Some (Sdb_StringMake st A String Len))
      else Some (Sdb_StringMake st A String 0))"

definition SdbStringFree :: "str_state \<Rightarrow> addr \<Rightarrow> str_state" where
  "SdbStringFree st String =
     (if String \<noteq> NULL
      then (let H = Header st String;
                PopSize = HeaderSize + HCap H + 1
            in st\<lparr>ArenaAt := (ArenaAt st)(HArena H := snd (SdbArenaPop (ArenaAt st (HArena H)) PopSize))\<rparr>)
      else st)"

definition SdbStringDuplicate :: "str_state \<Rightarrow> addr \<Rightarrow> addr \<Rightarrow> addr \<times> str_state" where
  "SdbStringDuplicate st A String = Sdb_StringMake st A String (SdbStringLen st String)"

definition SdbStringClear :: "str_state \<Rightarrow> addr \<Rightarrow> str_state" where
  "SdbStringClear st String = set_byte (Sdb_StringSetLen st String 0) String 0"

definition SdbStringBackspace :: "str_state \<Rightarrow> addr \<Rightarrow> u64 \<Rightarrow> str_state" where
  "SdbStringBackspace st String N =
     (let NewLen = SdbStringLen st String - N
      in set_byte (Sdb_StringSetLen st String NewLen) (String + NewLen) 0)"

definition SdbStringMakeSpace :: "str_state \<Rightarrow> addr \<Rightarrow> u64 \<Rightarrow> addr \<times> str_state" where
  "SdbStringMakeSpace st String AddLen =
     (if SdbStringAvailableSpace st String < AddLen
      then (let A = HArena (Header st String);
                (Reserved, Ar) = SdbArenaReserve (ArenaAt st A) AddLen;
                st = st\<lparr>ArenaAt := (ArenaAt st)(A := Ar)\<rparr>
            in if Reserved < AddLen then (NULL, st)
               else (String, Sdb_StringSetCap st String (SdbStringCap st String + AddLen)))
      else (String, st))"

definition Sdb_StringAppend :: "str_state \<Rightarrow> addr \<Rightarrow> addr \<Rightarrow> u64 \<Rightarrow> addr \<times> str_state" where
  "Sdb_StringAppend st String Other OtherLen =
     (let (String, st) = SdbStringMakeSpace st String OtherLen
      in if String = NULL then (NULL, st)
         else
           (let CurLen = SdbStringLen st String;
                st = st\<lparr>Bytes := SdbMemcpy (Bytes st) (String + CurLen) Other OtherLen\<rparr>;
                st = Sdb_StringSetLen st String (CurLen + OtherLen)
            in (String, set_byte st (String + (CurLen + OtherLen)) 0)))"

definition SdbStringAppend :: "str_state \<Rightarrow> addr \<Rightarrow> addr \<Rightarrow> addr \<times> str_state" where
  "SdbStringAppend st String Other = Sdb_StringAppend st String Other (SdbStringLen st Other)"

definition SdbStringAppendC :: "str_state \<Rightarrow> addr \<Rightarrow> addr \<Rightarrow> (addr \<times> str_state) option" where
  "SdbStringAppendC st String Other =
     map_option (Sdb_StringAppend st String Other) (SdbStrlen (Bytes st) Other)"

definition SdbStringSet :: "str_state \<Rightarrow> addr \<Rightarrow> addr \<Rightarrow> (addr \<times> str_state) option" where
  "SdbStringSet st String CString =
     (case SdbStrlen (Bytes st) CString of
        None \<Rightarrow> None
      | Some Len \<Rightarrow>
          (let (String, st) = SdbStringMakeSpace st String Len
           in if String = NULL then Some (NULL, st)
              else
                (let st = st\<lparr>Bytes := SdbMemcpy (Bytes st) String CString Len\<rparr>;
                     st = set_byte st (String + Len) 0
                 in Some (String, Sdb_StringSetLen st String Len))))"

definition SdbStringsAreEqual :: "str_state \<Rightarrow> addr \<Rightarrow> addr \<Rightarrow> bool" where
  "SdbStringsAreEqual st Lhs Rhs =
     (let LStringLen = SdbStringLen st Lhs; RStringLen = SdbStringLen st Rhs
      in if LStringLen \<noteq> RStringLen then False else SdbMemcmp (Bytes st) Lhs Rhs LStringLen)"

definition SdbStrdup :: "mem \<Rightarrow> arena_store \<Rightarrow> addr \<Rightarrow> addr \<Rightarrow> (addr \<times> arena_store \<times> mem) res option" where
  "SdbStrdup m st String Arena =
     (case SdbStrlen m String of
        None \<Rightarrow> None
      | Some StringLength \<Rightarrow>
          (let (NewString, Ar) = SdbArenaPush (st Arena) (StringLength + 1);
               st = st(Arena := Ar)
           in if NewString = NULL then Some (Inl NullDeref)
              else Some (Inr (NewString, st,
                     (SdbMemcpy m NewString String StringLength)(NewString + StringLength := 0)))))"

text \<open>
  \<^verbatim>\<open>SdbStringAppendFmt\<close> formats into a zeroed 1024-byte buffer on the stack, at \<open>Buf\<close>.
  \<open>Formatted\<close> is the full text the format produces: \<^verbatim>\<open>vsnprintf\<close> stores at most 1022 bytes of
  it and returns its whole length, which is then the number of bytes copied.
\<close>

definition SdbStringAppendFmt :: "str_state \<Rightarrow> addr \<Rightarrow> addr \<Rightarrow> u8 list \<Rightarrow> (addr \<times> str_state) res" where
  "SdbStringAppendFmt st String Buf Formatted =
     (let st = st\<lparr>Bytes := wr (Bytes st) Buf (replicate 1024 0)\<rparr>;
          st = st\<lparr>Bytes := wr (Bytes st) Buf (take 1022 Formatted @ [0])\<rparr>;
          FmtLen = length Formatted
      in if FmtLen > 1024 then Inl OutOfBounds
         else Inr (Sdb_StringAppend st String Buf (of_nat FmtLen)))"


section \<open>What a string promises\<close>

text \<open>
  Abstractly a string is its bytes, its capacity, and the room its arena can still give it.
  Appending takes room only when the capacity does not suffice, and then asks for the whole
  appended length.
\<close>

record abs_string =
  aval :: "u8 list"
  acap :: nat
  aroom :: nat

definition abs_space :: "abs_string \<Rightarrow> nat \<Rightarrow> abs_string option" where
  "abs_space a n =
     (if acap a - length (aval a) < n
      then (if aroom a < n then None else Some (a\<lparr>acap := acap a + n, aroom := aroom a - n\<rparr>))
      else Some a)"

definition abs_append :: "abs_string \<Rightarrow> u8 list \<Rightarrow> abs_string option" where
  "abs_append a x = map_option (\<lambda>b. b\<lparr>aval := aval b @ x\<rparr>) (abs_space a (length x))"

definition str_arena :: "str_state \<Rightarrow> addr \<Rightarrow> sdb_arena" where
  "str_arena st s = ArenaAt st (HArena (Header st s))"

definition str_abs :: "str_state \<Rightarrow> addr \<Rightarrow> abs_string" where
  "str_abs st s = \<lparr>aval = rd (Bytes st) s (unat (HLen (Header st s))), acap = unat (HCap (Header st s)),
     aroom = unat (Cap (str_arena st s)) - unat (Cur (str_arena st s))\<rparr>"

text \<open>
  The string is the last allocation of its arena (the condition under which it may grow, as
  the comment above the type says), holds its length and is NUL-terminated.
\<close>

definition str_ok :: "str_state \<Rightarrow> addr \<Rightarrow> bool" where
  "str_ok st s \<longleftrightarrow>
     (let H = Header st s; A = str_arena st s
      in arena_ok A \<and> s \<noteq> NULL \<and> HLen H \<le> HCap H \<and>
         unat (Mem A) + unat HeaderSize \<le> unat s \<and>
         unat (Mem A) + unat (Cur A) = unat s + unat (HCap H) + 1 \<and>
         Bytes st (s + HLen H) = 0)"

text \<open>Agreement of two states on everything but the bytes in a block.\<close>

lemma str_ok_bounds:
  assumes "str_ok st s"
  shows "unat (HLen (Header st s)) \<le> unat (HCap (Header st s))"
    and "unat s + unat (HCap (Header st s)) < 2 ^ 64"
    and "unat (HCap (Header st s)) < 2 ^ 63"
proof -
  let ?A = "str_arena st s"
  have ok: "arena_ok ?A" "unat (Mem ?A) + unat (Cur ?A) = unat s + unat (HCap (Header st s)) + 1"
    "unat (Mem ?A) \<le> unat s"
    using assms by (auto simp: str_ok_def Let_def)
  then have "unat (Cur ?A) < 2 ^ 63" "unat (Mem ?A) + unat (Cur ?A) < 2 ^ 64"
    by (auto simp: arena_ok_def word_le_nat_alt)
  then show "unat s + unat (HCap (Header st s)) < 2 ^ 64" "unat (HCap (Header st s)) < 2 ^ 63"
    using ok by linarith+
  show "unat (HLen (Header st s)) \<le> unat (HCap (Header st s))"
    using assms by (simp add: str_ok_def Let_def word_le_nat_alt)
qed

lemma MakeSpace_cases:
  assumes "str_ok st s" "unat n < 2 ^ 63"
  shows "case abs_space (str_abs st s) (unat n) of
      None \<Rightarrow> SdbStringMakeSpace st s n = (NULL, st)
    | Some b \<Rightarrow> (\<exists>st'. SdbStringMakeSpace st s n = (s, st') \<and> str_ok st' s \<and> str_abs st' s = b \<and>
        Bytes st' = Bytes st \<and> HLen (Header st' s) = HLen (Header st s) \<and>
        unat (HLen (Header st s)) + unat n \<le> unat (HCap (Header st' s)))"
proof -
  let ?H = "Header st s" let ?A = "str_arena st s"
  note b = str_ok_bounds [OF assms(1)]
  have ok: "arena_ok ?A" "HLen ?H \<le> HCap ?H" using assms(1) by (auto simp: str_ok_def Let_def)
  have av: "unat (SdbStringAvailableSpace st s) = unat (HCap ?H) - unat (HLen ?H)"
    using ok by (simp add: SdbStringAvailableSpace_def unat_minus_le)
  have lt: "SdbStringAvailableSpace st s < n \<longleftrightarrow> unat (HCap ?H) - unat (HLen ?H) < unat n"
    by (simp add: word_less_nat_alt av)
  show ?thesis
  proof (cases "unat (HCap ?H) - unat (HLen ?H) < unat n")
    case False
    then have "abs_space (str_abs st s) (unat n) = Some (str_abs st s)"
      by (simp add: abs_space_def str_abs_def)
    moreover have "SdbStringMakeSpace st s n = (s, st)" using lt False by (simp add: SdbStringMakeSpace_def)
    ultimately show ?thesis using False b assms(1) by auto
  next
    case True
    note refused = SdbArenaReserve_refused_iff [OF ok(1) assms(2)]
    have cur: "unat (Cur ?A) \<le> unat (Cap ?A)" using ok(1) by (simp add: arena_ok_def word_le_nat_alt)
    show ?thesis
    proof (cases "unat (Cap ?A) < unat (Cur ?A) + unat n")
      case no: True
      then have "\<not> Cur ?A + n \<le> Cap ?A" using push_fits_iff [OF ok(1) assms(2)] by simp
      then have "SdbArenaReserve ?A n = (SdbArenaRemaining ?A, ?A)" by (simp add: SdbArenaReserve_def)
      moreover have "SdbArenaRemaining ?A < n" using refused no calculation by simp
      ultimately have "SdbStringMakeSpace st s n = (NULL, st)"
        using lt True by (simp add: SdbStringMakeSpace_def str_arena_def Let_def)
      moreover have "abs_space (str_abs st s) (unat n) = None"
        using True no cur by (auto simp: abs_space_def str_abs_def)
      ultimately show ?thesis by simp
    next
      case yes: False
      then have le: "Cur ?A + n \<le> Cap ?A" using push_fits_iff [OF ok(1) assms(2)] by simp
      let ?st = "Sdb_StringSetCap (st\<lparr>ArenaAt := (ArenaAt st)(HArena ?H := ?A\<lparr>Cur := Cur ?A + n\<rparr>)\<rparr>) s
          (HCap ?H + n)"
      have res: "SdbStringMakeSpace st s n = (s, ?st)"
        using lt True le by (simp add: SdbStringMakeSpace_def str_arena_def Let_def SdbArenaReserve_def
            SdbStringCap_def)
      have c: "unat (Cur ?A + n) = unat (Cur ?A) + unat n" using push_no_wrap [OF ok(1) assms(2)] .
      have h: "unat (HCap ?H + n) = unat (HCap ?H) + unat n"
        using b(3) assms(2) by (intro unat_plus_fits) simp
      have A': "arena_ok (?A\<lparr>Cur := Cur ?A + n\<rparr>)" using ok(1) le by (simp add: arena_ok_def)
      have sa: "str_arena ?st s = ?A\<lparr>Cur := Cur ?A + n\<rparr>" by (simp add: str_arena_def Sdb_StringSetCap_def)
      have hd: "Header ?st s = ?H\<lparr>HCap := HCap ?H + n\<rparr>" "Bytes ?st = Bytes st"
        by (simp_all add: Sdb_StringSetCap_def)
      have "str_ok ?st s"
        using assms(1) A' c h by (simp add: str_ok_def Let_def sa hd word_le_nat_alt)
      moreover have "abs_space (str_abs st s) (unat n) = Some (str_abs ?st s)"
        using True yes cur by (auto simp: abs_space_def str_abs_def sa hd c h)
      ultimately show ?thesis using res hd h b(1) by auto
    qed
  qed
qed

lemma append_in_capacity:
  assumes "str_ok st s" "unat (HLen (Header st s)) + unat n \<le> unat (HCap (Header st s))"
    and "disjoint_blocks (s + HLen (Header st s)) (unat n) Other (unat n)"
  defines "st' \<equiv> set_byte (Sdb_StringSetLen (st\<lparr>Bytes := SdbMemcpy (Bytes st) (s + HLen (Header st s)) Other n\<rparr>) s
      (HLen (Header st s) + n)) (s + (HLen (Header st s) + n)) 0"
  shows "str_ok st' s \<and> str_abs st' s = (str_abs st s)\<lparr>aval := aval (str_abs st s) @ rd (Bytes st) Other (unat n)\<rparr>"
proof -
  let ?H = "Header st s"
  let ?l = "unat (HLen ?H)" and ?n = "unat n"
  note b = str_ok_bounds [OF assms(1)]
  have sum: "unat (HLen ?H + n) = ?l + ?n" using assms(2) b(3) by (intro unat_plus_fits) simp
  have hd: "Header st' s = ?H\<lparr>HLen := HLen ?H + n\<rparr>" "str_arena st' s = str_arena st s"
    by (simp_all add: st'_def set_byte_def Sdb_StringSetLen_def str_arena_def)
  let ?bs = "rd (Bytes st) Other ?n"
  have by': "Bytes st' = (wr (Bytes st) (s + HLen ?H) ?bs)(s + (HLen ?H + n) := 0)"
    using assms(3) by (simp add: st'_def set_byte_def Sdb_StringSetLen_def SdbMemcpy_eq)
  have off: "Bytes st' (s + of_nat i) = (if i < ?l then Bytes st (s + of_nat i) else ?bs ! (i - ?l))"
    if i: "i < ?l + ?n" for i
  proof -
    have big: "i < 2 ^ 63" "?l + length ?bs \<le> 2 ^ 63" using i assms(2) b(3) by simp_all
    have "unat (of_nat i :: u64) = i" using big by (intro unat_of_nat_fits) simp
    then have "of_nat i \<noteq> HLen ?H + n" using i sum by auto
    then have "Bytes st' (s + of_nat i) = wr (Bytes st) (s + of_nat ?l) ?bs (s + of_nat i)"
      by (simp add: by')
    then show ?thesis using wr_offset [OF big, of "Bytes st" s] i by simp
  qed
  have "rd (Bytes st') s (?l + ?n) = rd (Bytes st) s ?l @ ?bs"
    by (rule nth_equalityI) (auto simp: off nth_append simp del: of_nat_add)
  then have "aval (str_abs st' s) = aval (str_abs st s) @ ?bs" by (simp add: str_abs_def hd sum)
  moreover have "acap (str_abs st' s) = acap (str_abs st s)" "aroom (str_abs st' s) = aroom (str_abs st s)"
    by (simp_all add: str_abs_def hd)
  moreover have "str_ok st' s"
    using assms(1,2) sum hd by (simp add: str_ok_def Let_def word_le_nat_alt by')
  ultimately show ?thesis by (simp add: str_abs_def)
qed

lemma string_append_core:
  assumes "str_ok st s" "unat n < 2 ^ 63"
    and "disjoint_blocks (s + HLen (Header st s)) (unat n) Other (unat n)"
  shows "case abs_append (str_abs st s) (rd (Bytes st) Other (unat n)) of
      None \<Rightarrow> Sdb_StringAppend st s Other n = (NULL, st)
    | Some b \<Rightarrow> (\<exists>st'. Sdb_StringAppend st s Other n = (s, st') \<and> str_ok st' s \<and> str_abs st' s = b)"
proof (cases "abs_space (str_abs st s) (unat n)")
  case None
  then show ?thesis using MakeSpace_cases [OF assms(1,2)] by (simp add: abs_append_def Sdb_StringAppend_def)
next
  case (Some c)
  obtain st1 where st1: "SdbStringMakeSpace st s n = (s, st1)" "str_ok st1 s" "str_abs st1 s = c"
      "Bytes st1 = Bytes st" "HLen (Header st1 s) = HLen (Header st s)"
      "unat (HLen (Header st s)) + unat n \<le> unat (HCap (Header st1 s))"
    using MakeSpace_cases [OF assms(1,2)] Some by auto
  have "s \<noteq> NULL" using assms(1) by (simp add: str_ok_def Let_def)
  then show ?thesis
    using append_in_capacity [of st1 s n Other] st1 assms(3) Some
    by (simp add: abs_append_def Sdb_StringAppend_def SdbStringLen_def Let_def)
qed

text \<open>
  C28. Appending to a string refines the abstract append: when the capacity or the arena's room
  suffices, the string keeps its address, its bytes are the old ones followed by the appended
  ones, NUL-terminated, and otherwise the call answers NULL and changes nothing.
\<close>

theorem string_append_refines:
  assumes "str_ok st s" "unat n < 2 ^ 63"
    and "disjoint_blocks (s + HLen (Header st s)) (unat n) Other (unat n)"
  shows "case abs_append (str_abs st s) (rd (Bytes st) Other (unat n)) of
      None \<Rightarrow> Sdb_StringAppend st s Other n = (NULL, st)
    | Some b \<Rightarrow> (\<exists>st'. Sdb_StringAppend st s Other n = (s, st') \<and> str_ok st' s \<and> str_abs st' s = b)"
  using assms by (rule string_append_core)


definition str_example :: str_state where
  "str_example = \<lparr>Bytes = (\<lambda>_. 0)(24 := 65, 100 := 66, 101 := 67),
     ArenaAt = (\<lambda>_. \<lparr>Cur = 26, Cap = 40, Mem = 16\<rparr>)(1 := \<lparr>Cur = 26, Cap = 40, Mem = 16\<rparr>),
     Header = (\<lambda>_. \<lparr>HArena = 1, HLen = 1, HCap = 1\<rparr>)\<rparr>"

lemma str_example_ok: "str_ok str_example 40"
  by (simp add: str_ok_def str_example_def str_arena_def arena_ok_def HeaderSize_def Let_def)

theorem string_append_refines_witness:
  "\<exists>st'. Sdb_StringAppend str_example 40 100 2 = (40, st') \<and> str_ok st' 40 \<and>
     aval (str_abs st' 40) = [0, 66, 67]"
proof -
  have "disjoint_blocks (40 + HLen (Header str_example 40)) (unat (2 :: u64)) 100 (unat (2 :: u64))"
    by (rule disjoint_blocks_linear) (simp_all add: str_example_def)
  moreover have "abs_append (str_abs str_example 40) (rd (Bytes str_example) 100 (unat (2 :: u64))) =
      Some \<lparr>aval = [0, 66, 67], acap = 3, aroom = 12\<rparr>"
    by (simp add: abs_append_def abs_space_def str_abs_def str_arena_def str_example_def rd_def upt_rec)
  ultimately show ?thesis
    using string_append_refines [OF str_example_ok, of 2 100] by auto
qed

section \<open>Making, shortening and comparing strings\<close>

lemma wr_update_commute:
  assumes "length bs \<le> 2 ^ 64" "\<not> in_block x a (length bs)"
  shows "wr (m(x := v)) a bs = (wr m a bs)(x := v)"
  using assms by (auto simp: wr_apply fun_eq_iff)

text \<open>
  C30. Making a string from a non-empty C string outside the block allocated for it copies its
  bytes: the new string is well formed, holds exactly them with no spare capacity, and
  freeing it gives the arena back as it was.
\<close>

theorem string_make_free:
  assumes "arena_ok (ArenaAt st A)" "cstr (Bytes st) p bs" "bs \<noteq> []" "p \<noteq> NULL"
    and "length bs < 2 ^ 62"
    and "unat (Cur (ArenaAt st A)) + 24 + length bs + 1 \<le> unat (Cap (ArenaAt st A))"
    and "disjoint_blocks (Mem (ArenaAt st A) + Cur (ArenaAt st A) + 24) (length bs) p (length bs)"
  shows "\<exists>s st'. SdbStringMake st A p = Some (s, st') \<and> str_ok st' s \<and>
    aval (str_abs st' s) = bs \<and> acap (str_abs st' s) = length bs \<and>
    ArenaAt (SdbStringFree st' s) = ArenaAt st"
proof -
  let ?A = "ArenaAt st A" and ?n = "length bs" and ?L = "of_nat (length bs) :: u64"
  let ?s = "Mem ?A + Cur ?A + 24"
  have n: "unat ?L = ?n" using assms(5) by (intro unat_of_nat_fits) simp
  have l1: "unat (24 + ?L) = 24 + ?n" using n assms(5) by (subst unat_plus_fits) auto
  have sz: "unat (24 + ?L + 1) = 24 + ?n + 1" using l1 assms(5) by (subst unat_plus_fits) auto
  have small: "unat (24 + ?L + 1) < 2 ^ 63" using sz assms(5) by simp
  have fits: "unat (Cur ?A) + unat (24 + ?L + 1) \<le> unat (Cap ?A)" using sz assms(6) by simp
  note push = SdbArenaPush_fits [OF assms(1) small fits]
  let ?A' = "?A\<lparr>Cur := Cur ?A + (24 + ?L + 1)\<rparr>"
  have le: "Cur ?A \<le> Cap ?A" using assms(1) by (simp add: arena_ok_def)
  note mo = mem_offset [OF assms(1) le]
  have top: "unat (Mem ?A) + unat (Cap ?A) < 2 ^ 64" using assms(1) by (simp add: arena_ok_def)
  have us: "unat ?s = unat (Mem ?A) + unat (Cur ?A) + 24"
    using mo(1) top assms(6) by (subst unat_plus_fits) auto
  then have snn: "?s \<noteq> 0" by (metis add_is_0 unat_0 zero_neq_numeral)
  have Lpos: "0 < ?L" using n assms(3) by (simp add: word_less_nat_alt)
  define st' where "st' = set_byte (st\<lparr>ArenaAt := (ArenaAt st)(A := ?A'),
      Header := (Header st)(?s := \<lparr>HArena = A, HLen = ?L, HCap = ?L\<rparr>),
      Bytes := wr (Bytes st) ?s bs\<rparr>) (?s + ?L) 0"
  have "rd (Bytes st) p ?n = bs" using assms(2) by (simp add: cstr_def)
  then have "SdbMemcpy (Bytes st) ?s p ?L = wr (Bytes st) ?s bs"
    using assms(7) n by (simp add: SdbMemcpy_eq)
  then have mk: "SdbStringMake st A p = Some (?s, st')"
    using SdbStrlen_cstr [OF assms(2)] assms(4) push(1) mo(2) Lpos
    by (simp add: SdbStringMake_def Sdb_StringMake_def HeaderSize_def Let_def st'_def)
  have hd: "Header st' ?s = \<lparr>HArena = A, HLen = ?L, HCap = ?L\<rparr>" "str_arena st' ?s = ?A'"
    by (simp_all add: st'_def set_byte_def str_arena_def)
  have ok: "str_ok st' ?s"
    using push(2) snn us push_no_wrap [OF assms(1) small] sz n
    by (simp add: str_ok_def Let_def hd HeaderSize_def) (simp add: st'_def set_byte_def)
  have outside: "\<not> in_block (?s + ?L) ?s ?n" using n by (simp add: in_block_def)
  have "rd (Bytes st') ?s ?n = rd (wr (Bytes st) ?s bs) ?s ?n"
    using outside assms(5) by (simp add: st'_def set_byte_def rd_update_other)
  then have val: "aval (str_abs st' ?s) = bs" "acap (str_abs st' ?s) = ?n"
    using assms(5) n by (simp_all add: str_abs_def hd rd_wr_same)
  have "24 + ?L + 1 \<le> Cur ?A + (24 + ?L + 1)"
    using push_no_wrap [OF assms(1) small] by (simp add: word_le_nat_alt)
  then have "ArenaAt (SdbStringFree st' ?s) = (ArenaAt st)(A := ?A)"
    using snn hd by (simp add: SdbStringFree_def Let_def HeaderSize_def SdbArenaPop_def)
      (simp add: st'_def set_byte_def)
  then show ?thesis using mk ok val by auto
qed

definition str_example_empty :: str_state where
  "str_example_empty = \<lparr>Bytes = (\<lambda>_. 0)(100 := 66, 101 := 67),
     ArenaAt = (\<lambda>_. \<lparr>Cur = 0, Cap = 64, Mem = 16\<rparr>),
     Header = (\<lambda>_. \<lparr>HArena = 1, HLen = 0, HCap = 0\<rparr>)\<rparr>"

theorem string_make_free_witness:
  "\<exists>s st'. SdbStringMake str_example_empty 1 100 = Some (s, st') \<and> aval (str_abs st' s) = [66, 67] \<and>
     ArenaAt (SdbStringFree st' s) = ArenaAt str_example_empty"
proof -
  have "arena_ok (ArenaAt str_example_empty 1)" by (simp add: arena_ok_def str_example_empty_def)
  moreover have "cstr (Bytes str_example_empty) 100 [66, 67]"
    by (simp add: cstr_def str_example_empty_def rd_def upt_rec)
  moreover have "disjoint_blocks (Mem (ArenaAt str_example_empty 1) + Cur (ArenaAt str_example_empty 1) + 24)
      (length [66, 67 :: u8]) 100 (length [66, 67 :: u8])"
    by (rule disjoint_blocks_linear) (simp_all add: str_example_empty_def)
  ultimately show ?thesis
    using string_make_free [of str_example_empty 1 100 "[66, 67]"] by (auto simp: str_example_empty_def)
qed

text \<open>
  Making a string from the empty C string (not NULL, so nothing is zeroed; length 0, so
  nothing is copied) stores no byte at all: the new string is NUL-terminated only if its
  memory happened to hold a 0 there.
\<close>

theorem string_make_empty_unterminated:
  assumes "p \<noteq> NULL" "Bytes st p = 0" "SdbStringMake st A p = Some (s, st')" "s \<noteq> NULL"
  shows "SdbStringLen st' s = 0 \<and> Bytes st' s = Bytes st s"
proof -
  have "cstr (Bytes st) p []" using assms(2) by (simp add: cstr_def)
  then have "SdbStrlen (Bytes st) p = Some 0" using SdbStrlen_cstr by fastforce
  then show ?thesis
    using assms by (auto simp: SdbStringMake_def Sdb_StringMake_def SdbStringLen_def Let_def
        split: prod.splits if_splits)
qed

theorem string_make_empty_unterminated_witness:
  "\<exists>s st'. SdbStringMake (str_example_empty\<lparr>Bytes := (\<lambda>_. 7)(100 := 0)\<rparr>) 1 100 = Some (s, st') \<and>
     SdbStringLen st' s = 0 \<and> Bytes st' s = 7"
proof -
  let ?st = "str_example_empty\<lparr>Bytes := (\<lambda>_. 7)(100 := 0)\<rparr>"
  have "cstr (Bytes ?st) 100 []" by (simp add: cstr_def)
  then have "SdbStrlen ((\<lambda>_. 7)(100 := 0)) 100 = Some 0" using SdbStrlen_cstr by fastforce
  then obtain st' where st': "SdbStringMake ?st 1 100 = Some (40, st')"
    by (simp add: SdbStringMake_def Sdb_StringMake_def str_example_empty_def HeaderSize_def SdbArenaPush_def Let_def)
  have "SdbStringLen st' 40 = 0 \<and> Bytes st' 40 = Bytes ?st 40"
    by (rule string_make_empty_unterminated [OF _ _ st']) simp_all
  then show ?thesis using st' by auto
qed

lemma rd_prefix: "k \<le> n \<Longrightarrow> rd m a k = take k (rd m a n)"
  by (rule nth_equalityI) auto

text \<open>
  Removing \<open>N\<close> characters of a string that has that many leaves its first \<open>Len - N\<close> bytes,
  NUL-terminated, with capacity and arena unchanged.
\<close>

theorem string_backspace:
  assumes "str_ok st s" "N \<le> HLen (Header st s)"
  shows "str_ok (SdbStringBackspace st s N) s \<and>
    str_abs (SdbStringBackspace st s N) s =
      (str_abs st s)\<lparr>aval := take (unat (HLen (Header st s)) - unat N) (aval (str_abs st s))\<rparr>"
proof -
  let ?l = "unat (HLen (Header st s))" and ?H = "Header st s"
  let ?st' = "SdbStringBackspace st s N"
  note b = str_ok_bounds [OF assms(1)]
  have nl: "unat (HLen ?H - N) = ?l - unat N" using assms(2) by (rule unat_minus_le)
  have hd: "Header ?st' s = ?H\<lparr>HLen := HLen ?H - N\<rparr>" "str_arena ?st' s = str_arena st s"
    "Bytes ?st' = (Bytes st)(s + (HLen ?H - N) := 0)"
    by (simp_all add: SdbStringBackspace_def set_byte_def Sdb_StringSetLen_def str_arena_def SdbStringLen_def Let_def)
  have "HLen ?H - N \<le> HCap ?H" using nl b(1) by (simp add: word_le_nat_alt)
  then have "str_ok ?st' s" using assms(1) by (simp add: str_ok_def Let_def hd)
  moreover have "\<not> in_block (s + (HLen ?H - N)) s (?l - unat N)" using nl by (simp add: in_block_def)
  then have "rd (Bytes ?st') s (?l - unat N) = rd (Bytes st) s (?l - unat N)"
    using b by (simp add: hd rd_update_other)
  then have "str_abs ?st' s = (str_abs st s)\<lparr>aval := take (?l - unat N) (aval (str_abs st s))\<rparr>"
    using rd_prefix [of "?l - unat N" ?l "Bytes st" s] by (simp add: str_abs_def hd nl)
  ultimately show ?thesis by simp
qed

theorem string_backspace_witness:
  "str_ok (SdbStringBackspace str_example 40 1) 40 \<and> aval (str_abs (SdbStringBackspace str_example 40 1) 40) = []"
  using string_backspace [OF str_example_ok, of 1] by (simp add: str_example_def)

lemma SdbStringClear_Backspace:
  "SdbStringClear st s = SdbStringBackspace st s (HLen (Header st s))"
  by (simp add: SdbStringClear_def SdbStringBackspace_def SdbStringLen_def Let_def)

text \<open>Two strings compare equal exactly when they hold the same bytes.\<close>

theorem strings_are_equal_iff:
  "SdbStringsAreEqual st a b \<longleftrightarrow> aval (str_abs st a) = aval (str_abs st b)"
proof (cases "SdbStringLen st a = SdbStringLen st b")
  case True
  then show ?thesis by (simp add: SdbStringsAreEqual_def str_abs_def SdbMemcmp_eq SdbStringLen_def Let_def)
next
  case False
  then have "length (aval (str_abs st a)) \<noteq> length (aval (str_abs st b))"
    by (simp add: str_abs_def SdbStringLen_def word_unat_eq_iff)
  then show ?thesis using False by (auto simp: SdbStringsAreEqual_def)
qed

lemma disjoint_blocks_sub:
  assumes "disjoint_blocks a n b k" "n' \<le> n" "k' \<le> k"
  shows "disjoint_blocks a n' b k'"
  using assms unfolding disjoint_blocks_def in_block_def by (meson less_le_trans)

text \<open>
  A formatted append whose text fits the stack buffer (1022 characters) appends exactly
  that text; a text of more than 1024 characters makes the append read past the buffer,
  because the length \<^verbatim>\<open>vsnprintf\<close> would have needed is taken for the length it stored.
\<close>

theorem string_append_fmt:
  assumes "str_ok st s"
    and "disjoint_blocks s (unat (HCap (Header st s)) + 1) Buf 1024"
    and "disjoint_blocks (s + HLen (Header st s)) (length txt) Buf (length txt)"
  shows "(length txt \<le> 1022 \<longrightarrow> (case abs_append (str_abs st s) txt of
      None \<Rightarrow> (\<exists>st'. SdbStringAppendFmt st s Buf txt = Inr (NULL, st') \<and> str_abs st' s = str_abs st s)
    | Some b \<Rightarrow> (\<exists>st'. SdbStringAppendFmt st s Buf txt = Inr (s, st') \<and> str_ok st' s \<and> str_abs st' s = b))) \<and>
    (1024 < length txt \<longrightarrow> SdbStringAppendFmt st s Buf txt = Inl OutOfBounds)"
proof (intro conjI impI)
  show "SdbStringAppendFmt st s Buf txt = Inl OutOfBounds" if "1024 < length txt"
    using that by (simp add: SdbStringAppendFmt_def Let_def)
next
  assume n: "length txt \<le> 1022"
  let ?H = "Header st s" and ?n = "of_nat (length txt) :: u64"
  define m where "m = wr (wr (Bytes st) Buf (replicate 1024 0)) Buf (txt @ [0])"
  let ?st = "st\<lparr>Bytes := m\<rparr>"
  note b = str_ok_bounds [OF assms(1)]
  have un: "unat ?n = length txt" using n by (intro unat_of_nat_fits) simp
  have same: "m x = Bytes st x" if "in_block x s (unat (HCap ?H) + 1)" for x
  proof -
    have "\<not> in_block x Buf 1024" using assms(2) that by (auto simp: disjoint_blocks_def)
    then have "\<not> in_block x Buf (length txt + 1)" using n by (simp add: in_block_def)
    then show ?thesis using n \<open>\<not> in_block x Buf 1024\<close> by (simp add: m_def wr_apply)
  qed
  have "in_block (s + HLen ?H) s (unat (HCap ?H) + 1)" using b(1) by (simp add: in_block_def)
  then have ok: "str_ok ?st s" using assms(1) same by (simp add: str_ok_def str_arena_def Let_def)
  have "in_block (s + of_nat i) s (unat (HCap ?H) + 1)" if "i < unat (HLen ?H)" for i
    using that b by (intro in_block_rd) auto
  then have "rd m s (unat (HLen ?H)) = rd (Bytes st) s (unat (HLen ?H))"
    unfolding rd_eq_iff using b same in_block_rd [of _ "unat (HLen ?H)" s]
    by (metis same)
  then have ab: "str_abs ?st s = str_abs st s" by (simp add: str_abs_def str_arena_def)
  have "rd m Buf (length txt) = take (length txt) (rd m Buf (length (txt @ [0])))" by (rule rd_prefix) simp
  moreover have "rd m Buf (length (txt @ [0])) = txt @ [0]" unfolding m_def using n by (intro rd_wr_same) simp
  ultimately have src: "rd m Buf (length txt) = txt" by simp
  have fmt: "SdbStringAppendFmt st s Buf txt = Inr (Sdb_StringAppend ?st s Buf ?n)"
    using n by (simp add: SdbStringAppendFmt_def Let_def m_def)
  show "case abs_append (str_abs st s) txt of
      None \<Rightarrow> (\<exists>st'. SdbStringAppendFmt st s Buf txt = Inr (NULL, st') \<and> str_abs st' s = str_abs st s)
    | Some b \<Rightarrow> (\<exists>st'. SdbStringAppendFmt st s Buf txt = Inr (s, st') \<and> str_ok st' s \<and> str_abs st' s = b)"
    using string_append_core [OF ok, of ?n Buf] assms(3) n un ab src fmt
    by (auto split: option.splits)
qed

theorem string_append_fmt_witness:
  "\<exists>st'. SdbStringAppendFmt str_example 40 4096 [66, 67] = Inr (40, st') \<and>
     aval (str_abs st' 40) = [0, 66, 67]"
proof -
  have "disjoint_blocks 40 (unat (HCap (Header str_example 40)) + 1) 4096 1024"
    by (rule disjoint_blocks_linear) (simp_all add: str_example_def)
  moreover have "disjoint_blocks (40 + HLen (Header str_example 40)) (length [66, 67 :: u8]) 4096 (length [66, 67 :: u8])"
    by (rule disjoint_blocks_linear) (simp_all add: str_example_def)
  moreover have "abs_append (str_abs str_example 40) [66, 67] = Some \<lparr>aval = [0, 66, 67], acap = 3, aroom = 12\<rparr>"
    by (simp add: abs_append_def abs_space_def str_abs_def str_arena_def str_example_def rd_def upt_rec)
  ultimately show ?thesis
    using string_append_fmt [OF str_example_ok, of 4096 "[66, 67]"] by auto
qed

end
