(* ===== verification/Sdb_FileIO.thy ===== *)
theory Sdb_FileIO
  imports Sdb_Strings
begin

text \<open>
  File loading and writing, memory mappings, the tokenizer and the allocation trace of
  \<^verbatim>\<open>src/Sdb.h\<close>. What the operating system answers is an argument.
\<close>

section \<open>Loading and writing files\<close>

text \<open>
  \<open>File\<close> is the file's bytes, or \<open>None\<close> if it cannot be opened; \<open>seek_ok\<close> the outcome of the
  seek to its end; \<open>got\<close> how many bytes the read returns; \<open>heap\<close> the address \<^verbatim>\<open>calloc\<close> returns
  when no arena is given. The result is the address of the \<^verbatim>\<open>sdb_file_data\<close>: an 8-byte size
  and then the data.
\<close>

definition sizeof_sdb_file_data :: u64 where
  "sizeof_sdb_file_data = 8"

definition SdbLoadFileIntoMemory ::
  "u8 list option \<Rightarrow> bool \<Rightarrow> nat \<Rightarrow> addr \<Rightarrow> mem \<Rightarrow> sdb_arena option \<Rightarrow> addr \<times> mem \<times> sdb_arena option" where
  "SdbLoadFileIntoMemory File seek_ok got heap m Arena =
     (case File of
        None \<Rightarrow> (NULL, m, Arena)
      | Some bytes \<Rightarrow>
          if \<not> seek_ok then (NULL, m, Arena)
          else
            (let FileSize = of_nat (length bytes) :: u64;
                 FileDataSize = sizeof_sdb_file_data + FileSize + 1;
                 (FileData, m, Arena) =
                   (case Arena of
                      Some A \<Rightarrow> (let (p, A') = SdbArenaPush A FileDataSize in (p, m, Some A'))
                    | None \<Rightarrow> (heap, if heap = NULL then m else SdbMemZero m heap FileDataSize, None))
             in if FileData = NULL then (NULL, m, Arena)
                else
                  (let m = wr m FileData (le_bytes 8 (unat FileSize));
                       BytesRead = min got (length bytes);
                       m = wr m (FileData + sizeof_sdb_file_data) (take BytesRead bytes)
                   in if of_nat BytesRead \<noteq> FileSize
                      then (NULL, m, map_option (\<lambda>A. snd (SdbArenaPop A FileDataSize)) Arena)
                      else (FileData, m, Arena))))"

text \<open>Writing reports whether all elements were written; the descriptor is closed on every path.\<close>

definition SdbWriteBufferToFile :: "bool \<Rightarrow> nat \<Rightarrow> u8 list \<Rightarrow> nat \<Rightarrow> nat \<Rightarrow> bool \<times> u8 list option" where
  "SdbWriteBufferToFile open_ok written Buffer ElementSize ElementCount =
     (if \<not> open_ok then (False, None)
      else (let n = min written ElementCount
            in (n = ElementCount, Some (take (n * ElementSize) Buffer))))"

section \<open>Memory mappings\<close>

record sdb_mmap =
  MData :: addr
  MSize :: u64
  MFd :: int
  MFilename :: "string option"
  MFlagsSaved :: u32

definition MAP_FAILED :: addr where "MAP_FAILED = - 1"

definition O_TRUNC :: u32 where "O_TRUNC = 0x200"
definition MAP_SHARED :: u32 where "MAP_SHARED = 1"
definition MAP_PRIVATE :: u32 where "MAP_PRIVATE = 2"
definition MAP_ANONYMOUS :: u32 where "MAP_ANONYMOUS = 0x20"
definition MAP_LOCKED :: u32 where "MAP_LOCKED = 0x2000"
definition PROT_WRITE :: u32 where "PROT_WRITE = 2"

text \<open>
  The system calls a mapping function makes, in order. \<^verbatim>\<open>ftruncate\<close> and \<^verbatim>\<open>lseek\<close> fail on a
  negative descriptor; else their outcome, like those of the other calls, is the environment's.
\<close>

datatype os_call = Open string u32 | Ftruncate int u64 | Lseek int | Mmap int | Mlock | Munmap addr u64 | Close int

record os_env =
  open_fd :: int
  trunc_ok :: bool
  seek_ok :: bool
  mmap_at :: addr
  mlock_ok :: bool
  errno_val :: int

definition SdbMemUnmap :: "sdb_mmap \<Rightarrow> os_call list" where
  "SdbMemUnmap Map =
     (if MData Map \<noteq> NULL \<and> MData Map \<noteq> MAP_FAILED then [Munmap (MData Map) (MSize Map)] else []) @
     (if MFd Map \<ge> 0 then [Close (MFd Map)] else [])"

text \<open>
  \<^verbatim>\<open>Sdb__MemMap__\<close> after its \<^verbatim>\<open>error\<close> label, and the parts of the function between the points where
  it can fail. Each part gets the map and the calls made so far.
\<close>

definition MemMap_error :: "os_env \<Rightarrow> sdb_mmap \<Rightarrow> os_call list \<Rightarrow> int \<times> sdb_mmap \<times> os_call list" where
  "MemMap_error E Map cs = (- errno_val E, Map, cs @ SdbMemUnmap Map)"

definition MemMap_map :: "os_env \<Rightarrow> u64 \<Rightarrow> u32 \<Rightarrow> sdb_mmap \<Rightarrow> os_call list \<Rightarrow> int \<times> sdb_mmap \<times> os_call list" where
  "MemMap_map E Size MFlags Map cs =
     (let (Map, cs) = (if MFlags AND MAP_ANONYMOUS \<noteq> 0 \<and> MFd Map \<noteq> - 1
                       then (Map\<lparr>MFd := - 1\<rparr>, cs @ [Close (MFd Map)]) else (Map, cs));
          cs = cs @ [Mmap (MFd Map)];
          Map = Map\<lparr>MData := mmap_at E\<rparr>
      in if MData Map = MAP_FAILED then MemMap_error E Map cs
         else
           (let (Map, cs) = (if MFlags AND MAP_PRIVATE \<noteq> 0 \<and> MFd Map \<noteq> - 1
                             then (Map\<lparr>MFd := - 1\<rparr>, cs @ [Close (MFd Map)]) else (Map, cs));
                cs = (if MFlags AND MAP_LOCKED \<noteq> 0 then cs @ [Mlock] else cs)
            in (0, Map, cs)))"

definition MemMap_size :: "os_env \<Rightarrow> u64 \<Rightarrow> u32 \<Rightarrow> u32 \<Rightarrow> u32 \<Rightarrow> sdb_mmap \<Rightarrow> os_call list \<Rightarrow> int \<times> sdb_mmap \<times> os_call list" where
  "MemMap_size E Size MProt MFlags OFlags Map cs =
     (if OFlags AND O_TRUNC \<noteq> 0 \<or> (MFlags AND MAP_SHARED \<noteq> 0 \<and> MProt AND PROT_WRITE \<noteq> 0)
      then (let cs = cs @ [Ftruncate (MFd Map) Size]
            in if MFd Map < 0 \<or> \<not> trunc_ok E then MemMap_error E Map cs
               else (let cs = cs @ [Lseek (MFd Map)]
                     in if \<not> seek_ok E then MemMap_error E Map cs
                        else MemMap_map E Size MFlags Map cs))
      else MemMap_map E Size MFlags Map cs)"

definition Sdb_MemMap ::
  "os_env \<Rightarrow> sdb_mmap \<Rightarrow> u64 \<Rightarrow> u32 \<Rightarrow> u32 \<Rightarrow> int \<Rightarrow> string option \<Rightarrow> u32 \<Rightarrow> int \<times> sdb_mmap \<times> os_call list" where
  "Sdb_MemMap E Map Size MProt MFlags Fd FileName OFlags =
     (let Map = Map\<lparr>MSize := Size, MFd := - 1\<rparr>
      in if Fd < - 1
         then
           (let Map = (if FileName \<noteq> None then Map\<lparr>MFilename := FileName\<rparr> else Map);
                cs = [Open (case FileName of None \<Rightarrow> [] | Some f \<Rightarrow> f) (OFlags AND NOT O_TRUNC)];
                Map = Map\<lparr>MFd := open_fd E\<rparr>
            in if MFd Map = - 1 then MemMap_error E Map cs
               else MemMap_size E Size MProt MFlags OFlags Map cs)
         else MemMap_size E Size MProt MFlags OFlags (Map\<lparr>MFd := Fd\<rparr>) [])"

definition SdbMemMapSync :: "(addr \<Rightarrow> u64 \<Rightarrow> int) \<Rightarrow> sdb_mmap \<Rightarrow> int" where
  "SdbMemMapSync msync Map = msync (MData Map) (MSize Map)"

definition SdbMemMapAdvise :: "(addr \<Rightarrow> u64 \<Rightarrow> int \<Rightarrow> int) \<Rightarrow> sdb_mmap \<Rightarrow> int \<Rightarrow> int" where
  "SdbMemMapAdvise madvise Map Advice = madvise (MData Map) (MSize Map) Advice"

section \<open>The tokenizer\<close>

text \<open>
  The text from the cursor on, as a list; the scan leaves the buffer (\<open>OutOfBounds\<close>) when it does
  not meet the character it looks for. The result is the token's offset and length, the new
  cursor, and the text, in which the line end has become NUL. The test for NUL after the loop
  can only succeed, since the loop stopped at a line end.
\<close>

record sdb_token =
  TStart :: nat
  TLen :: nat

fun skip_to_tab :: "string \<Rightarrow> nat option" where
  "skip_to_tab [] = None"
| "skip_to_tab (c # cs) = (if c = CHR 0x09 then Some 0 else map_option Suc (skip_to_tab cs))"

fun token_len :: "string \<Rightarrow> nat option" where
  "token_len [] = None"
| "token_len (c # cs) = (if c = CHR 0x0A \<or> c = CHR 0x0D then Some 0 else map_option Suc (token_len cs))"

definition SdbGetNextToken :: "string \<Rightarrow> nat \<Rightarrow> (sdb_token \<times> nat \<times> string) res" where
  "SdbGetNextToken txt Cursor =
     (case skip_to_tab (drop Cursor txt) of
        None \<Rightarrow> Inl OutOfBounds
      | Some k \<Rightarrow>
          (let start = Cursor + k + 1
           in case token_len (drop start txt) of
                None \<Rightarrow> Inl OutOfBounds
              | Some n \<Rightarrow> Inr (\<lparr>TStart = start, TLen = n\<rparr>, start + n, txt[start + n := CHR 0x00])))"

section \<open>The allocation trace\<close>

text \<open>
  The traced calls behave as the untraced ones, except that a \<^verbatim>\<open>realloc\<close> of NULL, which the C
  library treats as \<^verbatim>\<open>malloc\<close>, does nothing and returns NULL. \<open>trace\<close> collects the messages.
\<close>

datatype trace_msg = TMalloc addr u64 | TCalloc addr u64 u64 u64 | TRealloc addr addr u64 | TFree addr

definition Sdb_MallocTrace :: "(u64 \<Rightarrow> addr) \<Rightarrow> u64 \<Rightarrow> trace_msg list \<Rightarrow> addr \<times> trace_msg list" where
  "Sdb_MallocTrace malloc Size trace = (malloc Size, trace @ [TMalloc (malloc Size) Size])"

definition Sdb_CallocTrace :: "(u64 \<Rightarrow> u64 \<Rightarrow> addr) \<Rightarrow> u64 \<Rightarrow> u64 \<Rightarrow> trace_msg list \<Rightarrow> addr \<times> trace_msg list" where
  "Sdb_CallocTrace calloc ElementCount ElementSize trace =
     (let Pointer = calloc ElementCount ElementSize
      in (Pointer, trace @ [TCalloc Pointer ElementCount ElementSize (ElementCount * ElementSize)]))"

definition Sdb_ReallocTrace :: "(addr \<Rightarrow> u64 \<Rightarrow> addr) \<Rightarrow> addr \<Rightarrow> u64 \<Rightarrow> trace_msg list \<Rightarrow> addr \<times> trace_msg list" where
  "Sdb_ReallocTrace realloc Pointer Size trace =
     (let Realloc = (if Pointer \<noteq> NULL then realloc Pointer Size else NULL)
      in (Realloc, trace @ [TRealloc Pointer Realloc Size]))"

definition Sdb_FreeTrace :: "addr \<Rightarrow> addr list \<Rightarrow> trace_msg list \<Rightarrow> addr list \<times> trace_msg list" where
  "Sdb_FreeTrace Pointer heap trace =
     (if Pointer \<noteq> NULL then removeAll Pointer heap else heap, trace @ [TFree Pointer])"

section \<open>What loading leaves in memory\<close>

lemma load_file_arena:
  assumes "arena_ok A" "unat (Cur A) + (length bytes + 9) \<le> unat (Cap A)" "length bytes \<le> got"
  defines "p \<equiv> Mem A + Cur A"
  shows "\<exists>m'. SdbLoadFileIntoMemory (Some bytes) True got heap m (Some A) =
      (p, m', Some (A\<lparr>Cur := Cur A + of_nat (length bytes + 9)\<rparr>)) \<and>
    of_le (rd m' p 8) = length bytes \<and> rd m' (p + 8) (length bytes) = bytes \<and>
    (\<forall>a. \<not> in_block a p (8 + length bytes) \<longrightarrow> m' a = m a)"
proof -
  let ?n = "length bytes" and ?size = "sizeof_sdb_file_data + of_nat (length bytes) + 1 :: u64"
  have cap: "unat (Cap A) < 2 ^ 63" using assms(1) by (simp add: arena_ok_def)
  have small: "?n + 9 < 2 ^ 63" using assms(2) cap by linarith
  have size: "?size = of_nat (?n + 9)" by (simp add: sizeof_sdb_file_data_def)
  have us: "unat ?size = ?n + 9" unfolding size using small by (intro unat_of_nat_fits) simp
  have un: "unat (of_nat ?n :: u64) = ?n" using small by (intro unat_of_nat_fits) simp
  have push: "SdbArenaPush A ?size = (p, A\<lparr>Cur := Cur A + of_nat (?n + 9)\<rparr>)"
    using SdbArenaPush_fits(1) [OF assms(1), of ?size] us small assms(2) by (simp add: p_def size)
  have "Cur A \<le> Cap A" using assms(1) by (simp add: arena_ok_def)
  then have p0: "p \<noteq> NULL" using mem_offset(2) [OF assms(1)] by (simp add: p_def)
  define m1 where "m1 = wr m p (le_bytes 8 ?n)"
  define m2 where "m2 = wr m1 (p + 8) bytes"
  have load: "SdbLoadFileIntoMemory (Some bytes) True got heap m (Some A) =
      (p, m2, Some (A\<lparr>Cur := Cur A + of_nat (?n + 9)\<rparr>))"
    using push p0 un assms(3)
    by (simp add: SdbLoadFileIntoMemory_def Let_def m1_def m2_def sizeof_sdb_file_data_def min_absorb2)
  have "disjoint_blocks p 8 (p + 8) ?n"
  proof -
    have "unat (p + 8) = unat p + 8" "unat p + 8 + ?n \<le> 2 ^ 64"
    proof -
      have u: "unat p = unat (Mem A) + unat (Cur A)"
        using mem_offset(1) [OF assms(1) \<open>Cur A \<le> Cap A\<close>] by (simp add: p_def)
      then show "unat p + 8 + ?n \<le> 2 ^ 64" using assms(1,2) by (simp add: arena_ok_def)
      show "unat (p + 8) = unat p + 8"
        using u assms(1,2) by (subst unat_plus_fits) (auto simp: arena_ok_def)
    qed
    then show ?thesis by (intro disjoint_blocks_linear) simp_all
  qed
  then have "rd m2 p 8 = rd m1 p 8" unfolding m2_def using small by (intro rd_wr_disjoint) simp_all
  also have "\<dots> = le_bytes 8 ?n" unfolding m1_def using rd_wr_same [of "le_bytes 8 ?n" m p] by simp
  finally have "of_le (rd m2 p 8) = ?n" using small by (simp add: of_le_le_bytes)
  moreover have "rd m2 (p + 8) ?n = bytes" unfolding m2_def using small by (intro rd_wr_same) simp
  moreover have "m2 a = m a" if "\<not> in_block a p (8 + ?n)" for a
  proof -
    have "\<not> in_block a p 8" using that by (simp add: in_block_def)
    moreover have "\<not> in_block a (p + 8) ?n"
    proof
      assume "in_block a (p + 8) ?n"
      then have lt: "unat (a - p - 8) < ?n" by (simp add: in_block_def diff_diff_eq)
      then have "unat (a - p - 8 + 8) = unat (a - p - 8) + unat (8 :: u64)"
        using small by (intro unat_plus_fits) simp
      then have "in_block a p (8 + ?n)" using lt by (simp add: in_block_def)
      then show False using that by contradiction
    qed
    ultimately show ?thesis using small by (simp add: m2_def m1_def wr_apply)
  qed
  ultimately show ?thesis using load by blast
qed

lemma load_file_short:
  assumes "arena_ok A" "unat (Cur A) + (length bytes + 9) \<le> unat (Cap A)" "got < length bytes"
  shows "\<exists>m'. SdbLoadFileIntoMemory (Some bytes) True got heap m (Some A) = (NULL, m', Some A)"
proof -
  let ?size = "sizeof_sdb_file_data + of_nat (length bytes) + 1 :: u64"
  have cap: "unat (Cap A) < 2 ^ 63" using assms(1) by (simp add: arena_ok_def)
  have small: "length bytes + 9 < 2 ^ 63" using assms(2) cap by linarith
  have "?size = of_nat (length bytes + 9)" by (simp add: sizeof_sdb_file_data_def)
  then have us: "unat ?size = length bytes + 9" using small by (simp only:) (intro unat_of_nat_fits, simp)
  have fits: "unat ?size < 2 ^ 63" "unat (Cur A) + unat ?size \<le> unat (Cap A)"
    using us small assms(2) by simp_all
  have ne: "of_nat got \<noteq> (of_nat (length bytes) :: u64)"
  proof
    assume "of_nat got = (of_nat (length bytes) :: u64)"
    moreover have "unat (of_nat got :: u64) = got" "unat (of_nat (length bytes) :: u64) = length bytes"
      using assms(3) small by (auto intro: unat_of_nat_fits)
    ultimately show False using assms(3) by simp
  qed
  show ?thesis
  proof (cases "fst (SdbArenaPush A ?size) = NULL")
    case True
    then show ?thesis using SdbArenaPush_null_iff [OF assms(1) fits(1)] fits(2) by simp
  next
    case False
    then show ?thesis using SdbArenaPush_Pop [OF assms(1) fits] ne assms(3)
      by (auto simp: SdbLoadFileIntoMemory_def Let_def case_prod_beta)
  qed
qed

section \<open>Descriptors of a mapping\<close>

text \<open>The descriptors a run of calls opened (with the given answers) and has not closed.\<close>

fun open_after :: "int \<Rightarrow> os_call list \<Rightarrow> int list \<Rightarrow> int list" where
  "open_after fd [] fds = fds"
| "open_after fd (Open f fl # cs) fds = open_after fd cs (if fd = - 1 then fds else fd # fds)"
| "open_after fd (Close d # cs) fds = open_after fd cs (remove1 d fds)"
| "open_after fd (_ # cs) fds = open_after fd cs fds"

lemma open_after_append: "open_after fd (cs @ ds) fds = open_after fd ds (open_after fd cs fds)"
  by (induction fd cs fds rule: open_after.induct) simp_all

text \<open>
  A mapping of a named file leaks no descriptor: on failure what was opened is closed, and
  on success it stays open exactly when the map keeps it in \<^verbatim>\<open>Fd\<close>, which it does not for private
  or anonymous mappings.
\<close>

theorem mem_map_descriptors:
  assumes "Fd < - 1" "open_fd E = - 1 \<or> 0 \<le> open_fd E"
    and "Sdb_MemMap E Map Size MProt MFlags Fd FileName OFlags = (ret, Map', cs)"
    and "0 < errno_val E"
  shows "open_after (open_fd E) cs [] = (if ret = 0 \<and> MFd Map' \<noteq> - 1 then [MFd Map'] else []) \<and>
    (ret = 0 \<longrightarrow> MData Map' = mmap_at E \<and>
       (MFlags AND MAP_PRIVATE \<noteq> 0 \<or> MFlags AND MAP_ANONYMOUS \<noteq> 0 \<longrightarrow> MFd Map' = - 1))"
  using assms
  by (auto simp: Sdb_MemMap_def MemMap_size_def MemMap_map_def MemMap_error_def SdbMemUnmap_def
      open_after_append Let_def split: if_splits)

theorem mem_map_descriptors_witness:
  "open_after 5 [Open ''f'' 0, Ftruncate 5 8, Lseek 5, Mmap 5] [] = [5]"
proof -
  let ?E = "\<lparr>open_fd = 5, trunc_ok = True, seek_ok = True, mmap_at = 4096, mlock_ok = True, errno_val = 1\<rparr>"
  let ?M = "\<lparr>MData = 0, MSize = 0, MFd = 0, MFilename = None, MFlagsSaved = 0\<rparr>"
  have "Sdb_MemMap ?E ?M 8 PROT_WRITE MAP_SHARED (- 2) (Some ''f'') 0 =
      (0, \<lparr>MData = 4096, MSize = 8, MFd = 5, MFilename = Some ''f'', MFlagsSaved = 0\<rparr>,
       [Open ''f'' 0, Ftruncate 5 8, Lseek 5, Mmap 5])"
    by (simp add: Sdb_MemMap_def MemMap_size_def MemMap_map_def PROT_WRITE_def MAP_SHARED_def
        MAP_ANONYMOUS_def MAP_FAILED_def MAP_PRIVATE_def MAP_LOCKED_def O_TRUNC_def)
  from mem_map_descriptors [OF _ _ this] show ?thesis by simp
qed

text \<open>
  A shared writable anonymous mapping, which the documentation of the flags offers, always
  fails: the function resizes descriptor \<open>-1\<close> first. On that path nothing was mapped, yet the
  address found in the caller's \<^verbatim>\<open>Data\<close> field is unmapped.
\<close>

theorem mem_map_anonymous_shared_fails:
  assumes "MFlags AND MAP_ANONYMOUS \<noteq> 0" "MFlags AND MAP_SHARED \<noteq> 0" "MProt AND PROT_WRITE \<noteq> 0"
  shows "\<exists>Map'. Sdb_MemMap E Map Size MProt MFlags (- 1) FileName OFlags =
    (- errno_val E, Map', Ftruncate (- 1) Size #
      (if MData Map = NULL \<or> MData Map = MAP_FAILED then [] else [Munmap (MData Map) Size]))"
  using assms by (simp add: Sdb_MemMap_def MemMap_size_def MemMap_error_def SdbMemUnmap_def)

theorem mem_map_anonymous_shared_fails_witness:
  "fst (Sdb_MemMap \<lparr>open_fd = 5, trunc_ok = True, seek_ok = True, mmap_at = 4096, mlock_ok = True, errno_val = 9\<rparr>
     \<lparr>MData = 0, MSize = 0, MFd = 0, MFilename = None, MFlagsSaved = 0\<rparr> 64 2 0x21 (- 1) None 0) = - 9"
proof -
  have "(0x21 :: u32) AND MAP_ANONYMOUS \<noteq> 0" "(0x21 :: u32) AND MAP_SHARED \<noteq> 0" "(2 :: u32) AND PROT_WRITE \<noteq> 0"
    by (simp_all add: MAP_ANONYMOUS_def MAP_SHARED_def PROT_WRITE_def)
  from mem_map_anonymous_shared_fails [OF this] show ?thesis
    by (metis (no_types, lifting) fst_conv os_env.select_convs(6))
qed

section \<open>Tokens\<close>

lemma skip_to_tab_append: "CHR 0x09 \<notin> set pre \<Longrightarrow> skip_to_tab (pre @ CHR 0x09 # cs) = Some (length pre)"
  by (induction pre) auto

lemma token_len_append:
  "\<lbrakk>CHR 0x0A \<notin> set tok; CHR 0x0D \<notin> set tok; c = CHR 0x0A \<or> c = CHR 0x0D\<rbrakk> \<Longrightarrow>
    token_len (tok @ c # cs) = Some (length tok)"
  by (induction tok) auto

text \<open>
  The tokenizer returns what lies between the next tab and the line end after it, puts NUL at
  the line end and leaves the cursor there, so that a second call goes on with the next line.
\<close>

theorem next_token:
  assumes "CHR 0x09 \<notin> set pre" "CHR 0x0A \<notin> set tok" "CHR 0x0D \<notin> set tok" "nl = CHR 0x0A \<or> nl = CHR 0x0D"
  shows "SdbGetNextToken (seen @ pre @ CHR 0x09 # tok @ nl # rest) (length seen) =
    Inr (\<lparr>TStart = length seen + length pre + 1, TLen = length tok\<rparr>,
         length seen + length pre + 1 + length tok,
         seen @ pre @ CHR 0x09 # tok @ CHR 0x00 # rest)"
proof -
  have "drop (length seen + length pre + 1) (seen @ pre @ CHR 0x09 # tok @ nl # rest) = tok @ nl # rest"
    by simp
  then show ?thesis
    using skip_to_tab_append [OF assms(1), of "tok @ nl # rest"] token_len_append [OF assms(2-4), of rest]
    by (simp add: SdbGetNextToken_def list_update_append)
qed

theorem next_token_witness:
  "SdbGetNextToken (''a'' @ [CHR 0x09] @ ''ff'' @ [CHR 0x0A] @ ''b'') 0 =
    Inr (\<lparr>TStart = 2, TLen = 2\<rparr>, 4, ''a'' @ [CHR 0x09] @ ''ff'' @ [CHR 0x00] @ ''b'')"
  using next_token [of "''a''" "''ff''" "CHR 0x0A" "[]" "''b''"] by simp

end
