(* ===== verification/Modbus_Tcp.thy ===== *)
theory Modbus_Tcp
  imports Sdb_FileIO Sdb_Time
begin

text \<open>
  TCP reception (\<^verbatim>\<open>src/Common/Socket.c\<close>), Modbus framing (\<^verbatim>\<open>src/CommProtocols/Modbus.c\<close>) and the
  frame builders of the test server and the data generator (\<^verbatim>\<open>src/DevUtils\<close>).
\<close>

section \<open>Sockets\<close>

text \<open>
  What a connection brings, in order: bytes as the network delivers them, the peer's close, a
  receive error, or a timeout or an error of \<^verbatim>\<open>select\<close>. \<open>recv\<close> takes at most \<open>Len\<close> of the first
  bytes and leaves the others; \<open>None\<close> is blocking for good. The events of \<^verbatim>\<open>select\<close> do not concern it.
\<close>

datatype net_event = Arrive "u8 list" | PeerClosed | RecvError | SelectTimeout | SelectError

fun recv :: "nat \<Rightarrow> net_event list \<Rightarrow> (int \<times> u8 list \<times> net_event list) option" where
  "recv Len [] = None"
| "recv Len (Arrive bs # es) =
     (if Len = 0 then Some (0, [], Arrive bs # es)
      else if bs = [] then recv Len es
      else if length bs \<le> Len then Some (int (length bs), bs, es)
      else Some (int Len, take Len bs, Arrive (drop Len bs) # es))"
| "recv Len (PeerClosed # es) = Some (0, [], PeerClosed # es)"
| "recv Len (RecvError # es) = Some (- 1, [], es)"
| "recv Len (SelectTimeout # es) = recv Len es"
| "recv Len (SelectError # es) = recv Len es"

text \<open>\<^verbatim>\<open>select\<close> on a readable socket returns 1, also when what is readable is the close or an error.\<close>

fun select_socket :: "net_event list \<Rightarrow> (int \<times> net_event list) option" where
  "select_socket [] = None"
| "select_socket (SelectTimeout # es) = Some (0, es)"
| "select_socket (SelectError # es) = Some (- 1, es)"
| "select_socket (Arrive [] # es) = select_socket es"
| "select_socket es = Some (1, es)"

text \<open>
  \<open>SocketRecvWithTimeout\<close> returns its result, the bytes received and what is left. The time
  given to \<^verbatim>\<open>select\<close> shows in the events.
\<close>

definition SocketRecvWithTimeout :: "nat \<Rightarrow> net_event list \<Rightarrow> (int \<times> u8 list \<times> net_event list) option" where
  "SocketRecvWithTimeout Length es =
     (case select_socket es of
        None \<Rightarrow> None
      | Some (SelectResult, es) \<Rightarrow>
          if SelectResult = - 1 then Some (- 1, [], es)
          else if SelectResult = 0 then Some (- 2, [], es)
          else
            (case recv Length es of
               None \<Rightarrow> None
             | Some (RecvResult, bs, es) \<Rightarrow>
                 if RecvResult = 0 then Some (RecvResult, [], es)
                 else if RecvResult = - 1 then Some (- 1, [], es)
                 else Some (RecvResult, bs, es)))"

text \<open>
  Connecting: the answers of \<^verbatim>\<open>socket\<close>, \<^verbatim>\<open>inet_pton\<close> and \<^verbatim>\<open>connect\<close> are given. The second component
  lists the descriptors left open.
\<close>

definition SocketCreate :: "int \<Rightarrow> (string \<Rightarrow> int) \<Rightarrow> (string \<Rightarrow> u16 \<Rightarrow> int) \<Rightarrow> string \<Rightarrow> int \<Rightarrow> int \<times> int list" where
  "SocketCreate socket inet_pton connect IpAddress Port =
     (if socket = - 1 then (- 1, [])
      else if inet_pton IpAddress \<le> 0 then (- 1, [])
      else if connect IpAddress (of_int Port) = - 1 then (- 1, [])
      else (socket, [socket]))"

section \<open>Modbus frames\<close>

definition MODBUS_PORT :: int where "MODBUS_PORT = 1312"
definition MODBUS_TCP_HEADER_LEN :: nat where "MODBUS_TCP_HEADER_LEN = 7"
definition MODBUS_PDU_MAX_SIZE :: nat where "MODBUS_PDU_MAX_SIZE = 253"
definition MODBUS_TCP_FRAME_MAX_SIZE :: nat where "MODBUS_TCP_FRAME_MAX_SIZE = 260"
definition MODBUS_READ_HOLDING_REGISTERS :: u8 where "MODBUS_READ_HOLDING_REGISTERS = 0x03"

text \<open>Writing into a buffer at an offset; past its end is out of bounds.\<close>

definition put :: "nat \<Rightarrow> u8 list \<Rightarrow> u8 list \<Rightarrow> u8 list res" where
  "put off bs buf =
     (if off + length bs \<le> length buf then Inr (take off buf @ bs @ drop (off + length bs) buf) else Inl OutOfBounds)"

text \<open>The 16-bit length field.\<close>

definition frame_length :: "u8 list \<Rightarrow> u16" where
  "frame_length Frame = of_nat (unat (Frame ! 4) * 256 + unat (Frame ! 5))"

text \<open>
  The receive loop of \<^verbatim>\<open>MbReceiveTcpFrame\<close>, used for the header and the rest: until \<open>goal\<close> bytes
  are there. \<open>Inl\<close> of the inner sum is the result to return at once.
\<close>

function recv_until :: "nat \<Rightarrow> nat \<Rightarrow> u8 list \<Rightarrow> net_event list \<Rightarrow> (int + nat \<times> u8 list \<times> net_event list) option res" where
  "recv_until goal TotalBytesRead Frame es =
     (if TotalBytesRead < goal
      then (case recv (goal - TotalBytesRead) es of
              None \<Rightarrow> Inr None
            | Some (BytesRead, bs, es) \<Rightarrow>
                if BytesRead \<le> 0 then Inr (Some (Inl BytesRead))
                else (case put TotalBytesRead bs Frame of
                        Inl f \<Rightarrow> Inl f
                      | Inr Frame \<Rightarrow> recv_until goal (TotalBytesRead + nat BytesRead) Frame es))
      else Inr (Some (Inr (TotalBytesRead, Frame, es))))"
  by auto
termination
  by (relation "measure (\<lambda>(goal, TotalBytesRead, _). goal - TotalBytesRead)") auto

declare recv_until.simps [simp del]

text \<open>
  The result is blocking (\<open>None\<close>), or the return value with the buffer and what is left of the
  connection; on an early return the buffer's contents are not meaningful.
\<close>

definition MbReceiveTcpFrame :: "u8 list \<Rightarrow> nat \<Rightarrow> net_event list \<Rightarrow> (int \<times> (u8 list \<times> net_event list) option) option res" where
  "MbReceiveTcpFrame Frame BufferSize es =
     (case recv_until MODBUS_TCP_HEADER_LEN 0 Frame es of
        Inl f \<Rightarrow> Inl f
      | Inr None \<Rightarrow> Inr None
      | Inr (Some (Inl ret)) \<Rightarrow> Inr (Some (ret, None))
      | Inr (Some (Inr (TotalBytesRead, Frame, es))) \<Rightarrow>
          (let TotalFrameSize = MODBUS_TCP_HEADER_LEN + unat (frame_length Frame)
           in if TotalFrameSize > BufferSize then Inr (Some (- 1, None))
              else (case recv_until TotalFrameSize TotalBytesRead Frame es of
                      Inl f \<Rightarrow> Inl f
                    | Inr None \<Rightarrow> Inr None
                    | Inr (Some (Inl ret)) \<Rightarrow> Inr (Some (ret, None))
                    | Inr (Some (Inr (TotalBytesRead, Frame, es))) \<Rightarrow>
                        Inr (Some (int TotalBytesRead, Some (Frame, es))))))"

text \<open>
  Parsing returns the offset of the data in the frame (\<open>None\<close> for NULL) with the unit id and
  the data length, which are stored in either case.
\<close>

definition MbParseTcpFrame :: "u8 list \<Rightarrow> nat option \<times> u16 \<times> u16" where
  "MbParseTcpFrame Frame =
     (let Length = frame_length Frame;
          UnitId = ucast (Frame ! 6);
          DataLength = ucast (Frame ! 8)
      in if unat Length \<noteq> unat DataLength + 3 then (None, UnitId, DataLength)
         else (Some 9, UnitId, DataLength))"

section \<open>Building frames\<close>

text \<open>
  \<^verbatim>\<open>GenerateModbusTcpFrame\<close> of the test server and its copy \<^verbatim>\<open>MakeModbusTcpFrame\<close>: nine header bytes and
  the data into a buffer. The function code and the data length are cut to a byte.
\<close>

definition frame_header :: "u16 \<Rightarrow> u16 \<Rightarrow> u16 \<Rightarrow> u8 \<Rightarrow> u16 \<Rightarrow> u16 \<Rightarrow> u8 list" where
  "frame_header TransactionId ProtocolId Length UnitId FunctionCode DataLength =
     [ucast (drop_bit 8 TransactionId AND 0xFF), ucast (TransactionId AND 0xFF),
      ucast (drop_bit 8 ProtocolId AND 0xFF), ucast (ProtocolId AND 0xFF),
      ucast (drop_bit 8 Length AND 0xFF), ucast (Length AND 0xFF),
      UnitId, ucast FunctionCode, ucast DataLength]"

definition GenerateModbusTcpFrame ::
  "u8 list \<Rightarrow> u16 \<Rightarrow> u16 \<Rightarrow> u16 \<Rightarrow> u8 \<Rightarrow> u16 \<Rightarrow> u8 list \<Rightarrow> u16 \<Rightarrow> u8 list res" where
  "GenerateModbusTcpFrame Buffer TransactionId ProtocolId Length UnitId FunctionCode Data DataLength =
     put 0 (frame_header TransactionId ProtocolId Length UnitId FunctionCode DataLength @ take (unat DataLength) Data) Buffer"

definition MakeModbusTcpFrame ::
  "u8 list \<Rightarrow> u16 \<Rightarrow> u16 \<Rightarrow> u16 \<Rightarrow> u8 \<Rightarrow> u16 \<Rightarrow> u8 list \<Rightarrow> u16 \<Rightarrow> u8 list res" where
  "MakeModbusTcpFrame = GenerateModbusTcpFrame"

text \<open>
  The packet of the sensor: two 8-byte integers and four doubles, packed.
  \<^verbatim>\<open>SendModbusData\<close> builds its frame for the packet's bytes in a zeroed buffer and sends
  \<^verbatim>\<open>MODBUS_TCP_HEADER_LEN + Length\<close> bytes of it.
\<close>

definition sizeof_shaft_power_data :: nat where "sizeof_shaft_power_data = 48"

definition SendModbusData :: "u8 list \<Rightarrow> u8 list res" where
  "SendModbusData SpData =
     (let DataLength = of_nat sizeof_shaft_power_data :: u16;
          Length = DataLength + 3
      in if unat Length > MODBUS_TCP_FRAME_MAX_SIZE - MODBUS_TCP_HEADER_LEN then Inr []
         else
           (let ModbusFrame = replicate MODBUS_TCP_FRAME_MAX_SIZE 0;
                Header = frame_header 1 0 Length 1 0x10 DataLength;
                Pos = length Header
            in if Pos + unat DataLength > MODBUS_TCP_FRAME_MAX_SIZE then Inr []
               else (case put 0 (Header @ take (unat DataLength) SpData) ModbusFrame of
                       Inl f \<Rightarrow> Inl f
                     | Inr ModbusFrame \<Rightarrow> Inr (take (MODBUS_TCP_HEADER_LEN + unat Length) ModbusFrame))))"

section \<open>Frames are parsed as they were built\<close>

lemma ucast_and_ff: "(ucast (w AND 0xFF :: u16) :: u8) = ucast w"
proof (rule bit_word_eqI)
  fix n assume "n < LENGTH(8)"
  moreover have m: "(0xFF :: u16) = mask 8" by (simp add: mask_eq_exp_minus_1)
  ultimately show "bit (ucast (w AND 0xFF) :: u8) n = bit (ucast w :: u8) n"
    unfolding m by (simp only: bit_ucast_iff bit_and_iff bit_mask_iff) auto
qed

lemma unat_ucast_u16: "unat (ucast (b :: u8) :: u16) = unat b"
proof -
  have "unat b < 2 ^ 16" using unat_u8_less [of b] by (rule less_trans) simp
  then show ?thesis by (simp add: unsigned_ucast_eq take_bit_nat_eq_self)
qed

lemma unat_ucast_u8: "unat (ucast (w :: u16) :: u8) = unat w mod 256"
  by (simp add: unsigned_ucast_eq take_bit_eq_mod)

lemma unat_drop8: "unat (drop_bit 8 (w :: u16)) = unat w div 256"
  by (simp only: unat_drop_bit_eq) (simp add: drop_bit_eq_div)

lemma frame_length_header:
  "frame_length (frame_header t p L u f d @ bs) = L"
proof -
  have "unat L < 2 ^ 16" using unsigned_less [of L] by simp
  then have "unat L div 256 < 256" by (intro less_mult_imp_div_less) simp
  then have "unat L div 256 mod 256 * 256 + unat L mod 256 = unat L" by simp
  then show ?thesis
    by (simp add: frame_length_def frame_header_def ucast_and_ff unat_ucast_u8 unat_drop8 del: of_nat_add of_nat_mult)
qed

lemma length_frame_header [simp]: "length (frame_header t p L u f d) = 9"
  by (simp add: frame_header_def)

lemma put_0: "length bs \<le> length buf \<Longrightarrow> put 0 bs buf = Inr (bs @ drop (length bs) buf)"
  by (simp add: put_def)

text \<open>
  C36. Parsing undoes building: a frame built for up to 255 bytes of data is accepted, with
  its unit id, its data length and its data at offset 9; a frame built for more is rejected,
  because the length byte of the frame does not hold the data length.
\<close>

theorem parse_generated_frame:
  assumes "length Data = n" "n + 3 < 2 ^ 16" "9 + n \<le> length Buffer"
  shows "\<exists>Frame. GenerateModbusTcpFrame Buffer tid pid (of_nat n + 3) unit fc Data (of_nat n) = Inr Frame \<and>
    MbParseTcpFrame Frame = (if n \<le> 255 then Some 9 else None, ucast unit, of_nat (n mod 256)) \<and>
    take n (drop 9 Frame) = Data"
proof -
  let ?H = "frame_header tid pid (of_nat n + 3) unit fc (of_nat n)"
  have n: "unat (of_nat n :: u16) = n" using assms(2) by (intro unat_of_nat_fits) simp
  have n3: "unat (of_nat n + 3 :: u16) = n + 3"
    using unat_of_nat_fits [of "n + 3", where 'a = 16] assms(2) by simp
  define Frame where "Frame = ?H @ Data @ drop (9 + n) Buffer"
  have g: "GenerateModbusTcpFrame Buffer tid pid (of_nat n + 3) unit fc Data (of_nat n) = Inr Frame"
    using assms(1,3) n put_0 [of "?H @ Data" Buffer] by (simp add: GenerateModbusTcpFrame_def Frame_def)
  have "frame_length Frame = of_nat n + 3" unfolding Frame_def by (rule frame_length_header)
  moreover have "Frame ! 6 = unit" "Frame ! 8 = ucast (of_nat n :: u16)"
    by (simp_all add: Frame_def frame_header_def)
  moreover have "unat (ucast (ucast (of_nat n :: u16) :: u8) :: u16) = n mod 256"
    unfolding unat_ucast_u16 unat_ucast_u8 n ..
  moreover from this have "(ucast (ucast (of_nat n :: u16) :: u8) :: u16) = of_nat (n mod 256)"
    by (simp only: word_unat_eq_iff) (intro unat_of_nat_fits [symmetric], simp add: le_less_trans [of _ 255])
  moreover have "(n + 3 \<noteq> n mod 256 + 3) = (\<not> n \<le> 255)"
    by (cases "n \<le> 255") (auto dest: mod_less_divisor [of 256 n])
  ultimately have "MbParseTcpFrame Frame = (if n \<le> 255 then Some 9 else None, ucast unit, of_nat (n mod 256))"
    using n3 by (auto simp: MbParseTcpFrame_def Let_def)
  moreover have "take n (drop 9 Frame) = Data" using assms(1) by (simp add: Frame_def)
  ultimately show ?thesis using g by blast
qed

theorem parse_generated_frame_witness:
  "\<exists>Frame. GenerateModbusTcpFrame (replicate 260 0) 1 0 (of_nat 2 + 3) 1 3 [7, 9] (of_nat 2) = Inr Frame \<and>
    MbParseTcpFrame Frame = (Some 9, 1, 2) \<and> take 2 (drop 9 Frame) = [7, 9]"
  using parse_generated_frame [of "[7, 9]" 2 "replicate 260 0" 1 0 1 3] by simp

end
