(* ===== verification/Modbus_Recv.thy ===== *)
theory Modbus_Recv
  imports Modbus_Tcp
begin

text \<open>
  Reception of Modbus frames over a fragmenting connection, end to end from the test server's
  frames to the packets the client gets.
\<close>

section \<open>Reassembly\<close>

lemma recv_chunks:
  assumes "0 < Len" "concat chunks \<noteq> []"
  shows "\<exists>k chunks'. recv Len (map Arrive chunks @ es) =
      Some (int k, take k (concat chunks), map Arrive chunks' @ es) \<and>
    0 < k \<and> k \<le> Len \<and> k \<le> length (concat chunks) \<and> concat chunks' = drop k (concat chunks)"
  using assms(2)
proof (induction chunks)
  case (Cons c cs)
  show ?case
  proof (cases "c = []")
    case True
    then show ?thesis using Cons assms(1) by simp
  next
    case ne: False
    show ?thesis
    proof (cases "length c \<le> Len")
      case True
      then show ?thesis using ne assms(1)
        by (intro exI [of _ "length c"] exI [of _ cs]) simp
    next
      case False
      then show ?thesis using ne assms(1)
        by (intro exI [of _ Len] exI [of _ "drop Len c # cs"]) simp
    qed
  qed
qed simp

lemma recv_until_chunks:
  assumes "tot \<le> goal" "goal \<le> length Frame" "concat chunks = X @ rest" "length X = goal - tot"
  shows "\<exists>chunks'. recv_until goal tot Frame (map Arrive chunks @ es) =
      Inr (Some (Inr (goal, take tot Frame @ X @ drop goal Frame, map Arrive chunks' @ es))) \<and> concat chunks' = rest"
  using assms
proof (induction "goal - tot" arbitrary: tot Frame chunks X rule: less_induct)
  case less
  show ?case
  proof (cases "tot = goal")
    case True
    then show ?thesis using less.prems by (subst recv_until.simps) auto
  next
    case False
    then have ne: "0 < goal - tot" "concat chunks \<noteq> []" using less.prems by auto
    obtain k chunks' where r: "recv (goal - tot) (map Arrive chunks @ es) =
        Some (int k, take k (concat chunks), map Arrive chunks' @ es)"
      and k: "0 < k" "k \<le> goal - tot" "k \<le> length (concat chunks)" "concat chunks' = drop k (concat chunks)"
      using recv_chunks [OF ne] by blast
    define F' where "F' = take tot Frame @ take k X @ drop (tot + k) Frame"
    have take: "take k (concat chunks) = take k X" using k less.prems(3,4) by simp
    have put: "put tot (take k X) Frame = Inr F'"
      using k less.prems by (simp add: put_def F'_def min_absorb2)
    have len: "length F' = length Frame" using k less.prems by (simp add: F'_def min_absorb2)
    have step: "recv_until goal tot Frame (map Arrive chunks @ es) = recv_until goal (tot + k) F' (map Arrive chunks' @ es)"
      using False less.prems(1) r take put k(1) by (subst recv_until.simps) simp
    have "concat chunks' = drop k X @ rest" using k less.prems(3,4) by simp
    moreover have "length (drop k X) = goal - (tot + k)" using less.prems(4) by simp
    moreover have "goal - (tot + k) < goal - tot" "tot + k \<le> goal" using k(1,2) False less.prems(1) by auto
    ultimately obtain chunks'' where ih: "recv_until goal (tot + k) F' (map Arrive chunks' @ es) =
        Inr (Some (Inr (goal, take (tot + k) F' @ drop k X @ drop goal F', map Arrive chunks'' @ es)))"
        "concat chunks'' = rest"
      using less.hyps [of "tot + k" F' chunks' "drop k X"] less.prems(2) len by auto
    have "take (tot + k) F' = take tot Frame @ take k X"
      using k(2) less.prems by (simp add: F'_def min_absorb2)
    moreover have "drop goal F' = drop goal Frame"
      using k(2) less.prems by (simp add: F'_def min_absorb2)
    ultimately have "take (tot + k) F' @ drop k X @ drop goal F' = take tot Frame @ X @ drop goal Frame"
      by (metis append.assoc append_take_drop_id)
    then show ?thesis using step ih by auto
  qed
qed

text \<open>A frame as the receiver delimits it: seven bytes and as many as the length field says.\<close>

definition whole_frame :: "u8 list \<Rightarrow> bool" where
  "whole_frame F \<longleftrightarrow> length F = MODBUS_TCP_HEADER_LEN + unat (frame_length F)"

lemma frame_length_take: "7 \<le> length F \<Longrightarrow> frame_length (take 7 F @ xs) = frame_length F"
  by (simp add: frame_length_def nth_append)

lemma receive_whole_frame:
  assumes "whole_frame F" "concat chunks = F @ rest" "length F \<le> BufferSize" "BufferSize \<le> length Frame"
  shows "\<exists>chunks'. MbReceiveTcpFrame Frame BufferSize (map Arrive chunks @ es) =
      Inr (Some (int (length F), Some (F @ drop (length F) Frame, map Arrive chunks' @ es))) \<and> concat chunks' = rest"
proof -
  have F: "length F = 7 + unat (frame_length F)" using assms(1) by (simp add: whole_frame_def MODBUS_TCP_HEADER_LEN_def)
  have "concat chunks = take 7 F @ (drop 7 F @ rest)" using assms(2) by simp
  then obtain chunks1 where h: "recv_until 7 0 Frame (map Arrive chunks @ es) =
      Inr (Some (Inr (7, take 7 F @ drop 7 Frame, map Arrive chunks1 @ es)))" "concat chunks1 = drop 7 F @ rest"
    using recv_until_chunks [of 0 7 Frame chunks "take 7 F"] F assms(3,4) by auto
  have fl: "frame_length (take 7 F @ drop 7 Frame) = frame_length F" using F by (intro frame_length_take) simp
  obtain chunks2 where d: "recv_until (length F) 7 (take 7 F @ drop 7 Frame) (map Arrive chunks1 @ es) =
      Inr (Some (Inr (length F, take 7 (take 7 F @ drop 7 Frame) @ drop 7 F @ drop (length F) (take 7 F @ drop 7 Frame),
        map Arrive chunks2 @ es)))" "concat chunks2 = rest"
    using recv_until_chunks [of 7 "length F" "take 7 F @ drop 7 Frame" chunks1 "drop 7 F" rest es] F h(2) assms(3,4) by auto
  have "take 7 (take 7 F @ drop 7 Frame) @ drop 7 F @ drop (length F) (take 7 F @ drop 7 Frame) = F @ drop (length F) Frame"
  proof -
    have "7 \<le> length F" using F by simp
    then show ?thesis by simp
  qed
  then show ?thesis using h(1) d fl F assms(3)
    by (intro exI [of _ chunks2]) (simp add: MbReceiveTcpFrame_def MODBUS_TCP_HEADER_LEN_def)
qed



section \<open>From the test server to the packets\<close>

text \<open>The client side: receive a frame into a zeroed buffer of the maximal size, parse it, take the data.\<close>

fun recv_packets :: "nat \<Rightarrow> net_event list \<Rightarrow> u8 list list option" where
  "recv_packets 0 es = Some []"
| "recv_packets (Suc k) es =
     (case MbReceiveTcpFrame (replicate MODBUS_TCP_FRAME_MAX_SIZE 0) MODBUS_TCP_FRAME_MAX_SIZE es of
        Inr (Some (n, Some (Frame, es))) \<Rightarrow>
          (case MbParseTcpFrame Frame of
             (Some off, UnitId, DataLength) \<Rightarrow>
               map_option ((#) (take (unat DataLength) (drop off Frame))) (recv_packets k es)
           | _ \<Rightarrow> None)
      | _ \<Rightarrow> None)"

definition sent_frame :: "u8 list \<Rightarrow> u8 list" where
  "sent_frame p = frame_header 1 0 51 1 0x10 48 @ p @ [0]"

lemma SendModbusData_eq: "length p = 48 \<Longrightarrow> SendModbusData p = Inr (sent_frame p)"
  by (simp add: SendModbusData_def sizeof_shaft_power_data_def MODBUS_TCP_FRAME_MAX_SIZE_def
      MODBUS_TCP_HEADER_LEN_def put_0 sent_frame_def take_replicate)

lemma whole_sent_frame: "length p = 48 \<Longrightarrow> whole_frame (sent_frame p)"
  by (simp add: whole_frame_def sent_frame_def frame_length_header MODBUS_TCP_HEADER_LEN_def)

lemma length_sent_frame: "length p = 48 \<Longrightarrow> length (sent_frame p) = 58"
  by (simp add: sent_frame_def)

lemma parse_sent_frame:
  assumes "length p = 48"
  shows "MbParseTcpFrame (sent_frame p @ zs) = (Some 9, 1, 48)"
    and "take 48 (drop 9 (sent_frame p @ zs)) = p"
proof -
  have "frame_length (sent_frame p @ zs) = 51" by (simp add: sent_frame_def frame_length_header)
  moreover have "(sent_frame p @ zs) ! 6 = 1" "(sent_frame p @ zs) ! 8 = 48"
    by (simp_all add: sent_frame_def frame_header_def)
  ultimately show "MbParseTcpFrame (sent_frame p @ zs) = (Some 9, 1, 48)"
    by (simp add: MbParseTcpFrame_def)
  show "take 48 (drop 9 (sent_frame p @ zs)) = p" using assms by (simp add: sent_frame_def)
qed

lemma received_frames:
  assumes "\<forall>p\<in>set ps. length p = sizeof_shaft_power_data"
    and "\<forall>p\<in>set ps. SendModbusData p = Inr (frame p)" "concat chunks = concat (map frame ps)"
  shows "recv_packets (length ps) (map Arrive chunks) = Some ps"
  using assms
proof (induction ps arbitrary: chunks)
  case (Cons p ps)
  have p: "length p = 48" using Cons.prems(1) by (simp add: sizeof_shaft_power_data_def)
  then have f: "frame p = sent_frame p" using Cons.prems(2) SendModbusData_eq [OF p] by simp
  have "concat chunks = sent_frame p @ concat (map frame ps)" using Cons.prems(3) f by simp
  then obtain chunks' where r: "MbReceiveTcpFrame (replicate 260 0) 260 (map Arrive chunks) =
      Inr (Some (int 58, Some (sent_frame p @ drop 58 (replicate 260 0), map Arrive chunks')))"
    "concat chunks' = concat (map frame ps)"
    using receive_whole_frame [OF whole_sent_frame [OF p], of chunks _ 260 "replicate 260 0" "[]"]
      length_sent_frame [OF p] by auto
  have "recv_packets (length ps) (map Arrive chunks') = Some ps"
    using Cons.IH Cons.prems(1,2) r(2) by simp
  then show ?case using r(1) parse_sent_frame(1) [OF p] parse_sent_frame(2) [OF p, of "[]"] length_sent_frame [OF p]
    by (simp add: MODBUS_TCP_FRAME_MAX_SIZE_def)
qed simp

text \<open>
  The test server and the receiver understand each other: whatever packets the server
  sends, and however the connection cuts the stream of their frames, receiving and parsing one
  frame after the other yields exactly the packets, in order.
\<close>

theorem server_to_client:
  assumes "\<forall>p\<in>set ps. length p = sizeof_shaft_power_data"
    and "\<forall>p\<in>set ps. SendModbusData p = Inr (frame p)" "concat chunks = concat (map frame ps)"
  shows "recv_packets (length ps) (map Arrive chunks) = Some ps"
  using assms by (rule received_frames)

theorem server_to_client_witness:
  "recv_packets 2 (map Arrive [take 5 (sent_frame (replicate 48 7)), drop 5 (sent_frame (replicate 48 7)) @
     sent_frame (replicate 48 9)]) = Some [replicate 48 7, replicate 48 9]"
proof -
  have len: "\<forall>p\<in>set [replicate 48 7, replicate 48 9 :: u8 list]. length p = sizeof_shaft_power_data"
    by (simp add: sizeof_shaft_power_data_def)
  have snd: "\<forall>p\<in>set [replicate 48 7, replicate 48 9 :: u8 list]. SendModbusData p = Inr (sent_frame p)"
    using SendModbusData_eq [of "replicate 48 7"] SendModbusData_eq [of "replicate 48 9"] by simp
  have two: "2 = length [replicate 48 7, replicate 48 9 :: u8 list]" by simp
  show ?thesis unfolding two by (rule server_to_client [OF len snd]) simp
qed

text \<open>
  The receiver counts one byte too many: the length field counts the bytes after itself,
  the unit id included, so a conforming frame has six bytes and that many, but \<^verbatim>\<open>MbReceiveTcpFrame\<close>
  takes seven and that many. After a conforming frame the first byte of the next one is gone.
\<close>

theorem mb_receive_swallows_byte:
  assumes "7 \<le> length F" "length F = 6 + unat (frame_length F)"
    and "concat chunks = F @ b # rest" "length F < BufferSize" "BufferSize \<le> length Frame"
  shows "\<exists>chunks'. MbReceiveTcpFrame Frame BufferSize (map Arrive chunks) =
      Inr (Some (int (Suc (length F)), Some (F @ b # drop (Suc (length F)) Frame, map Arrive chunks'))) \<and>
    concat chunks' = rest"
proof -
  have "frame_length (F @ [b]) = frame_length F" using assms(1) by (simp add: frame_length_def nth_append)
  then have "whole_frame (F @ [b])" using assms(2) by (simp add: whole_frame_def MODBUS_TCP_HEADER_LEN_def)
  then show ?thesis using receive_whole_frame [of "F @ [b]" chunks rest BufferSize Frame "[]"] assms(3-5) by auto
qed

theorem mb_receive_swallows_byte_witness:
  "\<exists>chunks'. MbReceiveTcpFrame (replicate 260 0) 260 (map Arrive [[0, 1, 0, 0, 0, 3, 1, 16, 0, 0xAA, 0xBB]]) =
     Inr (Some (10, Some ([0, 1, 0, 0, 0, 3, 1, 16, 0, 0xAA] @ replicate 250 0, map Arrive chunks'))) \<and> concat chunks' = [0xBB]"
  using mb_receive_swallows_byte [of "[0, 1, 0, 0, 0, 3, 1, 16, 0]" "[[0, 1, 0, 0, 0, 3, 1, 16, 0, 0xAA, 0xBB]]"
      "0xAA" "[0xBB]" 260 "replicate 260 0"]
  by (simp add: frame_length_def)

end
