(* ===== verification/Modbus_Ctx.thy ===== *)
theory Modbus_Ctx
  imports Modbus_Tcp Sdb_Misc
begin

text \<open>
  The Modbus context of \<^verbatim>\<open>src/CommProtocols/Modbus.c\<close>: the configuration file, the connection made
  from it, and what a connection attempt takes from the thread's arena.
\<close>

section \<open>The configuration file\<close>

fun split_lines :: "string \<Rightarrow> string list" where
  "split_lines [] = [[]]"
| "split_lines (c # cs) =
     (if c = CHR 0x0A then [] # split_lines cs
      else (case split_lines cs of [] \<Rightarrow> [[c]] | l # ls \<Rightarrow> (c # l) # ls))"

text \<open>\<^verbatim>\<open>strtok\<close> with a newline as the only delimiter returns the lines that are not empty.\<close>

definition strtok_lines :: "string \<Rightarrow> string list" where
  "strtok_lines s = filter (\<lambda>l. l \<noteq> []) (split_lines s)"

text \<open>\<^verbatim>\<open>atoi\<close>: white space, an optional sign, digits.\<close>

definition atoi :: "string \<Rightarrow> int" where
  "atoi s =
     (let t = dropWhile isspace s
      in case t of
           [] \<Rightarrow> 0
         | c # r \<Rightarrow>
             if c = CHR ''-'' then - int (digits_value (takeWhile isdigit r))
             else if c = CHR ''+'' then int (digits_value (takeWhile isdigit r))
             else int (digits_value (takeWhile isdigit t)))"

text \<open>The loop over the lines; a later line replaces what an earlier one set.\<close>

fun conf_loop :: "string list \<Rightarrow> string option \<Rightarrow> int \<Rightarrow> string option \<times> int" where
  "conf_loop [] IpAddr Port = (IpAddr, Port)"
| "conf_loop (Line # ls) IpAddr Port =
     (if take 9 Line = ''ipv4Addr='' then conf_loop ls (Some (drop 9 Line)) Port
      else if take 5 Line = ''port='' then conf_loop ls IpAddr (atoi (drop 5 Line))
      else conf_loop ls IpAddr Port)"

definition mb_conf :: "string \<Rightarrow> string option \<times> int" where
  "mb_conf Content = conf_loop (strtok_lines Content) None (- 1)"

section \<open>Preparing the context\<close>

record mb_conn =
  SockFd :: int
  Port :: int
  Ip :: string

record modbus_ctx =
  ConnCount :: u64
  Conns :: "mb_conn list"

definition sizeof_modbus_ctx :: u64 where "sizeof_modbus_ctx = 16"
definition sizeof_mb_conn :: u64 where "sizeof_mb_conn = 16"

text \<open>
  The C string at the file's data: the file up to a NUL in it, or, as the loader puts none after
  the file, going on with what the arena's memory holds behind it (\<open>behind\<close>, up to its NUL).
\<close>

definition conf_text :: "string \<Rightarrow> string \<Rightarrow> string" where
  "conf_text file behind = takeWhile (\<lambda>c. c \<noteq> CHR 0x00) (file @ behind)"

text \<open>
  \<open>scratch_ok\<close>: the thread has a scratch arena; \<open>file\<close>: the configuration file, if it can be opened;
  \<open>sock\<close>: what \<^verbatim>\<open>SocketCreate\<close> returns for an address and port. The string for the address
  is pushed as \<^verbatim>\<open>SdbStringMake\<close> does; if that fails, \<^verbatim>\<open>SocketCreate\<close> is called with NULL.
\<close>

definition MbPrepareCtx ::
  "bool \<Rightarrow> string option \<Rightarrow> string \<Rightarrow> (string \<Rightarrow> int \<Rightarrow> int) \<Rightarrow> mem \<Rightarrow> sdb_arena \<Rightarrow>
     (modbus_ctx option \<times> mem \<times> sdb_arena) res" where
  "MbPrepareCtx scratch_ok file behind sock m MbArena =
     (let (MbCtx, MbArena) = SdbArenaPush MbArena sizeof_modbus_ctx
      in if MbCtx = NULL then Inl NullDeref
         else
           (let Count = 1 :: u64;
                (ConnsAt, MbArena) = SdbArenaPush MbArena (sizeof_mb_conn * Count)
            in if \<not> scratch_ok then Inr (None, m, MbArena)
               else
                 (let (ConfFile, m, A') = SdbLoadFileIntoMemory (map_option (map of_char) file) True
                        (case file of None \<Rightarrow> 0 | Some f \<Rightarrow> length f) NULL m (Some MbArena);
                      MbArena = (case A' of Some A \<Rightarrow> A | None \<Rightarrow> MbArena)
                  in if ConfFile = NULL then Inr (None, m, MbArena)
                     else
                       (let (IpAddr, P) = mb_conf (conf_text (case file of None \<Rightarrow> [] | Some f \<Rightarrow> f) behind)
                        in case IpAddr of
                             None \<Rightarrow> Inr (None, m, MbArena)
                           | Some ip \<Rightarrow>
                               if P = - 1 then Inr (None, m, MbArena)
                               else if ConnsAt = NULL then Inl NullDeref
                               else
                                 (let (s, MbArena) = SdbArenaPush MbArena (HeaderSize + of_nat (length ip) + 1);
                                      fd = sock ip P
                                  in if s = NULL then Inl NullDeref
                                     else if fd = - 1 then Inr (None, m, MbArena)
                                     else Inr (Some \<lparr>ConnCount = Count,
                                            Conns = [\<lparr>SockFd = fd, Port = P, Ip = ip\<rparr>]\<rparr>, m, MbArena))))))"

section \<open>What the file says\<close>

lemma split_lines_append:
  "CHR 0x0A \<notin> set l \<Longrightarrow> split_lines (l @ CHR 0x0A # s) = l # split_lines s"
  by (induction l) auto

lemma split_lines_last: "CHR 0x0A \<notin> set l \<Longrightarrow> split_lines l = [l]"
  by (induction l) auto

lemma atoi_decimal: "atoi (decimal n) = int n"
proof -
  obtain c cs where c: "decimal n = c # cs" using decimal_nonempty by (cases "decimal n") auto
  then have d: "isdigit c" using decimal_digits [of n] by simp
  have "takeWhile isdigit (decimal n) = decimal n" using decimal_digits [of n] by (simp add: takeWhile_eq_all_conv)
  then show ?thesis using c isdigit_facts [OF d] decimal_value [of n] by (simp add: atoi_def Let_def)
qed

lemma decimal_no_newline: "CHR 0x0A \<notin> set (decimal n)" "CHR 0x00 \<notin> set (decimal n)"
  using decimal_digits [of n] by (auto simp: isdigit_def)

text \<open>
  The configuration file is read as it is written: a line with the address and a last line
  with the port, not ended by a newline, as in the repository's file, are understood when the
  memory behind the file starts with NUL. Digits behind it would be taken into the port.
\<close>

theorem mb_conf_reads:
  assumes "CHR 0x0A \<notin> set ip" "CHR 0x00 \<notin> set ip"
  shows "mb_conf (conf_text (''ipv4Addr='' @ ip @ CHR 0x0A # ''port='' @ decimal n) []) = (Some ip, int n) \<and>
    mb_conf (conf_text (''ipv4Addr='' @ ip @ CHR 0x0A # ''port='' @ decimal n) (decimal k @ CHR 0x00 # junk)) =
      (Some ip, atoi (decimal n @ decimal k))"
proof -
  let ?l1 = "''ipv4Addr='' @ ip" and ?l2 = "\<lambda>d. ''port='' @ d"
  have nul: "CHR 0x00 \<notin> set (?l1 @ CHR 0x0A # ?l2 (decimal n) @ decimal k)" "CHR 0x00 \<notin> set (?l1 @ CHR 0x0A # ?l2 (decimal n))"
    using assms decimal_no_newline by auto
  have tx: "conf_text (?l1 @ CHR 0x0A # ?l2 (decimal n)) [] = ?l1 @ CHR 0x0A # ?l2 (decimal n)"
    "conf_text (?l1 @ CHR 0x0A # ?l2 (decimal n)) (decimal k @ CHR 0x00 # junk) = ?l1 @ CHR 0x0A # ?l2 (decimal n @ decimal k)"
  proof -
    show "conf_text (?l1 @ CHR 0x0A # ?l2 (decimal n)) [] = ?l1 @ CHR 0x0A # ?l2 (decimal n)"
      using nul(2) unfolding conf_text_def by (simp only: append_Nil2 takeWhile_eq_all_conv) blast
    have e: "(?l1 @ CHR 0x0A # ?l2 (decimal n)) @ decimal k @ CHR 0x00 # junk =
        (?l1 @ CHR 0x0A # ?l2 (decimal n @ decimal k)) @ CHR 0x00 # junk" by simp
    show "conf_text (?l1 @ CHR 0x0A # ?l2 (decimal n)) (decimal k @ CHR 0x00 # junk) = ?l1 @ CHR 0x0A # ?l2 (decimal n @ decimal k)"
      unfolding conf_text_def e using nul(1) by (subst takeWhile_append2) auto
  qed
  have lines: "mb_conf (?l1 @ CHR 0x0A # ?l2 d) = (Some ip, atoi d)" if "CHR 0x0A \<notin> set d" for d
  proof -
    have "split_lines (?l1 @ CHR 0x0A # ?l2 d) = [?l1, ?l2 d]"
      using split_lines_append [of ?l1 "?l2 d"] split_lines_last [of "?l2 d"] assms(1) that by simp
    then show ?thesis by (simp add: mb_conf_def strtok_lines_def)
  qed
  have "CHR 0x0A \<notin> set (decimal n @ decimal k)" using decimal_no_newline by simp
  then show ?thesis
    using tx lines [of "decimal n"] lines [of "decimal n @ decimal k"] decimal_no_newline(1) [of n] atoi_decimal [of n]
    by (simp only: append.assoc append_Cons) simp
qed

theorem mb_conf_reads_witness:
  "mb_conf (conf_text (''ipv4Addr='' @ ''127.0.0.1'' @ CHR 0x0A # ''port='' @ decimal 1312) []) = (Some ''127.0.0.1'', 1312)"
  using mb_conf_reads [of "''127.0.0.1''" 1312] by simp

section \<open>What an attempt takes from the arena\<close>

lemma push_grows:
  assumes "arena_ok A" "unat Size < 2 ^ 63" "SdbArenaPush A Size = (p, A')"
  shows "arena_ok A'" "Cap A' = Cap A" "unat (Cur A) \<le> unat (Cur A')"
    and "p \<noteq> NULL \<Longrightarrow> unat (Cur A') = unat (Cur A) + unat Size"
proof -
  have "arena_ok A' \<and> Cap A' = Cap A \<and> unat (Cur A) \<le> unat (Cur A') \<and>
      (p \<noteq> NULL \<longrightarrow> unat (Cur A') = unat (Cur A) + unat Size)"
  proof (cases "unat (Cur A) + unat Size \<le> unat (Cap A)")
    case True
    then show ?thesis using SdbArenaPush_fits [OF assms(1,2) True] push_no_wrap [OF assms(1,2)] assms(3) by auto
  next
    case False
    then show ?thesis using SdbArenaPush_full [OF assms(1,2)] assms(1,3) by auto
  qed
  then show "arena_ok A'" "Cap A' = Cap A" "unat (Cur A) \<le> unat (Cur A')"
    "p \<noteq> NULL \<Longrightarrow> unat (Cur A') = unat (Cur A) + unat Size" by auto
qed

lemma load_whole_arena:
  "SdbLoadFileIntoMemory File True (case File of None \<Rightarrow> 0 | Some f \<Rightarrow> length f) heap m (Some A) = (p, m', A') \<Longrightarrow>
    A' = Some A \<or> (\<exists>f. File = Some f \<and> A' = Some (snd (SdbArenaPush A (sizeof_sdb_file_data + of_nat (length f) + 1))))"
  by (auto simp: SdbLoadFileIntoMemory_def Let_def case_prod_beta split: option.splits if_splits)

lemma split_lines_short: "l \<in> set (split_lines s) \<Longrightarrow> length l \<le> length s"
proof (induction s arbitrary: l)
  case (Cons c cs)
  show ?case
  proof (cases "split_lines cs")
    case Nil
    then show ?thesis using Cons by (auto split: if_splits)
  next
    case (Cons l' ls)
    then show ?thesis using Cons.IH [of l] Cons.IH [of l'] Cons.prems by (auto split: if_splits)
  qed
qed simp

lemma conf_loop_short:
  "\<lbrakk>conf_loop ls i p = (Some ip, q); \<forall>l\<in>set ls. length l \<le> n; \<forall>x. i = Some x \<longrightarrow> length x \<le> n\<rbrakk> \<Longrightarrow> length ip \<le> n"
  by (induction ls i p rule: conf_loop.induct) (auto split: if_splits)

lemma mb_conf_short:
  assumes "mb_conf (conf_text f b) = (Some ip, q)"
  shows "length ip \<le> length f + length b"
proof -
  have "length (conf_text f b) \<le> length f + length b"
    using length_takeWhile_le [of _ "f @ b"] by (simp add: conf_text_def)
  then have "\<forall>l\<in>set (strtok_lines (conf_text f b)). length l \<le> length f + length b"
    using split_lines_short by (fastforce simp: strtok_lines_def)
  then show ?thesis using assms by (intro conf_loop_short) (auto simp: mb_conf_def)
qed

definition short_conf :: "string option \<Rightarrow> string \<Rightarrow> bool" where
  "short_conf file behind \<longleftrightarrow> (case file of None \<Rightarrow> 0 | Some f \<Rightarrow> length f) + length behind < 2 ^ 62"

lemma MbPrepareCtx_grows:
  assumes "arena_ok A" "short_conf file behind"
    and "MbPrepareCtx scratch_ok file behind sock m A = Inr (c, m', A')"
  shows "arena_ok A' \<and> Cap A' = Cap A \<and> unat (Cur A) + 16 \<le> unat (Cur A')"
proof -
  obtain p1 A1 where p1: "SdbArenaPush A 16 = (p1, A1)" by fastforce
  obtain p2 A2 where p2: "SdbArenaPush A1 16 = (p2, A2)" by fastforce
  obtain p3 m3 A3' where p3: "SdbLoadFileIntoMemory (map_option (map of_char) file) True
      (case file of None \<Rightarrow> 0 | Some f \<Rightarrow> length f) NULL m (Some A2) = (p3, m3, A3')" using prod_cases3 by blast
  note sizes = sizeof_modbus_ctx_def sizeof_mb_conn_def
  have nn: "p1 \<noteq> NULL" using assms(3) p1 by (auto simp: MbPrepareCtx_def sizes)
  have g1: "arena_ok A1" "Cap A1 = Cap A" "unat (Cur A1) = unat (Cur A) + 16"
    using push_grows [OF assms(1) _ p1] nn by simp_all
  have g2: "arena_ok A2" "Cap A2 = Cap A" "unat (Cur A1) \<le> unat (Cur A2)"
    using push_grows [OF g1(1) _ p2] g1(2) by simp_all
  have len: "(case map_option (map of_char) file of None \<Rightarrow> 0 | Some f \<Rightarrow> length (f :: u8 list)) =
      (case file of None \<Rightarrow> 0 | Some f \<Rightarrow> length f)" by (cases "file") auto
  have "\<exists>A3. A3' = Some A3 \<and> arena_ok A3 \<and> Cap A3 = Cap A \<and> unat (Cur A2) \<le> unat (Cur A3)"
    using load_whole_arena [OF p3 [folded len]]
  proof
    assume "A3' = Some A2"
    then show ?thesis using g2 by simp
  next
    assume "\<exists>f. map_option (map of_char) file = Some f \<and>
      A3' = Some (snd (SdbArenaPush A2 (sizeof_sdb_file_data + of_nat (length f) + 1)))"
    then obtain f where f: "file = Some f" "A3' = Some (snd (SdbArenaPush A2 (sizeof_sdb_file_data + of_nat (length f) + 1)))"
      by auto
    have e: "sizeof_sdb_file_data + of_nat (length f) + 1 = (of_nat (length f + 9) :: u64)" by (simp add: sizeof_sdb_file_data_def)
    have "unat (of_nat (length f + 9) :: u64) < 2 ^ 63"
    proof -
      have l: "length f + 9 < 2 ^ 63" using assms(2) f(1) by (simp add: short_conf_def)
      then have "unat (of_nat (length f + 9) :: u64) = length f + 9" by (intro unat_of_nat_fits) simp
      then show ?thesis using l by simp
    qed
    then show ?thesis
      using push_grows [OF g2(1), of "of_nat (length f + 9)"] g2 f(2) [unfolded e]
      by (cases "SdbArenaPush A2 (of_nat (length f + 9))") (simp del: of_nat_add)
  qed
  then obtain A3 where A3: "A3' = Some A3" and g3: "arena_ok A3" "Cap A3 = Cap A" "unat (Cur A2) \<le> unat (Cur A3)" by blast
  show ?thesis
  proof (cases "A' = A2 \<or> A' = A3")
    case True
    then show ?thesis using g1 g2 g3 by auto
  next
    case False
    then obtain f where f: "file = Some f"
      using assms(3) p1 p2 p3 nn A3
      by (cases "file") (auto simp: MbPrepareCtx_def sizes SdbLoadFileIntoMemory_def split: if_splits)
    obtain ip P where ip: "mb_conf (conf_text f behind) = (Some ip, P)"
        "A' = snd (SdbArenaPush A3 (HeaderSize + of_nat (length ip) + 1))"
      using assms(3) False p1 p2 p3 nn A3
      by (cases "mb_conf (conf_text f behind)")
         (auto simp: MbPrepareCtx_def sizes f case_prod_beta Let_def split: if_splits option.splits)
    have "length ip + 25 < 2 ^ 63" using mb_conf_short [OF ip(1)] assms(2)
      by (simp add: short_conf_def f)
    then have l: "unat (of_nat (length ip + 25) :: u64) < 2 ^ 63"
      by (subst unat_of_nat_fits) auto
    have e: "HeaderSize + of_nat (length ip) + 1 = (of_nat (length ip + 25) :: u64)" by (simp add: HeaderSize_def)
    obtain p4 A4 where p4: "SdbArenaPush A3 (of_nat (length ip + 25)) = (p4, A4)" by fastforce
    have "A' = A4" using ip(2) unfolding e p4 by simp
    then show ?thesis using push_grows [OF g3(1) l p4] g1 g2 g3 by simp
  qed
qed

lemma MbPrepareCtx_fault: "MbPrepareCtx scratch_ok file behind sock m A = Inl f \<Longrightarrow> f = NullDeref"
  by (auto simp: MbPrepareCtx_def Let_def case_prod_beta split: if_splits option.splits)

text \<open>
  The attempts of the Modbus thread's reconnection loop, which prepares a new context each time.
  \<open>env\<close> gives for each attempt whether there is a scratch arena, the file, what lies behind it and
  what connecting returns.
\<close>

fun mb_attempts :: "nat \<Rightarrow> (nat \<Rightarrow> bool \<times> string option \<times> string \<times> (string \<Rightarrow> int \<Rightarrow> int)) \<Rightarrow> mem \<Rightarrow> sdb_arena \<Rightarrow>
    (mem \<times> sdb_arena) res" where
  "mb_attempts 0 env m A = Inr (m, A)"
| "mb_attempts (Suc k) env m A =
     (let (scratch_ok, file, behind, sock) = env k
      in case MbPrepareCtx scratch_ok file behind sock m A of
           Inl f \<Rightarrow> Inl f
         | Inr (c, m, A) \<Rightarrow> mb_attempts k env m A)"

lemma mb_attempts_fault:
  assumes "arena_ok A" "\<forall>i. short_conf (fst (snd (env i))) (fst (snd (snd (env i))))"
    and "unat (Cap A) < unat (Cur A) + 16 * k"
  shows "mb_attempts k env m A = Inl NullDeref"
  using assms
proof (induction k arbitrary: m A)
  case 0
  then show ?case by (simp add: arena_ok_def word_le_nat_alt)
next
  case (Suc k)
  obtain sc fl behind sock where e: "env k = (sc, fl, behind, sock)" using prod_cases4 by blast
  show ?case
  proof (cases "MbPrepareCtx sc fl behind sock m A")
    case (Inl f)
    then show ?thesis using MbPrepareCtx_fault [OF Inl] e by simp
  next
    case (Inr r)
    obtain c m' A' where r: "r = (c, m', A')" by (cases r)
    have sh: "short_conf fl behind" using Suc.prems(2) e by (metis fst_conv snd_conv)
    have "arena_ok A' \<and> Cap A' = Cap A \<and> unat (Cur A) + 16 \<le> unat (Cur A')"
      using MbPrepareCtx_grows [OF Suc.prems(1) sh] Inr r by blast
    then show ?thesis using Suc.IH [of A' m'] Suc.prems(2,3) e Inr r by auto
  qed
qed

text \<open>
  The reconnection loop cannot go on for good: every attempt, whether it connects or fails,
  takes at least 16 bytes of the thread's arena and gives none back, so after at most one
  attempt more than the capacity holds the context's allocation returns NULL and is used.
\<close>

theorem mb_reconnect_exhausts:
  assumes "arena_ok A" "\<forall>i. short_conf (fst (snd (env i))) (fst (snd (snd (env i))))"
  shows "mb_attempts (Suc (unat (Cap A) div 16)) env m A = Inl NullDeref"
proof (rule mb_attempts_fault [OF assms])
  have "unat (Cap A) < 16 * Suc (unat (Cap A) div 16)" by presburger
  then show "unat (Cap A) < unat (Cur A) + 16 * Suc (unat (Cap A) div 16)" by simp
qed

theorem mb_reconnect_exhausts_witness:
  "mb_attempts 65 (\<lambda>_. (True, Some ''ipv4Addr=1'', [], \<lambda>_ _. - 1)) (\<lambda>_. 0) \<lparr>Cur = 0, Cap = 1024, Mem = 4096\<rparr> = Inl NullDeref"
  using mb_reconnect_exhausts [of "\<lparr>Cur = 0, Cap = 1024, Mem = 4096\<rparr>" "\<lambda>_. (True, Some ''ipv4Addr=1'', [], \<lambda>_ _. - 1)"]
  by (simp add: arena_ok_def short_conf_def del: mb_attempts.simps)

end
