(* ===== verification/Sensor_Pipe.thy ===== *)
theory Sensor_Pipe
  imports Sdb_Scratch
begin

text \<open>
  The sensor data pipe of \<^verbatim>\<open>src/Common/SensorDataPipe.c\<close>: a ring of arenas handed from one
  writer thread to one reader thread, with two eventfd counters for blocking. First the
  functions as the code has them, then the pipe under concurrency: every atomic access and
  every eventfd call is one step of \<open>pipe_step\<close>, and writer and reader interleave freely.
\<close>

section \<open>The pipe\<close>

text \<open>
  The two descriptors are represented by the counters behind them; \<open>Buffers\<close> is the array of
  pointers to the buffer arenas, NULL where the allocation of one failed.
\<close>

record sensor_data_pipe =
  BufferMaxFill :: u64
  PacketSize :: u64
  ItemMaxCount :: u64
  WriteBufIdx :: u32
  ReadBufIdx :: u32
  FullBuffersCount :: u32
  ReadEvent :: u64
  WriteEvent :: u64
  BufCount :: u64
  Buffers :: "addr list"

text \<open>
  An eventfd made without \<^verbatim>\<open>EFD_SEMAPHORE\<close>: a read blocks on a zero counter and else returns
  the counter and resets it, a write adds and blocks if the sum would exceed \<open>2^64 - 2\<close>.
  \<open>None\<close> is blocking.
\<close>

definition eventfd_read :: "u64 \<Rightarrow> (u64 \<times> u64) option" where
  "eventfd_read c = (if c = 0 then None else Some (c, 0))"

definition eventfd_write :: "u64 \<Rightarrow> u64 \<Rightarrow> u64 option" where
  "eventfd_write v c = (if unat c + unat v \<le> 2 ^ 64 - 2 then Some (c + v) else None)"

datatype 'a call = Returns 'a | Blocks

definition NextBuf :: "u64 \<Rightarrow> u32 \<Rightarrow> u32" where
  "NextBuf Count i = ucast ((ucast (i + 1) :: u64) mod Count)"

subsection \<open>Creation\<close>

definition sizeof_sensor_data_pipe :: u64 where
  "sizeof_sensor_data_pipe = 64"

fun SdpCreate_loop :: "nat \<Rightarrow> u64 \<Rightarrow> sdb_arena \<Rightarrow> arena_store \<Rightarrow> addr list \<times> sdb_arena \<times> arena_store" where
  "SdpCreate_loop 0 BufSize Arena st = ([], Arena, st)"
| "SdpCreate_loop (Suc b) BufSize Arena st =
     (let (Buffer, Arena) = SdbArenaBootstrap Arena NULL BufSize;
          (p, st) = (case Buffer of None \<Rightarrow> (NULL, st) | Some (a, A) \<Rightarrow> (a, st(a := A)));
          (ps, r) = SdpCreate_loop b BufSize Arena st
      in (p # ps, r))"

text \<open>
  \<open>Mem\<close> is what \<^verbatim>\<open>calloc\<close> returns when no arena is given, \<open>fd_ok\<close> whether both eventfds could
  be made. The result is the pipe with its address (\<open>None\<close> for NULL), the arena it was
  allocated in and the store with the buffers' arenas. The first write to the writer's eventfd
  fails when \<open>Count\<close> is 0 (the value \<open>2^64 - 1\<close> is refused) and leaves the counter 0.
\<close>

definition SdpPipeSize :: "u64 \<Rightarrow> u64 \<Rightarrow> u64" where
  "SdpPipeSize Count BufSize =
     sizeof_sensor_data_pipe + Count * 8 + Count * sizeof_sdb_arena + Count * BufSize"

definition SdpCreate ::
  "bool \<Rightarrow> addr \<Rightarrow> u64 \<Rightarrow> u64 \<Rightarrow> sdb_arena option \<Rightarrow> arena_store \<Rightarrow>
     ((addr \<times> sensor_data_pipe) option \<times> sdb_arena \<times> arena_store) res" where
  "SdpCreate fd_ok M Count BufSize ArenaArg st =
     (let Arena = (case ArenaArg of
                     None \<Rightarrow> SdbArenaInit \<lparr>Cur = 0, Cap = 0, Mem = 0\<rparr> M (SdpPipeSize Count BufSize)
                   | Some A \<Rightarrow> A);
          ArenaF5 = SdbArenaGetPos Arena;
          (Pipe, Arena) = SdbArenaPush Arena sizeof_sensor_data_pipe
      in if Pipe = NULL then Inl NullDeref
         else
           (let (Bufs, Arena) = SdbArenaPush Arena (8 * Count)
            in if Bufs = NULL \<and> Count \<noteq> 0 then Inl NullDeref
               else
                 (let (bs, Arena, st) = SdpCreate_loop (unat Count) BufSize Arena st
                  in if \<not> fd_ok
                     then Inr (None, (case ArenaArg of None \<Rightarrow> Arena | Some _ \<Rightarrow> snd (SdbArenaSeek Arena ArenaF5)), st)
                     else Inr (Some (Pipe,
                            \<lparr>BufferMaxFill = 0, PacketSize = 0, ItemMaxCount = 0,
                             WriteBufIdx = 0, ReadBufIdx = 0, FullBuffersCount = 0,
                             ReadEvent = 0, WriteEvent = (if Count = 0 then 0 else Count - 1),
                             BufCount = Count, Buffers = bs\<rparr>), Arena, st))))"

text \<open>Destroying closes the descriptors; the memory is freed when no arena owns it.\<close>

definition SdpDestroy :: "addr \<Rightarrow> bool \<Rightarrow> nat list \<Rightarrow> addr list \<Rightarrow> nat \<times> nat \<Rightarrow> nat list \<times> addr list" where
  "SdpDestroy Pipe AllocatedWithArena fds heap evs =
     (removeAll (snd evs) (removeAll (fst evs) fds),
      if AllocatedWithArena then heap else removeAll Pipe heap)"

subsection \<open>Acquiring and flushing\<close>

text \<open>
  \<open>rd_fails\<close> and \<open>wr_fails\<close> say whether the call's eventfd read (for instance with \<^verbatim>\<open>EINTR\<close>) or
  write returns an error. NULL is returned on either.
\<close>

definition SdPipeGetWriteBuffer ::
  "bool \<Rightarrow> bool \<Rightarrow> arena_store \<Rightarrow> sensor_data_pipe \<Rightarrow> (addr \<times> arena_store \<times> sensor_data_pipe) call res" where
  "SdPipeGetWriteBuffer rd_fails wr_fails st P =
     (if BufCount P = 0 then Inl DivByZero
      else let CurWriteBuf = WriteBufIdx P;
               NextWriteBuf = NextBuf (BufCount P) CurWriteBuf
           in if rd_fails then Inr (Returns (NULL, st, P))
              else case eventfd_read (WriteEvent P) of
                None \<Rightarrow> Inr Blocks
              | Some (Val, w) \<Rightarrow>
                  (let P = P\<lparr>WriteEvent := w\<rparr>;
                       P = P\<lparr>WriteBufIdx := NextWriteBuf\<rparr>;
                       P = P\<lparr>FullBuffersCount := FullBuffersCount P + 1\<rparr>
                   in if wr_fails then Inr (Returns (NULL, st, P))
                      else case eventfd_write 1 (ReadEvent P) of
                        None \<Rightarrow> Inr Blocks
                      | Some r \<Rightarrow>
                          (let P = P\<lparr>ReadEvent := r\<rparr>;
                               Buf = Buffers P ! unat NextWriteBuf
                           in if Buf = NULL then Inl NullDeref
                              else Inr (Returns (Buf, st(Buf := SdbArenaClear (st Buf)), P)))))"

definition SdPipeGetReadBuffer ::
  "bool \<Rightarrow> bool \<Rightarrow> sensor_data_pipe \<Rightarrow> (addr \<times> sensor_data_pipe) call res" where
  "SdPipeGetReadBuffer rd_fails wr_fails P =
     (if rd_fails then Inr (Returns (NULL, P))
      else case eventfd_read (ReadEvent P) of
        None \<Rightarrow> Inr Blocks
      | Some (Val, r) \<Rightarrow>
          (let P = P\<lparr>ReadEvent := r\<rparr>;
               CurReadBuffer = ReadBufIdx P;
               Buf = Buffers P ! unat CurReadBuffer
           in if BufCount P = 0 then Inl DivByZero
              else
                (let P = P\<lparr>ReadBufIdx := NextBuf (BufCount P) CurReadBuffer\<rparr>;
                     P = P\<lparr>FullBuffersCount := FullBuffersCount P - 1\<rparr>
                 in if wr_fails then Inr (Returns (NULL, P))
                    else case eventfd_write 1 (WriteEvent P) of
                      None \<Rightarrow> Inr Blocks
                    | Some w \<Rightarrow> Inr (Returns (Buf, P\<lparr>WriteEvent := w\<rparr>)))))"

text \<open>A flush returns nothing; it does nothing when the current buffer is empty.\<close>

definition SdPipeFlush ::
  "bool \<Rightarrow> bool \<Rightarrow> arena_store \<Rightarrow> sensor_data_pipe \<Rightarrow> (arena_store \<times> sensor_data_pipe) call res" where
  "SdPipeFlush rd_fails wr_fails st P =
     (let CurrentBuf = Buffers P ! unat (WriteBufIdx P)
      in if CurrentBuf = NULL then Inl NullDeref
         else if SdbArenaGetPos (st CurrentBuf) > 0
         then
           (if BufCount P = 0 then Inl DivByZero
            else let CurWriteBuf = WriteBufIdx P;
                     NextWriteBuf = NextBuf (BufCount P) CurWriteBuf
                 in if rd_fails then Inr (Returns (st, P))
                    else case eventfd_read (WriteEvent P) of
                      None \<Rightarrow> Inr Blocks
                    | Some (Val, w) \<Rightarrow>
                        (let P = P\<lparr>WriteEvent := w\<rparr>;
                             P = P\<lparr>WriteBufIdx := NextWriteBuf\<rparr>;
                             P = P\<lparr>FullBuffersCount := FullBuffersCount P + 1\<rparr>
                         in if wr_fails then Inr (Returns (st, P))
                            else case eventfd_write 1 (ReadEvent P) of
                              None \<Rightarrow> Inr Blocks
                            | Some r \<Rightarrow>
                                (let P = P\<lparr>ReadEvent := r\<rparr>;
                                     NextBuf = Buffers P ! unat NextWriteBuf
                                 in if NextBuf = NULL then Inl NullDeref
                                    else Inr (Returns (st(NextBuf := SdbArenaClear (st NextBuf)), P)))))
         else Inr (Returns (st, P)))"

section \<open>Writer and reader interleaved\<close>

text \<open>
  A step is one atomic access or one eventfd call of either thread. \<open>Content b\<close> is what lies
  below the position of buffer \<open>b\<close>'s arena; \<open>WBuf\<close> is the buffer the writer's client fills
  (its \<^verbatim>\<open>CurBuf\<close>). The program counters name what has been done:

    \<^item> \<open>WFill\<close>: in the client; \<open>WLoaded nx\<close>: \<^verbatim>\<open>NextWriteBuf\<close> computed, about to read \<^verbatim>\<open>WriteEventFd\<close>;
      \<open>WGot\<close>: read done; \<open>WStored\<close>: index stored; \<open>WCounted\<close>: count incremented; \<open>WSignalled\<close>:
      reader signalled, about to clear the next buffer.
    \<^item> \<open>RIdle\<close>: about to read \<^verbatim>\<open>ReadEventFd\<close>; \<open>RGot\<close>; \<open>RLoaded i\<close>: index loaded; \<open>RStored\<close>;
      \<open>RCounted\<close>; \<open>RHold i\<close>: the call has returned buffer \<open>i\<close> and the client works on it.

  \<open>Published\<close>, \<open>Taken\<close> and \<open>Consumed\<close> are history: the contents handed over by the writer, how many
  the reader has claimed, and the contents the reader's client saw.
\<close>

datatype wpc = WFill | WLoaded u32 | WGot u32 | WStored u32 | WCounted u32 | WSignalled u32
datatype rpc = RIdle | RGot | RLoaded u32 | RStored u32 | RCounted u32 | RHold u32
datatype wcall = GetBuf | Flush

record pipe_sys =
  Pipe :: sensor_data_pipe
  Content :: "nat \<Rightarrow> u8 list"
  WBuf :: u32
  Wpc :: wpc
  Wcall :: wcall
  Rpc :: rpc
  Published :: "u8 list list"
  Taken :: nat
  Consumed :: "u8 list list"

text \<open>
  \<open>reload\<close> says whether the client takes the current write buffer again after a flush, as the
  pipe expects, or keeps the pointer it had. An interrupted read of \<^verbatim>\<open>WriteEventFd\<close> returns to the
  client without effect.
\<close>

inductive pipe_step :: "bool \<Rightarrow> pipe_sys \<Rightarrow> pipe_sys \<Rightarrow> bool" for reload :: bool where
  w_push: "Wpc s = WFill \<Longrightarrow>
    pipe_step reload s (s\<lparr>Content := (Content s)(unat (WBuf s) := Content s (unat (WBuf s)) @ bs)\<rparr>)"
| w_load: "Wpc s = WFill \<Longrightarrow>
    pipe_step reload s (s\<lparr>Wpc := WLoaded (NextBuf (BufCount (Pipe s)) (WriteBufIdx (Pipe s))), Wcall := GetBuf\<rparr>)"
| w_flush: "\<lbrakk>Wpc s = WFill; Content s (unat (WriteBufIdx (Pipe s))) \<noteq> []\<rbrakk> \<Longrightarrow>
    pipe_step reload s (s\<lparr>Wpc := WLoaded (NextBuf (BufCount (Pipe s)) (WriteBufIdx (Pipe s))), Wcall := Flush\<rparr>)"
| w_intr: "Wpc s = WLoaded nx \<Longrightarrow> pipe_step reload s (s\<lparr>Wpc := WFill\<rparr>)"
| w_read: "\<lbrakk>Wpc s = WLoaded nx; eventfd_read (WriteEvent (Pipe s)) = Some (v, w)\<rbrakk> \<Longrightarrow>
    pipe_step reload s (s\<lparr>Pipe := (Pipe s)\<lparr>WriteEvent := w\<rparr>, Wpc := WGot nx,
      Published := Published s @ [Content s (unat (WriteBufIdx (Pipe s)))]\<rparr>)"
| w_store: "Wpc s = WGot nx \<Longrightarrow>
    pipe_step reload s (s\<lparr>Pipe := (Pipe s)\<lparr>WriteBufIdx := nx\<rparr>, Wpc := WStored nx\<rparr>)"
| w_count: "Wpc s = WStored nx \<Longrightarrow>
    pipe_step reload s (s\<lparr>Pipe := (Pipe s)\<lparr>FullBuffersCount := FullBuffersCount (Pipe s) + 1\<rparr>, Wpc := WCounted nx\<rparr>)"
| w_signal: "\<lbrakk>Wpc s = WCounted nx; eventfd_write 1 (ReadEvent (Pipe s)) = Some r\<rbrakk> \<Longrightarrow>
    pipe_step reload s (s\<lparr>Pipe := (Pipe s)\<lparr>ReadEvent := r\<rparr>, Wpc := WSignalled nx\<rparr>)"
| w_clear: "Wpc s = WSignalled nx \<Longrightarrow>
    pipe_step reload s (s\<lparr>Content := (Content s)(unat nx := []), Wpc := WFill,
      WBuf := (if Wcall s = GetBuf \<or> reload then nx else WBuf s)\<rparr>)"
| r_read: "\<lbrakk>Rpc s = RIdle; eventfd_read (ReadEvent (Pipe s)) = Some (v, r)\<rbrakk> \<Longrightarrow>
    pipe_step reload s (s\<lparr>Pipe := (Pipe s)\<lparr>ReadEvent := r\<rparr>, Rpc := RGot, Taken := Suc (Taken s)\<rparr>)"
| r_load: "Rpc s = RGot \<Longrightarrow>
    pipe_step reload s (s\<lparr>Rpc := RLoaded (ReadBufIdx (Pipe s))\<rparr>)"
| r_store: "Rpc s = RLoaded i \<Longrightarrow>
    pipe_step reload s (s\<lparr>Pipe := (Pipe s)\<lparr>ReadBufIdx := NextBuf (BufCount (Pipe s)) i\<rparr>, Rpc := RStored i\<rparr>)"
| r_count: "Rpc s = RStored i \<Longrightarrow>
    pipe_step reload s (s\<lparr>Pipe := (Pipe s)\<lparr>FullBuffersCount := FullBuffersCount (Pipe s) - 1\<rparr>, Rpc := RCounted i\<rparr>)"
| r_signal: "\<lbrakk>Rpc s = RCounted i; eventfd_write 1 (WriteEvent (Pipe s)) = Some w\<rbrakk> \<Longrightarrow>
    pipe_step reload s (s\<lparr>Pipe := (Pipe s)\<lparr>WriteEvent := w\<rparr>, Rpc := RHold i\<rparr>)"
| r_consume: "Rpc s = RHold i \<Longrightarrow>
    pipe_step reload s (s\<lparr>Consumed := Consumed s @ [Content s (unat i)], Rpc := RIdle\<rparr>)"

definition pipe_init :: "sensor_data_pipe \<Rightarrow> pipe_sys" where
  "pipe_init P = \<lparr>Pipe = P, Content = (\<lambda>_. []), WBuf = WriteBufIdx P, Wpc = WFill, Wcall = GetBuf,
     Rpc = RIdle, Published = [], Taken = 0, Consumed = []\<rparr>"

inductive pipe_reach :: "bool \<Rightarrow> sensor_data_pipe \<Rightarrow> pipe_sys \<Rightarrow> bool" for reload P where
  init: "pipe_reach reload P (pipe_init P)"
| step: "\<lbrakk>pipe_reach reload P s; pipe_step reload s t\<rbrakk> \<Longrightarrow> pipe_reach reload P t"

text \<open>A pipe as \<open>SdpCreate\<close> leaves it, with a count that the 32-bit indices can hold.\<close>

definition pipe_fresh :: "nat \<Rightarrow> sensor_data_pipe \<Rightarrow> bool" where
  "pipe_fresh n P \<longleftrightarrow> 0 < n \<and> n \<le> 2 ^ 31 \<and> unat (BufCount P) = n \<and>
     WriteBufIdx P = 0 \<and> ReadBufIdx P = 0 \<and> FullBuffersCount P = 0 \<and>
     ReadEvent P = 0 \<and> unat (WriteEvent P) = n - 1"

subsection \<open>Index arithmetic\<close>

lemma unat_NextBuf:
  assumes "unat i < n" "unat Count = n" "n \<le> 2 ^ 31"
  shows "unat (NextBuf Count i) = Suc (unat i) mod n"
proof -
  have i: "unat (i + 1) = Suc (unat i)"
    using assms by (subst unat_plus_fits) auto
  have "unat (ucast (i + 1) :: u64) = Suc (unat i)"
    using i assms by (simp add: unsigned_ucast_eq take_bit_nat_eq_self)
  then have m: "unat ((ucast (i + 1) :: u64) mod Count) = Suc (unat i) mod n"
    using assms(2) by (simp add: unat_mod_distrib)
  have "Suc (unat i) mod n < 2 ^ 32"
    using assms(1,3) by (intro le_less_trans [OF mod_less_eq_dividend]) simp
  then show ?thesis using m by (simp add: NextBuf_def unsigned_ucast_eq take_bit_nat_eq_self)
qed

lemma NextBuf_mod:
  assumes "unat i = k mod n" "0 < n" "unat Count = n" "n \<le> 2 ^ 31"
  shows "unat (NextBuf Count i) = Suc k mod n"
  using assms by (subst unat_NextBuf [of _ n]) (auto simp: mod_Suc_eq)

lemma mod_neq_near:
  assumes "k < p" "p < k + n"
  shows "p mod n \<noteq> k mod (n::nat)"
proof
  assume "p mod n = k mod n"
  then have "n dvd p - k" using assms(1) by (simp add: mod_eq_dvd_iff_nat)
  then show False using assms by (auto dest: dvd_imp_le)
qed

subsection \<open>The invariant of indices and tokens\<close>

text \<open>
  A token is a unit of \<^verbatim>\<open>ReadEventFd\<close>, of \<^verbatim>\<open>WriteEventFd\<close>, or one a thread has taken from one and
  not yet put into the other.
\<close>

fun w_token :: "wpc \<Rightarrow> nat" where
  "w_token (WGot _) = 1" | "w_token (WStored _) = 1" | "w_token (WCounted _) = 1" | "w_token _ = 0"

fun r_token :: "rpc \<Rightarrow> nat" where
  "r_token RGot = 1" | "r_token (RLoaded _) = 1" | "r_token (RStored _) = 1"
| "r_token (RCounted _) = 1" | "r_token _ = 0"

definition token_inv :: "nat \<Rightarrow> pipe_sys \<Rightarrow> bool" where
  "token_inv n s \<longleftrightarrow>
     Taken s \<le> length (Published s) \<and> length (Published s) \<le> Suc (Taken s) \<and>
     unat (ReadEvent (Pipe s)) + w_token (Wpc s) = length (Published s) - Taken s \<and>
     (if Published s = [] then unat (WriteEvent (Pipe s)) = n - 1 \<and> Rpc s = RIdle
      else unat (WriteEvent (Pipe s)) + r_token (Rpc s) + (length (Published s) - Taken s) = 1)"

fun w_index_inv :: "nat \<Rightarrow> nat \<Rightarrow> u32 \<Rightarrow> wpc \<Rightarrow> bool" where
  "w_index_inv n p w WFill = (unat w = p mod n)"
| "w_index_inv n p w (WLoaded nx) = (unat w = p mod n \<and> unat nx = Suc p mod n)"
| "w_index_inv n p w (WGot nx) = (0 < p \<and> unat w = (p - 1) mod n \<and> unat nx = p mod n)"
| "w_index_inv n p w (WStored nx) = (unat w = p mod n \<and> nx = w)"
| "w_index_inv n p w (WCounted nx) = (unat w = p mod n \<and> nx = w)"
| "w_index_inv n p w (WSignalled nx) = (unat w = p mod n \<and> nx = w)"

fun r_index_inv :: "nat \<Rightarrow> nat \<Rightarrow> u32 \<Rightarrow> rpc \<Rightarrow> bool" where
  "r_index_inv n t r RIdle = (unat r = t mod n)"
| "r_index_inv n t r RGot = (0 < t \<and> unat r = (t - 1) mod n)"
| "r_index_inv n t r (RLoaded i) = (0 < t \<and> unat r = (t - 1) mod n \<and> i = r)"
| "r_index_inv n t r (RStored i) = (0 < t \<and> unat r = t mod n \<and> unat i = (t - 1) mod n)"
| "r_index_inv n t r (RCounted i) = (0 < t \<and> unat r = t mod n \<and> unat i = (t - 1) mod n)"
| "r_index_inv n t r (RHold i) = (0 < t \<and> unat r = t mod n \<and> unat i = (t - 1) mod n)"

definition index_inv :: "nat \<Rightarrow> pipe_sys \<Rightarrow> bool" where
  "index_inv n s \<longleftrightarrow> 0 < n \<and> n \<le> 2 ^ 31 \<and> unat (BufCount (Pipe s)) = n \<and>
     w_index_inv n (length (Published s)) (WriteBufIdx (Pipe s)) (Wpc s) \<and>
     r_index_inv n (Taken s) (ReadBufIdx (Pipe s)) (Rpc s)"

lemma eventfd_read_Some: "eventfd_read c = Some (v, c') \<longleftrightarrow> c \<noteq> 0 \<and> v = c \<and> c' = 0"
  by (auto simp: eventfd_read_def)

lemma eventfd_write_Some:
  "eventfd_write 1 c = Some c' \<Longrightarrow> unat c' = Suc (unat c)"
  by (auto simp: eventfd_write_def unat_plus_fits split: if_splits)

lemma unat_pos: "(c :: u64) \<noteq> 0 \<longleftrightarrow> 0 < unat c"
  by (simp add: unat_gt_0)

lemma token_inv_step:
  assumes "pipe_step reload s t" "token_inv n s"
  shows "token_inv n t"
  using assms
  by cases (auto simp: token_inv_def eventfd_read_Some unat_pos split: if_splits dest!: eventfd_write_Some)

lemma index_inv_step:
  assumes "pipe_step reload s t" "index_inv n s"
  shows "index_inv n t"
  using assms
  by cases (auto simp: index_inv_def NextBuf_mod)

lemma pipe_inv:
  assumes "pipe_reach reload P s" "pipe_fresh n P"
  shows "token_inv n s \<and> index_inv n s"
  using assms
proof induction
  case init
  then show ?case by (simp add: pipe_fresh_def pipe_init_def token_inv_def index_inv_def)
next
  case (step s t)
  then show ?case using token_inv_step index_inv_step by blast
qed

subsection \<open>The invariant of the contents\<close>

fun busy :: "rpc \<Rightarrow> nat" where
  "busy RIdle = 0" | "busy _ = 1"

definition count_inv :: "pipe_sys \<Rightarrow> bool" where
  "count_inv s \<longleftrightarrow> Taken s = length (Consumed s) + busy (Rpc s)"

definition data_inv :: "nat \<Rightarrow> pipe_sys \<Rightarrow> bool" where
  "data_inv n s \<longleftrightarrow>
     (Wpc s = WFill \<or> (\<exists>nx. Wpc s = WLoaded nx) \<longrightarrow> WBuf s = WriteBufIdx (Pipe s)) \<and>
     Consumed s = take (length (Consumed s)) (Published s) \<and>
     (\<forall>k. length (Consumed s) \<le> k \<and> k < length (Published s) \<longrightarrow> Content s (k mod n) = Published s ! k)"

lemma count_inv_step: "\<lbrakk>pipe_step reload s t; count_inv s\<rbrakk> \<Longrightarrow> count_inv t"
  by (erule pipe_step.cases) (auto simp: count_inv_def)

lemma pipe_count_inv: "pipe_reach reload P s \<Longrightarrow> count_inv s"
proof (induction rule: pipe_reach.induct)
  case init
  then show ?case by (simp add: pipe_init_def count_inv_def)
qed (blast intro: count_inv_step)

text \<open>What the writer writes to is never a buffer with unread contents, when there are three or more.\<close>

lemma unread_elsewhere:
  assumes "token_inv n s" "count_inv s" "3 \<le> n"
    and "length (Consumed s) \<le> k" "k < length (Published s)"
  shows "k mod n \<noteq> length (Published s) mod n"
proof (rule mod_neq_near [OF assms(5), symmetric])
  have "busy (Rpc s) \<le> 1" by (cases "Rpc s") auto
  then show "length (Published s) < k + n"
    using assms by (simp add: token_inv_def count_inv_def)
qed

lemma data_inv_step:
  assumes st: "pipe_step True s t" and inv: "token_inv n s" "index_inv n s" "count_inv s" "data_inv n s" and n: "3 \<le> n"
  shows "data_inv n t"
proof -
  note far = unread_elsewhere [OF inv(1,3) n]
  have cons: "Consumed s = take (length (Consumed s)) (Published s)"
    and cont: "\<And>k. length (Consumed s) \<le> k \<Longrightarrow> k < length (Published s) \<Longrightarrow> Content s (k mod n) = Published s ! k"
    using inv(4) unfolding data_inv_def by blast+
  have le: "length (Consumed s) \<le> length (Published s)"
    using inv(1,3) by (simp add: token_inv_def count_inv_def)
  from st show ?thesis
  proof cases
    case (w_push bs)
    then have "unat (WBuf s) = length (Published s) mod n"
      using inv(2,4) by (simp add: data_inv_def index_inv_def)
    then show ?thesis using w_push inv(4) far by (auto simp: data_inv_def)
  next
    case (w_read nx v w)
    then have "unat (WriteBufIdx (Pipe s)) = length (Published s) mod n" using inv(2) by (simp add: index_inv_def)
    then show ?thesis using w_read cons cont le
      by (auto simp: data_inv_def nth_append less_Suc_eq)
  next
    case (w_clear nx)
    then have "unat nx = length (Published s) mod n" "nx = WriteBufIdx (Pipe s)"
      using inv(2) by (simp_all add: index_inv_def)
    then show ?thesis using w_clear inv(4) far by (auto simp: data_inv_def)
  next
    case (r_consume i)
    then have t: "Taken s = Suc (length (Consumed s))" using inv(3) by (simp add: count_inv_def)
    then have lt: "length (Consumed s) < length (Published s)" using inv(1) by (simp add: token_inv_def)
    have i: "unat i = length (Consumed s) mod n" using r_consume inv(2) t by (simp add: index_inv_def)
    have "Content s (unat i) = Published s ! length (Consumed s)" using cont [of "length (Consumed s)"] lt i by simp
    then have "Consumed t = take (Suc (length (Consumed s))) (Published s)"
      using r_consume cons lt by (simp add: take_Suc_conv_app_nth)
    then show ?thesis using r_consume inv(4) lt by (auto simp: data_inv_def min_def)
  qed (use inv(4) in \<open>auto simp: data_inv_def\<close>)
qed

lemma pipe_data_inv:
  assumes "pipe_reach True P s" "pipe_fresh n P" "3 \<le> n"
  shows "data_inv n s"
  using assms
proof induction
  case init
  then show ?case by (simp add: pipe_init_def data_inv_def)
next
  case (step s t)
  then show ?case using data_inv_step pipe_inv pipe_count_inv by blast
qed

subsection \<open>Executing the steps\<close>

text \<open>The steps as a function of an action, so that schedules can be run.\<close>

datatype pipe_act = Push "u8 list" | GetWrite | FlushBuf | Interrupt | WStep | RStep

fun pipe_next :: "bool \<Rightarrow> pipe_act \<Rightarrow> pipe_sys \<Rightarrow> pipe_sys option" where
  "pipe_next reload (Push bs) s =
     (if Wpc s = WFill
      then Some (s\<lparr>Content := (Content s)(unat (WBuf s) := Content s (unat (WBuf s)) @ bs)\<rparr>) else None)"
| "pipe_next reload GetWrite s =
     (if Wpc s = WFill
      then Some (s\<lparr>Wpc := WLoaded (NextBuf (BufCount (Pipe s)) (WriteBufIdx (Pipe s))), Wcall := GetBuf\<rparr>) else None)"
| "pipe_next reload FlushBuf s =
     (if Wpc s = WFill \<and> Content s (unat (WriteBufIdx (Pipe s))) \<noteq> []
      then Some (s\<lparr>Wpc := WLoaded (NextBuf (BufCount (Pipe s)) (WriteBufIdx (Pipe s))), Wcall := Flush\<rparr>) else None)"
| "pipe_next reload Interrupt s = (case Wpc s of WLoaded nx \<Rightarrow> Some (s\<lparr>Wpc := WFill\<rparr>) | _ \<Rightarrow> None)"
| "pipe_next reload WStep s =
     (case Wpc s of
        WFill \<Rightarrow> None
      | WLoaded nx \<Rightarrow>
          (case eventfd_read (WriteEvent (Pipe s)) of None \<Rightarrow> None
           | Some (v, w) \<Rightarrow> Some (s\<lparr>Pipe := (Pipe s)\<lparr>WriteEvent := w\<rparr>, Wpc := WGot nx,
               Published := Published s @ [Content s (unat (WriteBufIdx (Pipe s)))]\<rparr>))
      | WGot nx \<Rightarrow> Some (s\<lparr>Pipe := (Pipe s)\<lparr>WriteBufIdx := nx\<rparr>, Wpc := WStored nx\<rparr>)
      | WStored nx \<Rightarrow>
          Some (s\<lparr>Pipe := (Pipe s)\<lparr>FullBuffersCount := FullBuffersCount (Pipe s) + 1\<rparr>, Wpc := WCounted nx\<rparr>)
      | WCounted nx \<Rightarrow>
          (case eventfd_write 1 (ReadEvent (Pipe s)) of None \<Rightarrow> None
           | Some r \<Rightarrow> Some (s\<lparr>Pipe := (Pipe s)\<lparr>ReadEvent := r\<rparr>, Wpc := WSignalled nx\<rparr>))
      | WSignalled nx \<Rightarrow>
          Some (s\<lparr>Content := (Content s)(unat nx := []), Wpc := WFill,
            WBuf := (if Wcall s = GetBuf \<or> reload then nx else WBuf s)\<rparr>))"
| "pipe_next reload RStep s =
     (case Rpc s of
        RIdle \<Rightarrow>
          (case eventfd_read (ReadEvent (Pipe s)) of None \<Rightarrow> None
           | Some (v, r) \<Rightarrow> Some (s\<lparr>Pipe := (Pipe s)\<lparr>ReadEvent := r\<rparr>, Rpc := RGot, Taken := Suc (Taken s)\<rparr>))
      | RGot \<Rightarrow> Some (s\<lparr>Rpc := RLoaded (ReadBufIdx (Pipe s))\<rparr>)
      | RLoaded i \<Rightarrow> Some (s\<lparr>Pipe := (Pipe s)\<lparr>ReadBufIdx := NextBuf (BufCount (Pipe s)) i\<rparr>, Rpc := RStored i\<rparr>)
      | RStored i \<Rightarrow>
          Some (s\<lparr>Pipe := (Pipe s)\<lparr>FullBuffersCount := FullBuffersCount (Pipe s) - 1\<rparr>, Rpc := RCounted i\<rparr>)
      | RCounted i \<Rightarrow>
          (case eventfd_write 1 (WriteEvent (Pipe s)) of None \<Rightarrow> None
           | Some w \<Rightarrow> Some (s\<lparr>Pipe := (Pipe s)\<lparr>WriteEvent := w\<rparr>, Rpc := RHold i\<rparr>))
      | RHold i \<Rightarrow> Some (s\<lparr>Consumed := Consumed s @ [Content s (unat i)], Rpc := RIdle\<rparr>))"

lemma pipe_next_step: "pipe_next reload a s = Some t \<Longrightarrow> pipe_step reload s t"
proof (cases "a = WStep")
  case True
  moreover assume "pipe_next reload a s = Some t"
  ultimately show ?thesis
    by (auto intro: pipe_step.intros split: wpc.splits option.splits split del: if_split)
next
  case False
  moreover assume "pipe_next reload a s = Some t"
  ultimately show ?thesis
    by (cases a) (auto intro: pipe_step.intros split: if_splits wpc.splits rpc.splits option.splits)
qed

lemma pipe_step_next:
  assumes "pipe_step reload s t"
  shows "\<exists>a. pipe_next reload a s = Some t"
  using assms
proof cases
  case (w_push bs)
  then show ?thesis by (intro exI [of _ "Push bs"]) simp
next
  case w_load
  then show ?thesis by (intro exI [of _ GetWrite]) simp
next
  case w_flush
  then show ?thesis by (intro exI [of _ FlushBuf]) simp
next
  case (w_intr nx)
  then show ?thesis by (intro exI [of _ Interrupt]) simp
qed ((rule exI [of _ WStep], simp; fail) | (rule exI [of _ RStep], simp; fail))+

fun pipe_run :: "bool \<Rightarrow> pipe_act list \<Rightarrow> pipe_sys \<Rightarrow> pipe_sys option" where
  "pipe_run reload [] s = Some s"
| "pipe_run reload (a # as) s =
     (case pipe_next reload a s of None \<Rightarrow> None | Some t \<Rightarrow> pipe_run reload as t)"

lemma pipe_run_append:
  "pipe_run reload (as @ bs) s = (case pipe_run reload as s of None \<Rightarrow> None | Some t \<Rightarrow> pipe_run reload bs t)"
  by (induction as arbitrary: s) (auto split: option.splits)

lemma pipe_run_reach:
  "\<lbrakk>pipe_reach reload P s; pipe_run reload as s = Some t\<rbrakk> \<Longrightarrow> pipe_reach reload P t"
  by (induction as arbitrary: s)
     (auto split: option.splits dest: pipe_next_step intro: pipe_reach.step)

lemmas pipe_run_init = pipe_run_reach [OF pipe_reach.init]

text \<open>A pipe as created with \<open>n\<close> buffers at the addresses 1 to \<open>n\<close>, and a schedule to run it.\<close>

definition example_pipe :: "nat \<Rightarrow> sensor_data_pipe" where
  "example_pipe n = \<lparr>BufferMaxFill = 4, PacketSize = 2, ItemMaxCount = 2, WriteBufIdx = 0, ReadBufIdx = 0,
     FullBuffersCount = 0, ReadEvent = 0, WriteEvent = of_nat n - 1, BufCount = of_nat n,
     Buffers = map of_nat [1..<Suc n]\<rparr>"

definition write_call :: "pipe_act list" where
  "write_call = [WStep, WStep, WStep, WStep, WStep]"

definition read_call :: "pipe_act list" where
  "read_call = [RStep, RStep, RStep, RStep, RStep]"

definition example_run :: "bool \<Rightarrow> nat \<Rightarrow> pipe_sys" where
  "example_run reload n = the (pipe_run reload
     ([Push [7], GetWrite] @ write_call @ read_call @ [Push [8], GetWrite, WStep]) (pipe_init (example_pipe n)))"

lemma example_fresh: "pipe_fresh 1 (example_pipe 1)" "pipe_fresh 2 (example_pipe 2)" "pipe_fresh 3 (example_pipe 3)"
  by (simp_all add: pipe_fresh_def example_pipe_def)

lemma example_reach: "pipe_reach reload (example_pipe 3) (example_run reload 3)"
proof -
  have "pipe_run reload ([Push [7], GetWrite] @ write_call @ read_call @ [Push [8], GetWrite, WStep])
      (pipe_init (example_pipe 3)) \<noteq> None"
    by (simp add: example_pipe_def pipe_init_def write_call_def read_call_def eventfd_read_def eventfd_write_def)
  then show ?thesis unfolding example_run_def
    by (metis (no_types, lifting) option.collapse pipe_run_init)
qed

lemma example_facts:
  "Published (example_run reload 3) = [[7], [8]]" "Consumed (example_run reload 3) = []"
  "Wpc (example_run reload 3) = WGot 2" "Rpc (example_run reload 3) = RHold 0"
  by (simp_all add: example_run_def example_pipe_def pipe_init_def write_call_def read_call_def
      eventfd_read_def eventfd_write_def NextBuf_def)

section \<open>What the pipe guarantees\<close>

text \<open>The buffer the reader has in hand, and the one the writer's client or the clearing touches.\<close>

fun read_buf :: "rpc \<Rightarrow> u32 option" where
  "read_buf (RLoaded i) = Some i" | "read_buf (RStored i) = Some i" | "read_buf (RCounted i) = Some i"
| "read_buf (RHold i) = Some i" | "read_buf _ = None"

fun write_buf :: "wpc \<Rightarrow> u32 \<Rightarrow> u32 option" where
  "write_buf WFill b = Some b" | "write_buf (WSignalled nx) b = Some nx" | "write_buf _ b = None"

definition pipe_race :: "pipe_sys \<Rightarrow> bool" where
  "pipe_race s \<longleftrightarrow> write_buf (Wpc s) (WBuf s) \<noteq> None \<and> write_buf (Wpc s) (WBuf s) = read_buf (Rpc s)"





subsection \<open>The reader drains the pipe\<close>

text \<open>
  The reader's steps alone, as long as there is one: the number of steps to its next block is
  bounded by \<open>r_work\<close>, whatever the writer has left in the pipe.
\<close>

inductive reader_steps :: "bool \<Rightarrow> pipe_sys \<Rightarrow> pipe_sys \<Rightarrow> bool" for reload where
  refl: "reader_steps reload s s"
| step: "\<lbrakk>pipe_next reload RStep s = Some t; reader_steps reload t u\<rbrakk> \<Longrightarrow> reader_steps reload s u"

fun r_rank :: "rpc \<Rightarrow> nat" where
  "r_rank RIdle = 0" | "r_rank RGot = 5" | "r_rank (RLoaded _) = 4" | "r_rank (RStored _) = 3"
| "r_rank (RCounted _) = 2" | "r_rank (RHold _) = 1"

definition r_work :: "pipe_sys \<Rightarrow> nat" where
  "r_work s = 6 * unat (ReadEvent (Pipe s)) + r_rank (Rpc s)"

lemma RStep_work:
  assumes "pipe_next reload RStep s = Some t"
  shows "r_work t < r_work s" "Wpc t = Wpc s" "Published t = Published s"
  using assms
  by (auto simp: r_work_def eventfd_read_Some unat_pos split: rpc.splits option.splits)

lemma RStep_blocked:
  assumes "pipe_next reload RStep s = None" "token_inv n s" "n \<le> 2 ^ 31"
  shows "Rpc s = RIdle \<and> ReadEvent (Pipe s) = 0"
proof -
  have "unat (WriteEvent (Pipe s)) \<le> 2 ^ 31"
    using assms(2,3) by (auto simp: token_inv_def split: if_splits)
  then have "eventfd_write 1 (WriteEvent (Pipe s)) \<noteq> None" by (simp add: eventfd_write_def)
  then show ?thesis using assms(1)
    by (auto simp: eventfd_read_def split: rpc.splits option.splits if_splits)
qed

lemma reader_runs_dry:
  assumes "pipe_reach reload P s" "pipe_fresh n P"
  shows "\<exists>t. reader_steps reload s t \<and> pipe_reach reload P t \<and> Rpc t = RIdle \<and>
    ReadEvent (Pipe t) = 0 \<and> Wpc t = Wpc s \<and> Published t = Published s"
  using assms(1)
proof (induction "r_work s" arbitrary: s rule: less_induct)
  case less
  note inv = pipe_inv [OF less.prems assms(2)]
  show ?case
  proof (cases "pipe_next reload RStep s")
    case None
    then show ?thesis using RStep_blocked [OF None, of n] inv less.prems
      by (auto simp: index_inv_def intro: reader_steps.refl)
  next
    case (Some t)
    have "pipe_reach reload P t" using less.prems pipe_next_step [OF Some] by (rule pipe_reach.step)
    then show ?thesis
      using less.hyps [OF RStep_work(1) [OF Some]] RStep_work(2,3) [OF Some] reader_steps.step [OF Some]
      by (metis (no_types, lifting))
  qed
qed

text \<open>
  C21. With two or more buffers nobody is stuck: whenever the writer is in its client or blocked
  on \<^verbatim>\<open>WriteEventFd\<close>, the reader's own steps lead to a state where the reader has consumed as
  many buffers as were handed over and the writer's next read of \<^verbatim>\<open>WriteEventFd\<close> succeeds.
\<close>

theorem pipe_reader_drains:
  assumes "pipe_reach reload P s" "pipe_fresh n P" "2 \<le> n" "w_token (Wpc s) = 0"
  shows "\<exists>t. reader_steps reload s t \<and> length (Consumed t) = length (Published s) \<and>
    Wpc t = Wpc s \<and> WriteEvent (Pipe t) \<noteq> 0"
proof -
  obtain t where t: "reader_steps reload s t" "pipe_reach reload P t" "Rpc t = RIdle"
      "ReadEvent (Pipe t) = 0" "Wpc t = Wpc s" "Published t = Published s"
    using reader_runs_dry [OF assms(1,2)] by blast
  have inv: "token_inv n t" "count_inv t"
    using pipe_inv [OF t(2) assms(2)] pipe_count_inv [OF t(2)] by auto
  have all: "length (Published t) = Taken t" using inv(1) t(4,5) assms(4) by (simp add: token_inv_def)
  moreover have "WriteEvent (Pipe t) \<noteq> 0"
  proof
    assume "WriteEvent (Pipe t) = 0"
    then show False using inv(1) t(3,4,5) assms(3,4) all by (simp add: token_inv_def split: if_splits)
  qed
  ultimately show ?thesis using t inv(2) by (auto simp: count_inv_def)
qed

theorem pipe_reader_drains_witness:
  "\<exists>t. reader_steps True (pipe_init (example_pipe 2)) t \<and> WriteEvent (Pipe t) \<noteq> 0"
proof -
  have "w_token (Wpc (pipe_init (example_pipe 2))) = 0" by (simp add: pipe_init_def)
  then show ?thesis
    using pipe_reader_drains [OF pipe_reach.init example_fresh(2), of True] by auto
qed

subsection \<open>Where the pipe fails\<close>

lemma fresh_facts:
  assumes "pipe_fresh n P" "2 \<le> n"
  shows "WriteBufIdx P = 0" "ReadBufIdx P = 0" "ReadEvent P = 0" "WriteEvent P \<noteq> 0"
    and "NextBuf (BufCount P) 0 = 1"
proof -
  have "unat (NextBuf (BufCount P) 0) = Suc 0 mod n"
    using assms by (intro NextBuf_mod) (auto simp: pipe_fresh_def)
  then show "NextBuf (BufCount P) 0 = 1" using assms(2) by (simp add: word_unat_eq_iff)
qed (use assms in \<open>auto simp: pipe_fresh_def\<close>)

text \<open>
  C39. With two buffers, the configured number, the reader loses data: \<^verbatim>\<open>SdPipeGetReadBuffer\<close>
  signals the writer before its caller has worked on the buffer, so the writer can come round
  and clear it. The reader then sees an empty buffer in place of the one handed over.
\<close>

theorem pipe_two_buffers_race:
  assumes "pipe_fresh 2 P" "bs \<noteq> []"
  shows "\<exists>s. pipe_reach True P s \<and> Published s = [bs, []] \<and> Consumed s = [[]]"
proof -
  note f = fresh_facts [OF assms(1)] and e = eventfd_read_def eventfd_write_def
  have n1: "NextBuf (BufCount P) 1 = 0"
  proof -
    have "unat (NextBuf (BufCount P) 1) = Suc 1 mod 2"
      using assms by (intro NextBuf_mod) (auto simp: pipe_fresh_def)
    then show ?thesis by (simp add: unat_eq_zero)
  qed
  have "\<exists>s. pipe_run True ([Push bs, GetWrite] @ write_call @ read_call @ [GetWrite] @ write_call @ [RStep])
      (pipe_init P) = Some s \<and> Published s = [bs, []] \<and> Consumed s = [[]]"
    using f n1 assms(2) by (simp add: write_call_def read_call_def pipe_init_def e)
  then show ?thesis using pipe_run_init by blast
qed

theorem pipe_two_buffers_race_witness:
  "\<exists>s. pipe_reach True (example_pipe 2) s \<and> Published s = [[7], []] \<and> Consumed s = [[]]"
  by (rule pipe_two_buffers_race [OF example_fresh(2)]) simp

text \<open>
  A client that goes on filling the buffer it had after \<^verbatim>\<open>SdPipeFlush\<close>, as \<^verbatim>\<open>MbRun\<close> does, writes
  into a buffer that was already handed over, with any number of buffers: the reader sees
  the later bytes in the earlier buffer, or they are lost, depending on who comes first.
\<close>

theorem pipe_flush_stale:
  assumes "pipe_fresh n P" "2 \<le> n" "bs \<noteq> []"
  shows "(\<exists>s. pipe_reach False P s \<and> Published s = [bs] \<and> Consumed s = [bs @ cs]) \<and>
    (\<exists>s. pipe_reach False P s \<and> Published s = [bs] \<and> Consumed s = [bs] \<and>
       Content s 0 = bs @ cs \<and> Content s (unat (WriteBufIdx (Pipe s))) = [])"
proof -
  note f = fresh_facts [OF assms(1,2)] and e = eventfd_read_def eventfd_write_def
  have "\<exists>s. pipe_run False ([Push bs, FlushBuf] @ write_call @ [Push cs] @ read_call @ [RStep])
      (pipe_init P) = Some s \<and> Published s = [bs] \<and> Consumed s = [bs @ cs]"
    using f assms(3) by (simp add: write_call_def read_call_def pipe_init_def e)
  moreover have "\<exists>s. pipe_run False ([Push bs, FlushBuf] @ write_call @ read_call @ [RStep] @ [Push cs])
      (pipe_init P) = Some s \<and> Published s = [bs] \<and> Consumed s = [bs] \<and>
       Content s 0 = bs @ cs \<and> Content s (unat (WriteBufIdx (Pipe s))) = []"
    using f assms(3) by (simp add: write_call_def read_call_def pipe_init_def e)
  ultimately show ?thesis using pipe_run_init by blast
qed

theorem pipe_flush_stale_witness:
  "\<exists>s. pipe_reach False (example_pipe 3) s \<and> Published s = [[7]] \<and> Consumed s = [[7, 8]]"
  using pipe_flush_stale [OF example_fresh(3), of "[7]" "[8]"] by simp

text \<open>
  A pipe with a single buffer hands nothing over: its writer never gets past \<^verbatim>\<open>WriteEventFd\<close>.
\<close>

theorem pipe_one_buffer_stuck:
  assumes "pipe_reach reload P s" "pipe_fresh 1 P"
  shows "Published s = [] \<and> WriteEvent (Pipe s) = 0 \<and> ReadEvent (Pipe s) = 0"
  using assms
proof induction
  case init
  then show ?case by (simp add: pipe_init_def pipe_fresh_def unat_eq_zero)
next
  case (step s t)
  have inv: "token_inv 1 s" using pipe_inv [OF step.hyps(1) step.prems] by blast
  then have "Rpc s = RIdle" "w_token (Wpc s) = 0" using step by (auto simp: token_inv_def)
  moreover note step.IH [OF step.prems]
  ultimately show ?case using step.hyps(2) by - (erule pipe_step.cases, auto simp: eventfd_read_def)
qed

theorem pipe_one_buffer_stuck_witness:
  "Published (pipe_init (example_pipe 1)) = []"
  using pipe_one_buffer_stuck [OF pipe_reach.init example_fresh(1)] by blast

subsection \<open>The pipe as a channel\<close>

text \<open>
  What a client of a channel relies on: the received messages are a prefix of the sent ones, and
  at most \<open>lag\<close> are under way. \<open>ok\<close> holds of the channel's states.
\<close>

locale channel =
  fixes ok :: "'s \<Rightarrow> bool" and sent received :: "'s \<Rightarrow> 'a list list" and lag :: nat
  assumes in_order: "ok s \<Longrightarrow> received s = take (length (received s)) (sent s)"
    and bounded: "ok s \<Longrightarrow> length (sent s) \<le> length (received s) + lag"
begin

lemma sent_split:
  assumes "ok s"
  obtains rest where "sent s = received s @ rest" "length rest \<le> lag"
proof
  show "sent s = received s @ drop (length (received s)) (sent s)"
    using in_order [OF assms] by (metis append_take_drop_id)
  show "length (drop (length (received s)) (sent s)) \<le> lag" using bounded [OF assms] by simp
qed

lemma stream_prefix:
  assumes "ok s"
  shows "\<exists>rest. concat (sent s) = concat (received s) @ rest"
  using sent_split [OF assms] by (metis concat_append)

lemma received_sent: "\<lbrakk>ok s; b \<in> set (received s)\<rbrakk> \<Longrightarrow> b \<in> set (sent s)"
  by (metis in_order in_set_takeD)

lemma whole_packets:
  assumes "ok s" "\<forall>b\<in>set (sent s). k dvd length b"
  shows "k dvd length (concat (received s))"
proof -
  have "\<forall>b\<in>set (received s). k dvd length b" using assms received_sent by blast
  then have "k dvd sum_list (map length bs)" if "set bs \<subseteq> set (received s)" for bs
    using that by (induction bs) auto
  then show ?thesis by (simp add: length_concat)
qed

end

interpretation pipe_channel:
  channel "\<lambda>s. \<exists>P n. pipe_reach True P s \<and> pipe_fresh n P \<and> 3 \<le> n" Published Consumed 2
proof
  fix s assume "\<exists>P n. pipe_reach True P s \<and> pipe_fresh n P \<and> 3 \<le> n"
  then obtain P n where r: "pipe_reach True P s" "pipe_fresh n P" "3 \<le> n" by blast
  show "Consumed s = take (length (Consumed s)) (Published s)"
    using pipe_data_inv [OF r] by (simp add: data_inv_def)
  have "busy (Rpc s) \<le> 1" by (cases "Rpc s") auto
  then show "length (Published s) \<le> length (Consumed s) + 2"
    using pipe_inv [OF r(1,2)] pipe_count_inv [OF r(1)] by (simp add: token_inv_def count_inv_def)
qed

end
