(* ===== verification/Sensor_Pipe_Refine.thy ===== *)
theory Sensor_Pipe_Refine
  imports Sensor_Pipe
begin

text \<open>
  The pipe's functions, which work on arenas in a byte memory, against the steps of
  \<^verbatim>\<open>Sensor_Pipe\<close>, which work on buffer contents; and the layout \<^verbatim>\<open>SdpCreate\<close> makes.
\<close>

section \<open>The functions refine the steps\<close>

text \<open>
  A pipe whose buffers are distinct arenas over disjoint memory, and the contents it stands for.
\<close>

definition buf_arena :: "arena_store \<Rightarrow> sensor_data_pipe \<Rightarrow> nat \<Rightarrow> sdb_arena" where
  "buf_arena st P b = st (Buffers P ! b)"

definition pipe_ok :: "nat \<Rightarrow> arena_store \<Rightarrow> sensor_data_pipe \<Rightarrow> bool" where
  "pipe_ok n st P \<longleftrightarrow> 0 < n \<and> n \<le> 2 ^ 31 \<and> unat (BufCount P) = n \<and> length (Buffers P) = n \<and>
     distinct (Buffers P) \<and> NULL \<notin> set (Buffers P) \<and>
     unat (WriteBufIdx P) < n \<and> unat (ReadBufIdx P) < n \<and>
     (\<forall>b<n. arena_ok (buf_arena st P b)) \<and>
     (\<forall>a<n. \<forall>b<n. a \<noteq> b \<longrightarrow> disjoint_blocks (Mem (buf_arena st P a)) (unat (Cap (buf_arena st P a)))
        (Mem (buf_arena st P b)) (unat (Cap (buf_arena st P b))))"

definition buf_bytes :: "mem \<Rightarrow> sdb_arena \<Rightarrow> u8 list" where
  "buf_bytes m A = rd m (Mem A) (unat (Cur A))"

definition pipe_abs :: "nat \<Rightarrow> mem \<Rightarrow> arena_store \<Rightarrow> pipe_sys \<Rightarrow> bool" where
  "pipe_abs n m st s \<longleftrightarrow> (\<forall>b<n. Content s b = buf_bytes m (buf_arena st (Pipe s) b))"

lemma pipe_ok_next:
  assumes "pipe_ok n st P" "unat i < n"
  shows "unat (NextBuf (BufCount P) i) < n"
  using assms unat_NextBuf [of i n "BufCount P"] by (simp add: pipe_ok_def)

lemma pipe_ok_not_null: "\<lbrakk>pipe_ok n st P; b < n\<rbrakk> \<Longrightarrow> Buffers P ! b \<noteq> NULL"
  by (metis nth_mem pipe_ok_def)

lemma pipe_ok_count: "pipe_ok n st P \<Longrightarrow> BufCount P \<noteq> 0"
  by (auto simp: pipe_ok_def)

lemma buf_arena_upd:
  assumes "pipe_ok n st P" "a < n" "b < n"
  shows "buf_arena (st(Buffers P ! a := A)) P b = (if a = b then A else buf_arena st P b)"
  using assms by (auto simp: buf_arena_def pipe_ok_def nth_eq_iff_index_eq)

lemma buf_bytes_clear: "buf_bytes m (SdbArenaClear A) = []"
  by (simp add: buf_bytes_def SdbArenaClear_def rd_def)

lemma pipe_ok_clear:
  assumes "pipe_ok n st P" "unat i < n"
  shows "pipe_ok n (st(Buffers P ! unat i := SdbArenaClear (st (Buffers P ! unat i)))) P"
  using assms
  by (auto simp: pipe_ok_def buf_arena_def nth_eq_iff_index_eq SdbArenaClear_def arena_ok_def)

lemma pipe_ok_ctrl:
  assumes "pipe_ok n st P" "unat w < n" "unat r < n"
  shows "pipe_ok n st (P\<lparr>WriteBufIdx := w, ReadBufIdx := r, FullBuffersCount := f, ReadEvent := e, WriteEvent := d\<rparr>)"
  using assms by (simp add: pipe_ok_def buf_arena_def)

subsection \<open>The calls\<close>

lemma Content_pipe_abs: "\<lbrakk>pipe_abs n m st s; b < n\<rbrakk> \<Longrightarrow> Content s b = buf_bytes m (st (Buffers (Pipe s) ! b))"
  by (simp add: pipe_abs_def buf_arena_def)

lemma pipe_abs_clear:
  assumes "pipe_ok n st (Pipe s)" "pipe_abs n m st s" "unat i < n"
    and "Buffers (Pipe t) = Buffers (Pipe s)" "Content t = (Content s)(unat i := [])"
  shows "pipe_abs n m (st(Buffers (Pipe s) ! unat i := SdbArenaClear (st (Buffers (Pipe s) ! unat i)))) t"
  using assms buf_bytes_clear
  by (auto simp: pipe_abs_def buf_arena_def pipe_ok_def nth_eq_iff_index_eq)

lemma get_write_steps:
  assumes ok: "pipe_ok n st (Pipe s)" and abs: "pipe_abs n m st s" and w: "Wpc s = WFill"
  shows "case SdPipeGetWriteBuffer False False st (Pipe s) of
      Inl f \<Rightarrow> False
    | Inr Blocks \<Rightarrow> pipe_run reload (GetWrite # write_call) s = None
    | Inr (Returns (b, st', P)) \<Rightarrow>
        (\<exists>t. pipe_run reload (GetWrite # write_call) s = Some t \<and> Pipe t = P \<and>
           pipe_ok n st' P \<and> pipe_abs n m st' t \<and> b = Buffers P ! unat (WBuf t) \<and> Cur (st' b) = 0)"
proof -
  define nx where "nx = NextBuf (BufCount (Pipe s)) (WriteBufIdx (Pipe s))"
  have nx: "unat nx < n" unfolding nx_def using ok by (intro pipe_ok_next) (auto simp: pipe_ok_def)
  note buf = pipe_ok_not_null [OF ok nx] and count = pipe_ok_count [OF ok]
  have rb: "unat (ReadBufIdx (Pipe s)) < n" using ok by (simp add: pipe_ok_def)
  note fine = pipe_ok_ctrl [OF pipe_ok_clear [OF ok nx] nx rb]
  show ?thesis
  proof (cases "WriteEvent (Pipe s) = 0 \<or> eventfd_write 1 (ReadEvent (Pipe s)) = None")
    case True
    then show ?thesis using count w
      by (auto simp: SdPipeGetWriteBuffer_def eventfd_read_def write_call_def Let_def split: option.splits)
  next
    case False
    then obtain r where r: "eventfd_write 1 (ReadEvent (Pipe s)) = Some r" and w0: "WriteEvent (Pipe s) \<noteq> 0" by auto
    define P where "P = (Pipe s)\<lparr>WriteBufIdx := nx, FullBuffersCount := FullBuffersCount (Pipe s) + 1,
      ReadEvent := r, WriteEvent := 0\<rparr>"
    define st' where "st' = st(Buffers (Pipe s) ! unat nx := SdbArenaClear (st (Buffers (Pipe s) ! unat nx)))"
    have "SdPipeGetWriteBuffer False False st (Pipe s) = Inr (Returns (Buffers (Pipe s) ! unat nx, st', P))"
      using count w0 r buf
      by (simp add: SdPipeGetWriteBuffer_def eventfd_read_def Let_def nx_def [symmetric] st'_def P_def)
    moreover obtain t where t: "pipe_run reload (GetWrite # write_call) s = Some t" "Pipe t = P"
        "Content t = (Content s)(unat nx := [])" "WBuf t = nx"
      using w0 r w by (simp add: write_call_def eventfd_read_def nx_def [symmetric] P_def)
    moreover have "pipe_ok n st' P" using fine [where f = "FullBuffersCount (Pipe s) + 1" and e = r and d = 0] unfolding P_def st'_def by simp
    moreover have "Buffers P = Buffers (Pipe s)" by (simp add: P_def)
    moreover have "pipe_abs n m st' t"
      unfolding st'_def using ok abs nx t(2,3) by (intro pipe_abs_clear) (simp_all add: P_def)
    ultimately show ?thesis by (auto simp: st'_def SdbArenaClear_def simp del: pipe_run.simps)
  qed
qed

lemma get_read_steps:
  assumes ok: "pipe_ok n st (Pipe s)" and abs: "pipe_abs n m st s" and r: "Rpc s = RIdle"
  shows "case SdPipeGetReadBuffer False False (Pipe s) of
      Inl f \<Rightarrow> False
    | Inr Blocks \<Rightarrow> pipe_run reload read_call s = None
    | Inr (Returns (b, P)) \<Rightarrow>
        (\<exists>t i. pipe_run reload read_call s = Some t \<and> Pipe t = P \<and> pipe_ok n st P \<and> pipe_abs n m st t \<and>
           Rpc t = RHold i \<and> b = Buffers P ! unat i \<and> Content t (unat i) = buf_bytes m (st b))"
proof -
  define i where "i = ReadBufIdx (Pipe s)"
  have i: "unat i < n" using ok by (simp add: pipe_ok_def i_def)
  note count = pipe_ok_count [OF ok]
  have wb: "unat (WriteBufIdx (Pipe s)) < n" using ok by (simp add: pipe_ok_def)
  note fine = pipe_ok_ctrl [OF ok wb pipe_ok_next [OF ok i]]
  show ?thesis
  proof (cases "ReadEvent (Pipe s) = 0 \<or> eventfd_write 1 (WriteEvent (Pipe s)) = None")
    case True
    then show ?thesis using count r
      by (auto simp: SdPipeGetReadBuffer_def eventfd_read_def read_call_def Let_def split: option.splits)
  next
    case False
    then obtain w where w: "eventfd_write 1 (WriteEvent (Pipe s)) = Some w" and r0: "ReadEvent (Pipe s) \<noteq> 0" by auto
    define P where "P = (Pipe s)\<lparr>ReadBufIdx := NextBuf (BufCount (Pipe s)) i,
      FullBuffersCount := FullBuffersCount (Pipe s) - 1, ReadEvent := 0, WriteEvent := w\<rparr>"
    have "SdPipeGetReadBuffer False False (Pipe s) = Inr (Returns (Buffers (Pipe s) ! unat i, P))"
      using count r0 w by (simp add: SdPipeGetReadBuffer_def eventfd_read_def Let_def i_def P_def)
    moreover obtain t where t: "pipe_run reload read_call s = Some t" "Pipe t = P"
        "Content t = Content s" "Rpc t = RHold i"
      using r0 r w by (simp add: read_call_def eventfd_read_def i_def P_def)
    moreover have "pipe_ok n st P"
      using fine [where f = "FullBuffersCount (Pipe s) - 1" and e = 0 and d = w] unfolding P_def i_def by simp
    moreover have "Buffers P = Buffers (Pipe s)" by (simp add: P_def)
    moreover have "pipe_abs n m st t"
      using abs t(2,3) by (simp add: pipe_abs_def buf_arena_def P_def)
    moreover have "Content t (unat i) = buf_bytes m (st (Buffers (Pipe s) ! unat i))"
      using Content_pipe_abs [OF abs i] t(3) by simp
    ultimately show ?thesis by (auto simp del: pipe_run.simps)
  qed
qed

lemma flush_steps:
  assumes ok: "pipe_ok n st (Pipe s)" and abs: "pipe_abs n m st s" and w: "Wpc s = WFill"
    and pos: "SdbArenaGetPos (st (Buffers (Pipe s) ! unat (WriteBufIdx (Pipe s)))) > 0"
  shows "case SdPipeFlush False False st (Pipe s) of
      Inl f \<Rightarrow> False
    | Inr Blocks \<Rightarrow> pipe_run reload (FlushBuf # write_call) s = None
    | Inr (Returns (st', P)) \<Rightarrow>
        (\<exists>t. pipe_run reload (FlushBuf # write_call) s = Some t \<and> Pipe t = P \<and>
           pipe_ok n st' P \<and> pipe_abs n m st' t)"
proof -
  define nx where "nx = NextBuf (BufCount (Pipe s)) (WriteBufIdx (Pipe s))"
  have wb: "unat (WriteBufIdx (Pipe s)) < n" using ok by (simp add: pipe_ok_def)
  have nx: "unat nx < n" unfolding nx_def using ok wb by (rule pipe_ok_next)
  note buf = pipe_ok_not_null [OF ok nx] pipe_ok_not_null [OF ok wb] and count = pipe_ok_count [OF ok]
  have rb: "unat (ReadBufIdx (Pipe s)) < n" using ok by (simp add: pipe_ok_def)
  note fine = pipe_ok_ctrl [OF pipe_ok_clear [OF ok nx] nx rb]
  have "length (Content s (unat (WriteBufIdx (Pipe s)))) = unat (Cur (st (Buffers (Pipe s) ! unat (WriteBufIdx (Pipe s)))))"
    using Content_pipe_abs [OF abs wb] by (simp add: buf_bytes_def)
  then have full: "Content s (unat (WriteBufIdx (Pipe s))) \<noteq> []"
    using pos by (auto simp: SdbArenaGetPos_def word_gt_0 unat_eq_zero)
  show ?thesis
  proof (cases "WriteEvent (Pipe s) = 0 \<or> eventfd_write 1 (ReadEvent (Pipe s)) = None")
    case True
    then show ?thesis using count w full buf pos
      by (auto simp: SdPipeFlush_def eventfd_read_def write_call_def Let_def split: option.splits)
  next
    case False
    then obtain r where r: "eventfd_write 1 (ReadEvent (Pipe s)) = Some r" and w0: "WriteEvent (Pipe s) \<noteq> 0" by auto
    define P where "P = (Pipe s)\<lparr>WriteBufIdx := nx, FullBuffersCount := FullBuffersCount (Pipe s) + 1,
      ReadEvent := r, WriteEvent := 0\<rparr>"
    define st' where "st' = st(Buffers (Pipe s) ! unat nx := SdbArenaClear (st (Buffers (Pipe s) ! unat nx)))"
    have "SdPipeFlush False False st (Pipe s) = Inr (Returns (st', P))"
      using count w0 r buf pos
      by (simp add: SdPipeFlush_def eventfd_read_def Let_def nx_def [symmetric] st'_def P_def)
    moreover obtain t where t: "pipe_run reload (FlushBuf # write_call) s = Some t" "Pipe t = P"
        "Content t = (Content s)(unat nx := [])"
      using w0 r w full by (simp add: write_call_def eventfd_read_def nx_def [symmetric] P_def)
    moreover have "pipe_ok n st' P"
      using fine [where f = "FullBuffersCount (Pipe s) + 1" and e = r and d = 0] unfolding P_def st'_def by simp
    moreover have "pipe_abs n m st' t"
      unfolding st'_def using ok abs nx t(2,3) by (intro pipe_abs_clear) (simp_all add: P_def)
    ultimately show ?thesis by (auto simp del: pipe_run.simps)
  qed
qed


definition example_store :: arena_store where
  "example_store p = \<lparr>Cur = (if p = 1 then 2 else 0), Cap = 4, Mem = 16 * p\<rparr>"

definition example_sys :: "mem \<Rightarrow> pipe_sys" where
  "example_sys m = (pipe_init (example_pipe 3))\<lparr>Content := (\<lambda>b. if b = 0 then [m 16, m 17] else [])\<rparr>"

lemma less_3: "(b < 3) = (b = 0 \<or> b = 1 \<or> b = (2 :: nat))"
  by auto

lemma example_ok: "pipe_ok 3 example_store (example_pipe 3)"
proof -
  have "disjoint_blocks (16 * p) 4 (16 * q) 4" if "(p, q) \<in> {(1, 2), (1, 3), (2, 3)}" for p q :: u64
    using that by (intro disjoint_blocks_linear) auto
  then have d: "disjoint_blocks (16 * p) 4 (16 * q) 4" if "(p, q) \<in> {(1, 2), (1, 3), (2, 3), (2, 1), (3, 1), (3, 2)}" for p q :: u64
    using that disjoint_blocks_sym by fastforce
  show ?thesis
    using d [of 1 2] d [of 1 3] d [of 2 3] d [of 2 1] d [of 3 1] d [of 3 2]
    by (simp add: pipe_ok_def example_pipe_def example_store_def buf_arena_def arena_ok_def less_3 upt_rec
        all_conj_distrib)
qed


section \<open>The layout made by creation\<close>

lemma SdbArenaBootstrap_fits:
  assumes "arena_ok A" "unat (Cur A) + 24 + unat Size \<le> unat (Cap A)"
  shows "SdbArenaBootstrap A NULL Size =
      (Some (Mem A + Cur A, \<lparr>Cur = 0, Cap = Size, Mem = Mem A + Cur A + 24\<rparr>), A\<lparr>Cur := Cur A + 24 + Size\<rparr>)"
    and "arena_ok (A\<lparr>Cur := Cur A + 24 + Size\<rparr>)"
    and "unat (Cur A + 24 + Size) = unat (Cur A) + 24 + unat Size"
proof -
  have cap: "unat (Cap A) < 2 ^ 63" using assms(1) by (simp add: arena_ok_def)
  have c24: "unat (Cur A + 24) = unat (Cur A) + 24" using push_no_wrap [OF assms(1), of 24] by simp
  note p1 = SdbArenaPush_fits [OF assms(1), of 24]
  have ok1: "arena_ok (A\<lparr>Cur := Cur A + 24\<rparr>)" using p1 assms(2) by simp
  have sz: "unat Size < 2 ^ 63" using assms(2) cap by simp
  note p2 = SdbArenaPush_fits [OF ok1 sz]
  have fits2: "unat (Cur (A\<lparr>Cur := Cur A + 24\<rparr>)) + unat Size \<le> unat (Cap (A\<lparr>Cur := Cur A + 24\<rparr>))"
    using assms(2) c24 by simp
  have nn: "Mem A + Cur A \<noteq> 0" "Mem A + (Cur A + 24) \<noteq> 0"
    using mem_offset(2) [OF assms(1), of "Cur A"] mem_offset(2) [OF assms(1), of "Cur A + 24"] assms c24
    by (simp_all add: arena_ok_def word_le_nat_alt)
  show "SdbArenaBootstrap A NULL Size =
      (Some (Mem A + Cur A, \<lparr>Cur = 0, Cap = Size, Mem = Mem A + Cur A + 24\<rparr>), A\<lparr>Cur := Cur A + 24 + Size\<rparr>)"
    using p1(1) p2(1) [OF fits2] nn assms(2)
    by (simp add: SdbArenaBootstrap_def sizeof_sdb_arena_def SdbArenaInit_def add.assoc)
  show "arena_ok (A\<lparr>Cur := Cur A + 24 + Size\<rparr>)" using p2(2) [OF fits2] by simp
  show "unat (Cur A + 24 + Size) = unat (Cur A) + 24 + unat Size"
    using push_no_wrap [OF ok1 sz] c24 by simp
qed

lemma SdpCreate_loop_fits:
  assumes "arena_ok A" "unat (Cur A) + k * (24 + unat S) \<le> unat (Cap A)"
  shows "\<exists>ps A' st'. SdpCreate_loop k S A st = (ps, A', st') \<and> length ps = k \<and>
    (\<forall>i<k. unat (ps ! i) = unat (Mem A) + unat (Cur A) + i * (24 + unat S) \<and>
       st' (ps ! i) = \<lparr>Cur = 0, Cap = S, Mem = ps ! i + 24\<rparr>) \<and>
    (\<forall>p. unat p < unat (Mem A) + unat (Cur A) \<longrightarrow> st' p = st p) \<and>
    A' = A\<lparr>Cur := Cur A'\<rparr> \<and> unat (Cur A') = unat (Cur A) + k * (24 + unat S)"
  using assms
proof (induction k arbitrary: A st)
  case (Suc k)
  let ?p = "Mem A + Cur A"
  let ?A = "A\<lparr>Cur := Cur A + 24 + S\<rparr>"
  let ?st = "st(?p := \<lparr>Cur = 0, Cap = S, Mem = ?p + 24\<rparr>)"
  note b = SdbArenaBootstrap_fits [OF Suc.prems(1), of S]
  have fits: "unat (Cur A) + 24 + unat S \<le> unat (Cap A)" using Suc.prems(2) by simp
  note b = b [OF this]
  have up: "unat ?p = unat (Mem A) + unat (Cur A)"
    using mem_offset(1) [OF Suc.prems(1)] Suc.prems(1) by (simp add: arena_ok_def)
  obtain ps A' st' where r: "SdpCreate_loop k S ?A ?st = (ps, A', st')" "length ps = k"
      "\<And>i. i < k \<Longrightarrow> unat (ps ! i) = unat (Mem A) + unat (Cur A + 24 + S) + i * (24 + unat S) \<and>
         st' (ps ! i) = \<lparr>Cur = 0, Cap = S, Mem = ps ! i + 24\<rparr>"
      "\<And>p. unat p < unat (Mem A) + unat (Cur A + 24 + S) \<Longrightarrow> st' p = ?st p"
      "A' = A\<lparr>Cur := Cur A'\<rparr>" "unat (Cur A') = unat (Cur A + 24 + S) + k * (24 + unat S)"
    using Suc.IH [OF b(2), of ?st] Suc.prems(2) b(3) by (auto simp del: fun_upd_apply)
  have "SdpCreate_loop (Suc k) S A st = (?p # ps, A', st')" by (simp add: b(1) r(1))
  moreover have "unat ((?p # ps) ! i) = unat (Mem A) + unat (Cur A) + i * (24 + unat S) \<and>
      st' ((?p # ps) ! i) = \<lparr>Cur = 0, Cap = S, Mem = (?p # ps) ! i + 24\<rparr>" if "i < Suc k" for i
    using that up r(3) [of "i - 1"] r(4) [of ?p] b(3) by (cases i) auto
  moreover have "st' p = st p" if "unat p < unat (Mem A) + unat (Cur A)" for p
    using that up r(4) [of p] b(3) by auto
  ultimately show ?case using r(2,5,6) b(3) by auto
qed auto

text \<open>
  C29. A pipe made without an arena fits its allocation exactly: \<^verbatim>\<open>SdpCreate\<close> puts the struct, the
  pointer table and the buffers into the \<^verbatim>\<open>PipeSize\<close> bytes it computed, leaving none over, and
  the pipe is well formed: its buffers are distinct, empty arenas of \<open>BufSize\<close> bytes over
  disjoint memory, its indices are 0 and its writer's eventfd holds one credit fewer than
  there are buffers.
\<close>

theorem sdp_create_layout:
  fixes n sz :: nat
  defines "room \<equiv> 64 + n * 8 + n * 24 + n * sz"
  assumes "0 < n" "n \<le> 2 ^ 31" "room < 2 ^ 63" "M \<noteq> 0" "unat M + room < 2 ^ 64"
  shows "\<exists>p P A st'. SdpCreate True M (of_nat n) (of_nat sz) None st = Inr (Some (p, P), A, st') \<and>
    Cur A = Cap A \<and> pipe_fresh n P \<and> pipe_ok n st' P \<and>
    (\<forall>b<n. Cur (buf_arena st' P b) = 0 \<and> Cap (buf_arena st' P b) = of_nat sz)"
proof -
  let ?n = "of_nat n :: u64" and ?S = "of_nat sz :: u64"
  have small: "n < 2 ^ 63" "sz < 2 ^ 63" "n * 8 < 2 ^ 63" "n * 24 < 2 ^ 63" "n * sz < 2 ^ 63"
    using assms(2,4) unfolding room_def by (auto intro: le_less_trans [of _ "n * sz"])
  have un: "unat ?n = n" and us: "unat ?S = sz" using small by (auto intro: unat_of_nat_fits)
  have size: "SdpPipeSize ?n ?S = of_nat room"
    by (simp add: SdpPipeSize_def sizeof_sensor_data_pipe_def sizeof_sdb_arena_def room_def)
  have ut: "unat (of_nat room :: u64) = room" using assms(4) by (intro unat_of_nat_fits) simp
  define A0 where "A0 = \<lparr>Cur = 0, Cap = of_nat room, Mem = M\<rparr>"
  have ok0: "arena_ok A0" using assms(4,5,6) ut by (simp add: A0_def arena_ok_def)
  have f0: "unat (Cur A0) + unat (64 :: u64) \<le> unat (Cap A0)" using ut by (simp add: A0_def room_def)
  note push0 = SdbArenaPush_fits [OF ok0 _ f0]
  define A1 where "A1 = A0\<lparr>Cur := 64\<rparr>"
  have p0: "SdbArenaPush A0 64 = (M, A1)" "arena_ok A1" using push0 by (simp_all add: A0_def A1_def)
  have u8: "unat (8 * ?n) = n * 8"
    using small(3) unat_of_nat_fits [of "n * 8", where 'a = 64] by (simp add: mult.commute)
  have f1: "unat (Cur A1) + unat (8 * ?n) \<le> unat (Cap A1)" using ut u8 by (simp add: A1_def A0_def room_def)
  have s1: "unat (8 * ?n) < 2 ^ 63" using u8 small(3) by simp
  define A2 where "A2 = A1\<lparr>Cur := Cur A1 + 8 * ?n\<rparr>"
  have p1: "SdbArenaPush A1 (8 * ?n) = (Mem A1 + Cur A1, A2)" "arena_ok A2"
    using SdbArenaPush_fits [OF p0(2) s1 f1] by (simp_all add: A2_def)
  have c2: "unat (Cur A2) = 64 + n * 8" using push_no_wrap [OF p0(2) s1] u8 by (simp add: A2_def A1_def)
  have f2: "unat (Cur A2) + n * (24 + unat ?S) \<le> unat (Cap A2)"
    using c2 ut us by (simp add: A2_def A1_def A0_def room_def algebra_simps)
  have nn: "Mem A1 + Cur A1 \<noteq> 0"
    using mem_offset(2) [OF p0(2), of "Cur A1"] p0(2) by (simp add: arena_ok_def)
  obtain ps A3 st' where r: "SdpCreate_loop n ?S A2 st = (ps, A3, st')" "length ps = n"
      "\<And>i. i < n \<Longrightarrow> unat (ps ! i) = unat (Mem A2) + unat (Cur A2) + i * (24 + unat ?S) \<and>
         st' (ps ! i) = \<lparr>Cur = 0, Cap = ?S, Mem = ps ! i + 24\<rparr>"
      "A3 = A2\<lparr>Cur := Cur A3\<rparr>" "unat (Cur A3) = unat (Cur A2) + n * (24 + unat ?S)"
    using SdpCreate_loop_fits [OF p1(2) f2, of st] by blast
  define P where "P = \<lparr>BufferMaxFill = 0, PacketSize = 0, ItemMaxCount = 0, WriteBufIdx = 0, ReadBufIdx = 0,
    FullBuffersCount = 0, ReadEvent = 0, WriteEvent = (if ?n = 0 then 0 else ?n - 1), BufCount = ?n, Buffers = ps\<rparr>"
  have n0: "?n \<noteq> 0" using un assms(2) by auto
  have "SdpCreate True M ?n ?S None st = Inr (Some (M, P), A3, st')"
    using p0(1) p1(1) r(1) nn assms(5) un n0
    by (simp add: SdpCreate_def SdbArenaInit_def size A0_def [symmetric] sizeof_sensor_data_pipe_def
        SdbArenaGetPos_def P_def)
  moreover have "Cur A3 = Cap A3"
  proof -
    have "Cap A3 = of_nat room" by (subst r(4)) (simp add: A2_def A1_def A0_def)
    then show ?thesis using r(5) c2 us ut by (simp add: word_unat_eq_iff room_def algebra_simps)
  qed
  moreover have "pipe_fresh n P" using assms(2,3) un n0 by (simp add: pipe_fresh_def P_def unat_pred)
  moreover have "buf_arena st' P b = \<lparr>Cur = 0, Cap = ?S, Mem = ps ! b + 24\<rparr>" if "b < n" for b
    using r(3) [OF that] by (simp add: buf_arena_def P_def)
  moreover have "pipe_ok n st' P"
  proof -
    have top: "unat M + room < 2 ^ 64" "unat M = unat (Mem A2)"
      using assms(6) by (simp_all add: A2_def A1_def A0_def)
    have q: "unat (ps ! b) = unat M + 64 + n * 8 + b * (24 + sz)" if "b < n" for b
      using r(3) [OF that] c2 us top(2) by simp
    have bound: "unat (ps ! b) + 24 + sz \<le> unat M + room" if "b < n" for b
    proof -
      have "Suc b * (24 + sz) \<le> n * (24 + sz)" using that by (intro mult_le_mono1) simp
      then show ?thesis using q [OF that] by (simp add: room_def algebra_simps)
    qed
    have m: "unat (ps ! b + 24) = unat (ps ! b) + 24" if "b < n" for b
      using bound [OF that] top(1) by (subst unat_plus_fits) auto
    have apart: "unat (ps ! a) + 24 + sz \<le> unat (ps ! b)" if "a < b" "b < n" for a b
    proof -
      have "Suc a * (24 + sz) \<le> b * (24 + sz)" using that by (intro mult_le_mono1) simp
      then show ?thesis using q [of a] q [of b] that by simp
    qed
    have "ps ! a \<noteq> ps ! b" if "a < n" "b < n" "a \<noteq> b" for a b
      using that apart [of a b] apart [of b a] by (cases "a < b") auto
    then have "distinct ps" using r(2) by (simp add: distinct_conv_nth)
    moreover have "ps ! b \<noteq> 0" if "b < n" for b
      using q [OF that] by auto
    then have "NULL \<notin> set ps" using r(2) by (auto simp: in_set_conv_nth)
    moreover have "arena_ok (buf_arena st' P b)" if "b < n" for b
    proof -
      have "ps ! b + 24 \<noteq> 0" using m [OF that] by auto
      then show ?thesis using calculation m [OF that] bound [OF that] top(1) us small(2) that
        r(3) [OF that] by (simp add: buf_arena_def P_def arena_ok_def)
    qed
    moreover have "disjoint_blocks (ps ! a + 24) sz (ps ! b + 24) sz" if "a < n" "b < n" "a \<noteq> b" for a b
    proof (cases "a < b")
      case True
      then show ?thesis using apart [of a b] m bound [of b] top(1) that
        by (intro disjoint_blocks_linear) auto
    next
      case False
      then have "disjoint_blocks (ps ! b + 24) sz (ps ! a + 24) sz"
        using apart [of b a] m bound [of a] top(1) that by (intro disjoint_blocks_linear) auto
      then show ?thesis by (rule disjoint_blocks_sym)
    qed
    ultimately show ?thesis
      using r(2,3) un us assms(2,3) by (simp add: pipe_ok_def P_def buf_arena_def)
  qed
  ultimately show ?thesis by auto
qed

theorem sdp_create_layout_witness:
  "\<exists>p P A st'. SdpCreate True 4096 (of_nat 3) (of_nat 1000) None example_store = Inr (Some (p, P), A, st') \<and>
     pipe_ok 3 st' P"
  using sdp_create_layout [of 3 1000 4096 example_store] by auto

end
