(* ===== verification/Mb_Run.thy ===== *)
theory Mb_Run
  imports Modbus_Recv Modbus_Ctx Sensor_Pipe_Refine
begin

text \<open>
  The Modbus thread, \<^verbatim>\<open>src/DataHandlers/ModbusWithPostgres/Modbus.c\<close>: its arenas, an iteration of
  its receive loop and the reconnection.
\<close>

section \<open>The thread's arenas\<close>

definition MB_SCRATCH_COUNT :: nat where "MB_SCRATCH_COUNT = 2"

text \<open>
  The part every worker thread starts with: an arena of the configured size with room for its
  scratch arenas, which are carved out of it and registered.
\<close>

fun scratch_setup :: "nat \<Rightarrow> u64 \<Rightarrow> sdb_arena \<Rightarrow> thread_arenas \<Rightarrow> arena_store \<Rightarrow>
    (sdb_arena \<times> thread_arenas \<times> arena_store) res" where
  "scratch_setup 0 Size A TAs st = Inr (A, TAs, st)"
| "scratch_setup (Suc s) Size A TAs st =
     (let (Scratch, A) = SdbArenaBootstrap A NULL Size;
          (p, st) = (case Scratch of None \<Rightarrow> (NULL, st) | Some (a, B) \<Rightarrow> (a, st(a := B)))
      in case Sdb_ThreadArenasAdd p TAs of
           Inl f \<Rightarrow> Inl f
         | Inr (r, TAs) \<Rightarrow> scratch_setup s Size A TAs st)"

definition thread_setup :: "nat \<Rightarrow> u64 \<Rightarrow> u64 \<Rightarrow> addr \<Rightarrow> arena_store \<Rightarrow> (sdb_arena \<times> thread_arenas \<times> arena_store) res" where
  "thread_setup count MemSize ScratchSize M st =
     (let A = SdbArenaInit \<lparr>Cur = 0, Cap = 0, Mem = 0\<rparr> M (MemSize + of_nat count * ScratchSize);
          (buf, TAs) = SDB_THREAD_ARENAS_REGISTER (of_nat count)
      in scratch_setup count ScratchSize A (Sdb_ThreadArenasInit buf TAs) st)"

section \<open>An iteration of the receive loop\<close>

record mb_state =
  MbPipe :: sensor_data_pipe
  MbStore :: arena_store
  MbMem :: mem
  CurBuf :: addr

text \<open>How an iteration ends: with the next one, at the label \<^verbatim>\<open>reconnect\<close>, or not at all.\<close>

datatype iteration = Continue mb_state "net_event list" | Reconnect mb_state "net_event list" | Stuck

text \<open>From the parsed frame on.\<close>

definition MbStore_packet :: "mb_state \<Rightarrow> u8 list \<Rightarrow> net_event list \<Rightarrow> iteration res" where
  "MbStore_packet s Frame es =
     (let (Data, UnitId, DataLength) = MbParseTcpFrame Frame
      in case Data of
           None \<Rightarrow> Inr (Reconnect s es)
         | Some off \<Rightarrow>
             if ucast DataLength \<noteq> PacketSize (MbPipe s) then Inr (Reconnect s es)
             else if CurBuf s = NULL then Inl NullDeref
             else
               (let (Ptr, A) = SdbArenaPush (MbStore s (CurBuf s)) (ucast DataLength);
                    s = s\<lparr>MbStore := (MbStore s)(CurBuf s := A)\<rparr>
                in if Ptr = NULL then Inl NullDeref
                   else Inr (Continue
                     (s\<lparr>MbMem := wr (MbMem s) Ptr (take (unat DataLength) (drop off Frame))\<rparr>) es)))"

text \<open>Receiving the header and then the data, each in one call.\<close>

definition MbReceive :: "mb_state \<Rightarrow> net_event list \<Rightarrow> iteration res" where
  "MbReceive s es =
     (let Frame = replicate MODBUS_TCP_FRAME_MAX_SIZE 0
      in case SocketRecvWithTimeout MODBUS_TCP_HEADER_LEN es of
           None \<Rightarrow> Inr Stuck
         | Some (HeaderResult, hdr, es) \<Rightarrow>
             if HeaderResult = - 2 then Inr (Continue s es)
             else if HeaderResult \<le> 0 then Inr (Reconnect s es)
             else if HeaderResult \<noteq> int MODBUS_TCP_HEADER_LEN then Inr (Reconnect s es)
             else
               (case put 0 hdr Frame of
                  Inl f \<Rightarrow> Inl f
                | Inr Frame \<Rightarrow>
                    (let Length = frame_length Frame
                     in if unat Length > MODBUS_TCP_FRAME_MAX_SIZE - MODBUS_TCP_HEADER_LEN then Inr (Reconnect s es)
                        else
                          (case SocketRecvWithTimeout (unat Length) es of
                             None \<Rightarrow> Inr Stuck
                           | Some (DataResult, bs, es) \<Rightarrow>
                               if DataResult \<noteq> int (unat Length) then Inr (Reconnect s es)
                               else (case put MODBUS_TCP_HEADER_LEN bs Frame of
                                       Inl f \<Rightarrow> Inl f
                                     | Inr Frame \<Rightarrow> MbStore_packet s Frame es)))))"

text \<open>
  The iteration: the overflow assertion (if the build has assertions), the next buffer when the
  current one is full, then the frame. A NULL that \<^verbatim>\<open>SdPipeGetWriteBuffer\<close> returns is not looked at.
\<close>

definition MbRun_iteration :: "bool \<Rightarrow> bool \<Rightarrow> bool \<Rightarrow> mb_state \<Rightarrow> net_event list \<Rightarrow> iteration res" where
  "MbRun_iteration asserts rd_fails wr_fails s es =
     (if CurBuf s = NULL then Inl NullDeref
      else if asserts \<and> SdbArenaGetPos (MbStore s (CurBuf s)) > BufferMaxFill (MbPipe s) then Inl AssertFail
      else if SdbArenaGetPos (MbStore s (CurBuf s)) = BufferMaxFill (MbPipe s)
      then (case SdPipeGetWriteBuffer rd_fails wr_fails (MbStore s) (MbPipe s) of
              Inl f \<Rightarrow> Inl f
            | Inr Blocks \<Rightarrow> Inr Stuck
            | Inr (Returns (b, st, P)) \<Rightarrow> MbReceive (s\<lparr>CurBuf := b, MbStore := st, MbPipe := P\<rparr>) es)
      else MbReceive s es)"

text \<open>
  The code at \<^verbatim>\<open>reconnect\<close>: the pipe is flushed and the sockets closed. \<open>CurBuf\<close> stays.
\<close>

definition MbReconnect :: "bool \<Rightarrow> bool \<Rightarrow> mb_state \<Rightarrow> mb_conn list \<Rightarrow> (mb_state \<times> mb_conn list) call res" where
  "MbReconnect rd_fails wr_fails s conns =
     (case SdPipeFlush rd_fails wr_fails (MbStore s) (MbPipe s) of
        Inl f \<Rightarrow> Inl f
      | Inr Blocks \<Rightarrow> Inr Blocks
      | Inr (Returns (st, P)) \<Rightarrow>
          Inr (Returns (s\<lparr>MbStore := st, MbPipe := P\<rparr>, map (\<lambda>c. c\<lparr>SockFd := - 1\<rparr>) conns)))"

text \<open>The inner loop for a number of iterations, or until it leaves.\<close>

fun MbRun_loop :: "nat \<Rightarrow> bool \<Rightarrow> mb_state \<Rightarrow> net_event list \<Rightarrow> iteration res" where
  "MbRun_loop 0 asserts s es = Inr (Continue s es)"
| "MbRun_loop (Suc n) asserts s es =
     (case MbRun_iteration asserts False False s es of
        Inr (Continue s es) \<Rightarrow> MbRun_loop n asserts s es
      | r \<Rightarrow> r)"

section \<open>Receiving a packet\<close>

lemma MbParseTcpFrame_append: "9 \<le> length F \<Longrightarrow> MbParseTcpFrame (F @ zs) = MbParseTcpFrame F"
  by (simp add: MbParseTcpFrame_def frame_length_def nth_append)

lemma parsed_frame_long:
  assumes "whole_frame F" "MbParseTcpFrame F = (Some off, u, dl)"
  shows "off = 9" "length F = 10 + unat dl"
  using assms by (auto simp: MbParseTcpFrame_def whole_frame_def MODBUS_TCP_HEADER_LEN_def Let_def split: if_splits)

lemma socket_recv_arrive:
  assumes "0 < Len" "Len \<le> length bs"
  shows "SocketRecvWithTimeout Len (Arrive bs # es) =
    Some (int Len, take Len bs, if length bs = Len then es else Arrive (drop Len bs) # es)"
proof -
  have "select_socket (Arrive bs # es) = Some (1, Arrive bs # es)" using assms by (cases bs) auto
  then show ?thesis using assms by (auto simp: SocketRecvWithTimeout_def)
qed

lemma MbReceive_frame:
  assumes "whole_frame F" "MbParseTcpFrame F = (Some off, u, dl)" "length F \<le> MODBUS_TCP_FRAME_MAX_SIZE"
  shows "MbReceive s (Arrive (F @ X) # es) =
    MbStore_packet s (F @ replicate (260 - length F) 0) (if X = [] then es else Arrive X # es)"
proof -
  note len = parsed_frame_long [OF assms(1,2)]
  have fl: "unat (frame_length F) = length F - 7" using assms(1) by (simp add: whole_frame_def MODBUS_TCP_HEADER_LEN_def)
  have f7: "frame_length (take 7 F @ replicate 253 0) = frame_length F" using len by (intro frame_length_take) simp
  have hdr: "SocketRecvWithTimeout 7 (Arrive (F @ X) # es) = Some (7, take 7 F, Arrive (drop 7 F @ X) # es)"
    using socket_recv_arrive [of 7 "F @ X" es] len by simp
  have dat: "SocketRecvWithTimeout (length F - 7) (Arrive (drop 7 F @ X) # es) =
      Some (int (length F - 7), drop 7 F, if X = [] then es else Arrive X # es)"
    using socket_recv_arrive [of "length F - 7" "drop 7 F @ X" es] len by simp
  have p1: "put 0 (take 7 F) (replicate 260 0) = Inr (take 7 F @ replicate 253 0)"
    using len by (simp add: put_def)
  have p2: "put 7 (drop 7 F) (take 7 F @ replicate 253 0) = Inr (F @ replicate (260 - length F) 0)"
  proof -
    have "7 + length (drop 7 F) \<le> length (take 7 F @ replicate 253 (0 :: u8))"
      using len assms(3) by (simp add: MODBUS_TCP_FRAME_MAX_SIZE_def)
    moreover have "take 7 (take 7 F @ replicate 253 0) = take 7 F" using len by simp
    moreover have "drop (7 + length (drop 7 F)) (take 7 F @ replicate 253 (0 :: u8)) = replicate (260 - length F) 0"
      using len by simp
    ultimately show ?thesis by (simp add: put_def)
  qed
  show ?thesis
    using hdr dat p1 p2 fl f7 assms(3) len
    by (simp add: MbReceive_def MODBUS_TCP_HEADER_LEN_def MODBUS_TCP_FRAME_MAX_SIZE_def)
qed

section \<open>A packet stored refines a push of the pipe\<close>

text \<open>
  The Modbus thread's state stands for a pipe state in which its client fills \<^verbatim>\<open>CurBuf\<close>; buffers hold
  whole packets, as many as \<^verbatim>\<open>BufferMaxFill\<close> allows.
\<close>

definition mb_abs :: "nat \<Rightarrow> mb_state \<Rightarrow> pipe_sys \<Rightarrow> bool" where
  "mb_abs n s t \<longleftrightarrow> Pipe t = MbPipe s \<and> pipe_ok n (MbStore s) (MbPipe s) \<and> pipe_abs n (MbMem s) (MbStore s) t \<and>
     Wpc t = WFill \<and> unat (WBuf t) < n \<and> CurBuf s = Buffers (MbPipe s) ! unat (WBuf t)"

definition mb_sizes :: "nat \<Rightarrow> mb_state \<Rightarrow> bool" where
  "mb_sizes n s \<longleftrightarrow> 0 < unat (PacketSize (MbPipe s)) \<and>
     0 < unat (BufferMaxFill (MbPipe s)) \<and>
     unat (PacketSize (MbPipe s)) dvd unat (BufferMaxFill (MbPipe s)) \<and>
     (\<forall>b<n. BufferMaxFill (MbPipe s) \<le> Cap (buf_arena (MbStore s) (MbPipe s) b)) \<and>
     unat (PacketSize (MbPipe s)) dvd unat (Cur (MbStore s (CurBuf s))) \<and>
     Cur (MbStore s (CurBuf s)) \<le> BufferMaxFill (MbPipe s)"

lemma push_in_buffer:
  fixes m :: mem and data :: "u8 list" and k :: u64
  assumes ok: "pipe_ok n st P" and b: "b < n" and A: "A = st (Buffers P ! b)"
    and fits: "unat (Cur A) + length data \<le> unat (Cap A)" and k: "unat k = length data"
  defines "st' \<equiv> st(Buffers P ! b := A\<lparr>Cur := Cur A + k\<rparr>)" and "m' \<equiv> wr m (Mem A + Cur A) data"
  shows "SdbArenaPush A k = (Mem A + Cur A, A\<lparr>Cur := Cur A + k\<rparr>)" "Mem A + Cur A \<noteq> NULL"
    and "pipe_ok n st' P"
    and "buf_bytes m' (buf_arena st' P b) = buf_bytes m (buf_arena st P b) @ data"
    and "c < n \<Longrightarrow> c \<noteq> b \<Longrightarrow> buf_bytes m' (buf_arena st' P c) = buf_bytes m (buf_arena st P c)"
proof -
  have aok: "arena_ok A" using ok b A by (auto simp: pipe_ok_def buf_arena_def)
  have cap: "unat (Cap A) < 2 ^ 63" and top: "unat (Mem A) + unat (Cap A) < 2 ^ 64" and cur: "Cur A \<le> Cap A"
    using aok by (auto simp: arena_ok_def)
  have k63: "unat k < 2 ^ 63" using fits k cap by simp
  note push = SdbArenaPush_fits [OF aok k63, unfolded k, OF fits]
  show "SdbArenaPush A k = (Mem A + Cur A, A\<lparr>Cur := Cur A + k\<rparr>)" by (rule push(1))
  show "Mem A + Cur A \<noteq> NULL" using mem_offset(2) [OF aok cur] .
  have uc: "unat (Cur A + k) = unat (Cur A) + length data" using push_no_wrap [OF aok k63] k by simp
  have upd: "buf_arena st' P c = (if c = b then A\<lparr>Cur := Cur A + k\<rparr> else buf_arena st P c)" if "c < n" for c
    using buf_arena_upd [OF ok b that] unfolding st'_def by simp
  show "pipe_ok n st' P"
  proof -
    have Ab: "A = buf_arena st P b" by (simp add: A buf_arena_def)
    show ?thesis using ok push(2) upd b unfolding pipe_ok_def Ab by auto
  qed
  have um: "unat (Mem A + Cur A) = unat (Mem A) + unat (Cur A)" using mem_offset(1) [OF aok cur] .
  have small: "length data \<le> 2 ^ 64" using fits cap by simp
  have own: "rd m' (Mem A) (unat (Cur A)) = rd m (Mem A) (unat (Cur A))"
    unfolding m'_def
  proof (rule rd_wr_disjoint [OF small])
    show "disjoint_blocks (Mem A) (unat (Cur A)) (Mem A + Cur A) (length data)"
      using um top fits by (intro disjoint_blocks_linear) simp_all
  qed (use cur cap in \<open>simp add: word_le_nat_alt\<close>)
  have new: "rd m' (Mem A + Cur A) (length data) = data" unfolding m'_def by (rule rd_wr_same [OF small])
  have "rd m' (Mem A) (unat (Cur A) + length data) = rd m (Mem A) (unat (Cur A)) @ data"
    using rd_append [of m' "Mem A" "unat (Cur A)" "length data"] own new by simp
  then show "buf_bytes m' (buf_arena st' P b) = buf_bytes m (buf_arena st P b) @ data"
    using upd [OF b] uc A by (simp add: buf_bytes_def buf_arena_def)
  show "buf_bytes m' (buf_arena st' P c) = buf_bytes m (buf_arena st P c)" if "c < n" "c \<noteq> b"
  proof -
    define C where "C = buf_arena st P c"
    have cok: "arena_ok C" and dis: "disjoint_blocks (Mem C) (unat (Cap C)) (Mem A) (unat (Cap A))"
      using ok that b A by (auto simp: pipe_ok_def buf_arena_def C_def)
    have "rd m' (Mem C) (unat (Cur C)) = rd m (Mem C) (unat (Cur C))"
      unfolding m'_def
    proof (rule rd_wr_disjoint [OF small])
      have "in_block x (Mem A) (unat (Cap A))" if "in_block x (Mem A + Cur A) (length data)" for x
        using that um top fits by (simp add: in_block_linear)
      moreover have "in_block x (Mem C) (unat (Cap C))" if "in_block x (Mem C) (unat (Cur C))" for x
        using that cok by (auto simp: in_block_def arena_ok_def word_le_nat_alt)
      ultimately show "disjoint_blocks (Mem C) (unat (Cur C)) (Mem A + Cur A) (length data)"
        using dis unfolding disjoint_blocks_def by blast
    qed (use unat_u64_less [of "Cur C"] in simp)
    then show ?thesis using upd [OF that(1)] that(2) by (simp add: buf_bytes_def C_def)
  qed
qed

text \<open>The same on the state of the thread: pushing bytes that fit is a push of the pipe.\<close>

lemma push_refines:
  assumes "mb_abs n s t" "unat k = length data"
    and "unat (Cur (MbStore s (CurBuf s))) + length data \<le> unat (Cap (MbStore s (CurBuf s)))"
  shows "\<exists>Ptr A s'. SdbArenaPush (MbStore s (CurBuf s)) k = (Ptr, A) \<and> Ptr \<noteq> NULL \<and>
    s' = s\<lparr>MbStore := (MbStore s)(CurBuf s := A), MbMem := wr (MbMem s) Ptr data\<rparr> \<and>
    A = (MbStore s (CurBuf s))\<lparr>Cur := Cur (MbStore s (CurBuf s)) + k\<rparr> \<and>
    mb_abs n s' (t\<lparr>Content := (Content t)(unat (WBuf t) := Content t (unat (WBuf t)) @ data)\<rparr>)"
proof -
  define b where "b = unat (WBuf t)"
  define A where "A = MbStore s (Buffers (MbPipe s) ! b)"
  have ok: "pipe_ok n (MbStore s) (MbPipe s)" and pa: "pipe_abs n (MbMem s) (MbStore s) t" and b: "b < n"
    and cb: "CurBuf s = Buffers (MbPipe s) ! b" and w: "Wpc t = WFill" and P: "Pipe t = MbPipe s"
    using assms(1) by (simp_all add: mb_abs_def b_def)
  have A': "MbStore s (CurBuf s) = A" by (simp add: cb A_def)
  have fits: "unat (Cur A) + length data \<le> unat (Cap A)" using assms(3) by (simp add: A')
  note push = push_in_buffer(1-3) [OF ok b A_def fits assms(2)]
  note bytes = push_in_buffer(4,5) [OF ok b A_def fits assms(2), where m = "MbMem s"]
  define s' where "s' = s\<lparr>MbStore := (MbStore s)(Buffers (MbPipe s) ! b := A\<lparr>Cur := Cur A + k\<rparr>),
    MbMem := wr (MbMem s) (Mem A + Cur A) data\<rparr>"
  define t' where "t' = t\<lparr>Content := (Content t)(b := Content t b @ data)\<rparr>"
  have "pipe_abs n (MbMem s') (MbStore s') t'"
    unfolding pipe_abs_def
  proof (intro allI impI)
    fix c assume c: "c < n"
    have "Content t c = buf_bytes (MbMem s) (buf_arena (MbStore s) (MbPipe s) c)"
      using pa c P by (simp add: pipe_abs_def)
    then show "Content t' c = buf_bytes (MbMem s') (buf_arena (MbStore s') (Pipe t') c)"
      using bytes(1) bytes(2) [OF c] P by (cases "c = b") (auto simp: t'_def s'_def)
  qed
  then have "mb_abs n s' t'" using push(3) P w b cb by (simp add: mb_abs_def s'_def t'_def b_def)
  then show ?thesis using push(1,2) A' by (simp add: s'_def t'_def b_def cb)
qed

lemma MbStore_packet_push:
  assumes abs: "mb_abs n s t" and sz: "mb_sizes n s"
    and room: "Cur (MbStore s (CurBuf s)) \<noteq> BufferMaxFill (MbPipe s)"
    and parse: "MbParseTcpFrame Frame = (Some off, u, dl)" "ucast dl = PacketSize (MbPipe s)"
    and data: "length (take (unat dl) (drop off Frame)) = unat dl"
  shows "\<exists>s' t'. MbStore_packet s Frame es = Inr (Continue s' es) \<and>
    pipe_run reload [Push (take (unat dl) (drop off Frame))] t = Some t' \<and> mb_abs n s' t' \<and> mb_sizes n s' \<and>
    MbPipe s' = MbPipe s"
proof -
  define A where "A = MbStore s (CurBuf s)"
  define bytes where "bytes = take (unat dl) (drop off Frame)"
  define mx where "mx = unat (BufferMaxFill (MbPipe s))"
  define ps where "ps = unat (PacketSize (MbPipe s))"
  have ok: "pipe_ok n (MbStore s) (MbPipe s)" and b: "unat (WBuf t) < n" and cb: "CurBuf s = Buffers (MbPipe s) ! unat (WBuf t)"
    and w: "Wpc t = WFill"
    using abs by (simp_all add: mb_abs_def)
  have dl: "unat (PacketSize (MbPipe s)) = unat dl"
  proof -
    have "unat dl < 2 ^ 64" using unsigned_less [of dl] by (rule less_trans) simp
    then show ?thesis unfolding parse(2) [symmetric] by (simp add: unsigned_ucast_eq take_bit_nat_eq_self)
  qed
  have "unat (Cur A) + ps \<le> mx"
  proof -
    have le: "unat (Cur A) < mx"
      using sz room by (auto simp: mb_sizes_def mx_def A_def word_le_nat_alt word_unat_eq_iff)
    obtain i j where ij: "unat (Cur A) = ps * i" "mx = ps * j"
      using sz by (auto simp: mb_sizes_def mx_def ps_def A_def elim!: dvdE)
    then have "i < j" using le by simp
    then have "ps * Suc i \<le> ps * j" by (intro mult_le_mono2) simp
    then show ?thesis using ij by simp
  qed
  moreover have "mx \<le> unat (Cap A)"
    using sz b cb by (auto simp: mb_sizes_def mx_def A_def buf_arena_def word_le_nat_alt)
  ultimately have fits: "unat (Cur A) + length bytes \<le> unat (Cap A)" "unat (Cur A) + length bytes \<le> mx"
    using data dl by (simp_all add: bytes_def ps_def)
  have k: "unat (PacketSize (MbPipe s)) = length bytes" using data dl by (simp add: bytes_def)
  obtain Ptr A' s' where p: "SdbArenaPush A (PacketSize (MbPipe s)) = (Ptr, A')" "Ptr \<noteq> NULL"
    "s' = s\<lparr>MbStore := (MbStore s)(CurBuf s := A'), MbMem := wr (MbMem s) Ptr bytes\<rparr>" "A' = A\<lparr>Cur := Cur A + PacketSize (MbPipe s)\<rparr>"
    "mb_abs n s' (t\<lparr>Content := (Content t)(unat (WBuf t) := Content t (unat (WBuf t)) @ bytes)\<rparr>)"
    using push_refines [OF abs k] fits(1) unfolding A_def by blast
  have "CurBuf s \<noteq> NULL" using pipe_ok_not_null [OF ok b] cb by simp
  then have "MbStore_packet s Frame es = Inr (Continue s' es)"
    using parse p(1-3) by (simp add: MbStore_packet_def bytes_def A_def)
  moreover have "mb_sizes n s'"
  proof -
    have "unat (Cur A + PacketSize (MbPipe s)) = unat (Cur A) + length bytes"
      using fits(1) k unat_u64_less [of "Cap A"] by (subst unat_plus_fits) simp_all
    moreover have "unat (PacketSize (MbPipe s)) dvd unat (Cur A) + length bytes"
      using sz k by (simp add: mb_sizes_def A_def)
    moreover have "Cap (MbStore s' a) = Cap (MbStore s a)" for a by (simp add: p(3,4) A_def)
    ultimately show ?thesis using sz fits(2) by (simp add: mb_sizes_def mx_def p(3,4) word_le_nat_alt buf_arena_def)
  qed
  ultimately show ?thesis using p(3,5) w by (auto simp: bytes_def)
qed

lemma mb_rotate_abs:
  assumes abs: "mb_abs n s t" and get: "SdPipeGetWriteBuffer False False (MbStore s) (MbPipe s) = Inr (Returns (b, st, P))"
  shows "\<exists>t'. pipe_run reload (GetWrite # write_call) t = Some t' \<and>
    mb_abs n (s\<lparr>CurBuf := b, MbStore := st, MbPipe := P\<rparr>) t'"
    and "Cur (st b) = 0" "BufferMaxFill P = BufferMaxFill (MbPipe s)" "PacketSize P = PacketSize (MbPipe s)"
    "Buffers P = Buffers (MbPipe s)" "Cap (st a) = Cap (MbStore s a)"
proof -
  have ok: "pipe_ok n (MbStore s) (Pipe t)" and pa: "pipe_abs n (MbMem s) (MbStore s) t" and w: "Wpc t = WFill"
    and P: "Pipe t = MbPipe s"
    using abs by (simp_all add: mb_abs_def)
  obtain t' where t': "pipe_run reload (GetWrite # write_call) t = Some t'" "Pipe t' = P" "pipe_ok n st P"
      "pipe_abs n (MbMem s) st t'" "b = Buffers P ! unat (WBuf t')" "Cur (st b) = 0"
    using get_write_steps [OF ok pa w, of reload] get P by auto
  define nx where "nx = NextBuf (BufCount (MbPipe s)) (WriteBufIdx (MbPipe s))"
  have wf: "Wpc t' = WFill" "WBuf t' = nx"
    using t'(1) w P by (auto simp: write_call_def nx_def split: option.splits)
  have "unat nx < n" unfolding nx_def using ok P by (intro pipe_ok_next) (auto simp: pipe_ok_def)
  then show "\<exists>t'. pipe_run reload (GetWrite # write_call) t = Some t' \<and>
      mb_abs n (s\<lparr>CurBuf := b, MbStore := st, MbPipe := P\<rparr>) t'"
    using t' wf by (auto simp: mb_abs_def simp del: pipe_run.simps)
  show "Cur (st b) = 0" by (rule t'(6))
  show "BufferMaxFill P = BufferMaxFill (MbPipe s)" "PacketSize P = PacketSize (MbPipe s)"
      "Buffers P = Buffers (MbPipe s)" "Cap (st a) = Cap (MbStore s a)"
    using get by (auto simp: SdPipeGetWriteBuffer_def eventfd_read_def Let_def SdbArenaClear_def
        split: if_splits option.splits)
qed

lemma mb_rotate:
  assumes abs: "mb_abs n s t" and sz: "mb_sizes n s"
    and get: "SdPipeGetWriteBuffer False False (MbStore s) (MbPipe s) = Inr (Returns (b, st, P))"
  shows "\<exists>t'. pipe_run reload (GetWrite # write_call) t = Some t' \<and>
    mb_abs n (s\<lparr>CurBuf := b, MbStore := st, MbPipe := P\<rparr>) t' \<and>
    mb_sizes n (s\<lparr>CurBuf := b, MbStore := st, MbPipe := P\<rparr>) \<and> Cur (st b) = 0 \<and>
    BufferMaxFill P = BufferMaxFill (MbPipe s) \<and> PacketSize P = PacketSize (MbPipe s)"
proof -
  note r = mb_rotate_abs [OF abs get]
  have "mb_sizes n (s\<lparr>CurBuf := b, MbStore := st, MbPipe := P\<rparr>)"
    using sz r(2-) by (simp add: mb_sizes_def buf_arena_def)
  then show ?thesis using r by blast
qed

lemma iteration_stores:
  assumes "mb_abs n s t" "mb_sizes n s"
    and "whole_frame F" "length F \<le> MODBUS_TCP_FRAME_MAX_SIZE"
    and "MbParseTcpFrame F = (Some off, u, dl)" "ucast dl = PacketSize (MbPipe s)"
  defines "acts \<equiv> (if Cur (MbStore s (CurBuf s)) = BufferMaxFill (MbPipe s) then GetWrite # write_call else []) @
      [Push (take (unat dl) (drop off F))]"
  shows "(pipe_run reload acts t = None \<and>
      MbRun_iteration asserts False False s (Arrive (F @ X) # es) = Inr Stuck) \<or>
    (\<exists>s' t'. MbRun_iteration asserts False False s (Arrive (F @ X) # es) =
        Inr (Continue s' (if X = [] then es else Arrive X # es)) \<and>
      pipe_run reload acts t = Some t' \<and> mb_abs n s' t' \<and> mb_sizes n s')"
proof -
  define F' where "F' = F @ replicate (260 - length F) (0 :: u8)"
  define es' where "es' = (if X = [] then es else Arrive X # es)"
  note len = parsed_frame_long [OF assms(3,5)]
  have parse: "MbParseTcpFrame F' = (Some off, u, dl)"
    unfolding F'_def using assms(5) len by (subst MbParseTcpFrame_append) simp_all
  have data: "take (unat dl) (drop off F') = take (unat dl) (drop off F)"
      "length (take (unat dl) (drop off F')) = unat dl"
    using len by (simp_all add: F'_def)
  have recv: "MbReceive r (Arrive (F @ X) # es) = MbStore_packet r F' es'" for r
    using MbReceive_frame [OF assms(3,5,4)] by (simp add: F'_def es'_def)
  have nn: "CurBuf s \<noteq> NULL" using assms(1) pipe_ok_not_null by (auto simp: mb_abs_def)
  have le: "\<not> SdbArenaGetPos (MbStore s (CurBuf s)) > BufferMaxFill (MbPipe s)"
    using assms(2) by (simp add: mb_sizes_def SdbArenaGetPos_def not_less)
  show ?thesis
  proof (cases "Cur (MbStore s (CurBuf s)) = BufferMaxFill (MbPipe s)")
    case False
    then show ?thesis
      using MbStore_packet_push [OF assms(1,2) False parse assms(6) data(2), of es' reload] nn le recv data(1)
      by (auto simp: MbRun_iteration_def acts_def SdbArenaGetPos_def es'_def [symmetric])
  next
    case True
    have full: "MbRun_iteration asserts False False s (Arrive (F @ X) # es) =
        (case SdPipeGetWriteBuffer False False (MbStore s) (MbPipe s) of
           Inl f \<Rightarrow> Inl f
         | Inr Blocks \<Rightarrow> Inr Stuck
         | Inr (Returns (b, st, P)) \<Rightarrow> MbStore_packet (s\<lparr>CurBuf := b, MbStore := st, MbPipe := P\<rparr>) F' es')"
      using nn le True recv
      by (simp add: MbRun_iteration_def SdbArenaGetPos_def split: sum.split call.split)
    have ok: "pipe_ok n (MbStore s) (Pipe t)" and pa: "pipe_abs n (MbMem s) (MbStore s) t" and w: "Wpc t = WFill"
      and P: "Pipe t = MbPipe s"
      using assms(1) by (simp_all add: mb_abs_def)
    note steps = get_write_steps [OF ok pa w, of reload, unfolded P]
    have run: "pipe_run reload acts t = (case pipe_run reload (GetWrite # write_call) t of None \<Rightarrow> None
        | Some t1 \<Rightarrow> pipe_run reload [Push (take (unat dl) (drop off F))] t1)"
      unfolding acts_def pipe_run_append using True by simp
    show ?thesis
    proof (cases "SdPipeGetWriteBuffer False False (MbStore s) (MbPipe s)")
      case (Inl f)
      then show ?thesis using steps by simp
    next
      case (Inr r)
      show ?thesis
      proof (cases r)
        case Blocks
        then show ?thesis using steps full run Inr by simp
      next
        case (Returns x)
        obtain b st P' where x: "x = (b, st, P')" by (cases x)
        define s1 where "s1 = s\<lparr>CurBuf := b, MbStore := st, MbPipe := P'\<rparr>"
        obtain t1 where t1: "pipe_run reload (GetWrite # write_call) t = Some t1" "mb_abs n s1 t1" "mb_sizes n s1"
            "Cur (st b) = 0" "BufferMaxFill P' = BufferMaxFill (MbPipe s)" "PacketSize P' = PacketSize (MbPipe s)"
          using mb_rotate [OF assms(1,2), of b st P' reload] Inr Returns x unfolding s1_def by blast
        have "Cur (MbStore s1 (CurBuf s1)) \<noteq> BufferMaxFill (MbPipe s1)"
          using t1(4,5) assms(2) by (auto simp: s1_def mb_sizes_def)
        moreover have "ucast dl = PacketSize (MbPipe s1)" using assms(6) t1(6) by (simp add: s1_def)
        ultimately obtain s' t' where s': "MbStore_packet s1 F' es' = Inr (Continue s' es')"
            "pipe_run reload [Push (take (unat dl) (drop off F'))] t1 = Some t'" "mb_abs n s' t'" "mb_sizes n s'"
          using MbStore_packet_push [OF t1(2,3) _ parse _ data(2), of es' reload] by blast
        have "MbRun_iteration asserts False False s (Arrive (F @ X) # es) = Inr (Continue s' es')"
          using full Inr Returns x s'(1) by (simp add: s1_def)
        moreover have "pipe_run reload acts t = Some t'" using run t1(1) s'(2) data(1) by simp
        ultimately show ?thesis using s'(3,4) unfolding es'_def by blast
      qed
    qed
  qed
qed

text \<open>
  C7. When a whole frame with a packet of the right size has arrived, an iteration of the
  Modbus thread stores exactly that packet behind the earlier ones: as steps of the pipe, it
  takes the next buffer first if the current one is full (and blocks where they block) and then
  pushes the packet's bytes. Buffers keep holding whole packets, at most \<^verbatim>\<open>BufferMaxFill\<close> bytes of them.
\<close>

theorem mb_iteration_stores:
  assumes "mb_abs n s t" "mb_sizes n s"
    and "whole_frame F" "length F \<le> MODBUS_TCP_FRAME_MAX_SIZE"
    and "MbParseTcpFrame F = (Some off, u, dl)" "ucast dl = PacketSize (MbPipe s)"
  defines "acts \<equiv> (if Cur (MbStore s (CurBuf s)) = BufferMaxFill (MbPipe s) then GetWrite # write_call else []) @
      [Push (take (unat dl) (drop off F))]"
  shows "(pipe_run reload acts t = None \<and>
      MbRun_iteration asserts False False s (Arrive (F @ X) # es) = Inr Stuck) \<or>
    (\<exists>s' t'. MbRun_iteration asserts False False s (Arrive (F @ X) # es) =
        Inr (Continue s' (if X = [] then es else Arrive X # es)) \<and>
      pipe_run reload acts t = Some t' \<and> mb_abs n s' t' \<and> mb_sizes n s')"
  using iteration_stores [OF assms(1-6), of reload asserts X es] unfolding acts_def .

definition example_mb :: mb_state where
  "example_mb = \<lparr>MbPipe = example_pipe 3, MbStore = example_store, MbMem = (\<lambda>_. 7), CurBuf = 1\<rparr>"

lemma example_mb_abs: "mb_abs 3 example_mb (example_sys (\<lambda>_. 7))" "mb_sizes 3 example_mb"
proof -
  have "pipe_abs 3 (\<lambda>_. 7) example_store (example_sys (\<lambda>_. 7))"
    by (simp add: pipe_abs_def less_3 example_sys_def pipe_init_def buf_bytes_def buf_arena_def
        example_pipe_def example_store_def rd_def upt_rec)
  then show "mb_abs 3 example_mb (example_sys (\<lambda>_. 7))"
    using example_ok by (simp add: mb_abs_def example_mb_def example_sys_def pipe_init_def example_pipe_def upt_rec)
  show "mb_sizes 3 example_mb"
    by (simp add: mb_sizes_def example_mb_def example_pipe_def example_store_def buf_arena_def less_3 upt_rec)
qed

theorem mb_iteration_stores_witness:
  "\<exists>s' t'. MbRun_iteration True False False example_mb [Arrive [0, 1, 0, 0, 0, 5, 1, 16, 2, 8, 9, 0]] = Inr (Continue s' []) \<and>
     mb_abs 3 s' t' \<and> Content t' 0 = [7, 7, 8, 9]"
proof -
  let ?F = "[0, 1, 0, 0, 0, 5, 1, 16, 2, 8, 9, 0] :: u8 list"
  have "whole_frame ?F" "length ?F \<le> MODBUS_TCP_FRAME_MAX_SIZE"
    by (simp_all add: whole_frame_def MODBUS_TCP_HEADER_LEN_def MODBUS_TCP_FRAME_MAX_SIZE_def frame_length_def)
  moreover have "MbParseTcpFrame ?F = (Some 9, 1, 2)" by (simp add: MbParseTcpFrame_def frame_length_def)
  moreover have "ucast (2 :: u16) = PacketSize (MbPipe example_mb)" by (simp add: example_mb_def example_pipe_def)
  moreover have "Cur (MbStore example_mb (CurBuf example_mb)) \<noteq> BufferMaxFill (MbPipe example_mb)"
    by (simp add: example_mb_def example_pipe_def example_store_def)
  ultimately obtain s' t' where "MbRun_iteration True False False example_mb [Arrive ?F] = Inr (Continue s' [])"
      "pipe_run True [Push [8, 9]] (example_sys (\<lambda>_. 7)) = Some t'" "mb_abs 3 s' t'"
    using mb_iteration_stores [OF example_mb_abs, of ?F 9 1 2 True True "[]" "[]"]
    by (auto simp: example_sys_def pipe_init_def)
  moreover from this have "Content t' 0 = [7, 7, 8, 9]"
    by (auto simp: example_sys_def pipe_init_def example_pipe_def)
  ultimately show ?thesis by blast
qed

text \<open>
  The Modbus thread, unlike \<^verbatim>\<open>MbReceiveTcpFrame\<close>, which it does not use, does not put frames
  together: a header that arrives in two pieces makes it drop the connection, although
  nothing was wrong with it.
\<close>

theorem mb_iteration_fragmented:
  assumes "CurBuf s \<noteq> NULL" "Cur (MbStore s (CurBuf s)) < BufferMaxFill (MbPipe s)"
    and "0 < length bs" "length bs < MODBUS_TCP_HEADER_LEN"
  shows "MbRun_iteration asserts False False s (Arrive bs # es) = Inr (Reconnect s es)"
proof -
  have "SocketRecvWithTimeout 7 (Arrive bs # es) = Some (int (length bs), bs, es)"
  proof -
    have "select_socket (Arrive bs # es) = Some (1, Arrive bs # es)" using assms(3) by (cases bs) auto
    then show ?thesis using assms(3,4) by (auto simp: SocketRecvWithTimeout_def MODBUS_TCP_HEADER_LEN_def)
  qed
  then show ?thesis using assms by (auto simp: MbRun_iteration_def MbReceive_def MODBUS_TCP_HEADER_LEN_def SdbArenaGetPos_def)
qed

theorem mb_iteration_fragmented_witness:
  "MbRun_iteration True False False example_mb [Arrive [0, 1, 0], Arrive [0, 0, 5, 1, 16, 2, 8, 9, 0]] =
   Inr (Reconnect example_mb [Arrive [0, 0, 5, 1, 16, 2, 8, 9, 0]])"
  by (rule mb_iteration_fragmented)
     (simp_all add: example_mb_def example_pipe_def example_store_def MODBUS_TCP_HEADER_LEN_def)

end
