(* ===== verification/Thread_Sync.thy ===== *)
theory Thread_Sync
  imports Sdb_Time Sensor_Pipe
begin

text \<open>
  The synchronisation primitives of \<^verbatim>\<open>src/Common/Thread.c\<close> over the state of the POSIX object each
  wraps, and the thread control as a system of threads that share it. A call is \<open>Blocks\<close> when it
  cannot return in the state it is made in; \<open>expires\<close> and \<open>intr\<close> say that the deadline passes or a
  signal arrives first.
\<close>

section \<open>Error numbers\<close>

definition EINTR :: int where "EINTR = 4"
definition EIO :: int where "EIO = 5"
definition EAGAIN :: int where "EAGAIN = 11"
definition ENOMEM :: int where "ENOMEM = 12"
definition EBUSY :: int where "EBUSY = 16"
definition EEXIST :: int where "EEXIST = 17"
definition EINVAL :: int where "EINVAL = 22"
definition EOVERFLOW :: int where "EOVERFLOW = 75"
definition ETIMEDOUT :: int where "ETIMEDOUT = 110"

lemmas errnos = EINTR_def EIO_def EAGAIN_def ENOMEM_def EBUSY_def EEXIST_def EINVAL_def EOVERFLOW_def ETIMEDOUT_def

definition SDB_TIMEOUT_NONE :: sdb_timediff where "SDB_TIMEOUT_NONE = 0"
definition SDB_TIMEOUT_MAX :: sdb_timediff where "SDB_TIMEOUT_MAX = SDB_TIME_MAX"

text \<open>The clock and its error, as in \<open>SdbTimeNow\<close>.\<close>

definition CreateTimeout :: "timespec option \<Rightarrow> int \<Rightarrow> timespec \<Rightarrow> sdb_timediff \<Rightarrow> int \<times> timespec" where
  "CreateTimeout clock err Timespec Timeout = SdbTimespecAbsolute clock err Timespec Timeout"

section \<open>Semaphores\<close>

definition SEM_VALUE_MAX :: nat where "SEM_VALUE_MAX = 2147483647"

definition SdbSemInit :: "u32 \<Rightarrow> int \<times> nat option" where
  "SdbSemInit InitialValue =
     (if unat InitialValue > SEM_VALUE_MAX then (- EINVAL, None) else (0, Some (unat InitialValue)))"

definition SdbSemDeinit :: "nat \<Rightarrow> int \<times> nat" where
  "SdbSemDeinit Sem = (0, Sem)"

definition SdbSemWait ::
  "timespec option \<Rightarrow> int \<Rightarrow> timespec \<Rightarrow> bool \<Rightarrow> bool \<Rightarrow> sdb_timediff \<Rightarrow> nat \<Rightarrow> (int \<times> nat) call" where
  "SdbSemWait clock err ts intr expires Timeout Sem =
     (if Timeout = SDB_TIMEOUT_NONE
      then (if Sem > 0 then Returns (0, Sem - 1) else Returns (- EAGAIN, Sem))
      else if Timeout = SDB_TIMEOUT_MAX
      then (if Sem > 0 then Returns (0, Sem - 1) else if intr then Returns (- EINTR, Sem) else Blocks)
      else
        (let (Ret, Timespec) = CreateTimeout clock err ts Timeout
         in if Ret \<noteq> 0 then Returns (Ret, Sem)
            else if Sem > 0 then Returns (0, Sem - 1)
            else if intr then Returns (- EINTR, Sem)
            else if expires then Returns (- ETIMEDOUT, Sem) else Blocks))"

definition SdbSemPost :: "nat \<Rightarrow> int \<times> nat" where
  "SdbSemPost Sem = (if Sem = SEM_VALUE_MAX then (- EOVERFLOW, Sem) else (0, Sem + 1))"

section \<open>Mutexes\<close>

text \<open>A mutex is its owner. Locking one that the thread itself owns blocks; unlocking is not checked.\<close>

type_synonym tid = nat
type_synonym sdb_mutex = "tid option"

definition SdbMutexInit :: "int \<Rightarrow> sdb_mutex \<Rightarrow> int \<times> sdb_mutex" where
  "SdbMutexInit err Mutex = (- err, if err = 0 then None else Mutex)"

definition SdbMutexDeinit :: "int \<Rightarrow> int" where
  "SdbMutexDeinit err = - err"

definition SdbMutexLock ::
  "timespec option \<Rightarrow> int \<Rightarrow> timespec \<Rightarrow> bool \<Rightarrow> tid \<Rightarrow> sdb_timediff \<Rightarrow> sdb_mutex \<Rightarrow> (int \<times> sdb_mutex) call" where
  "SdbMutexLock clock err ts expires t Timeout Mutex =
     (if Timeout = SDB_TIMEOUT_NONE
      then (if Mutex = None then Returns (0, Some t) else Returns (- EBUSY, Mutex))
      else if Timeout = SDB_TIMEOUT_MAX
      then (if Mutex = None then Returns (0, Some t) else Blocks)
      else
        (let (Ret, Timespec) = CreateTimeout clock err ts Timeout
         in if Ret \<noteq> 0 then Returns (Ret, Mutex)
            else if Mutex = None then Returns (0, Some t)
            else if expires then Returns (- ETIMEDOUT, Mutex) else Blocks))"

definition SdbMutexUnlock :: "sdb_mutex \<Rightarrow> int \<times> sdb_mutex" where
  "SdbMutexUnlock Mutex = (0, None)"

section \<open>Condition variables\<close>

text \<open>
  A condition variable is the list of its waiters. Waiting either returns an error at once or gives
  up the mutex and joins the list; \<open>None\<close> is the wait.
\<close>

type_synonym sdb_cond = "tid list"

definition SdbCondInit :: "int \<Rightarrow> sdb_cond \<Rightarrow> int \<times> sdb_cond" where
  "SdbCondInit err Cond = (- err, if err = 0 then [] else Cond)"

definition SdbCondDeinit :: "int \<Rightarrow> int" where
  "SdbCondDeinit err = - err"

definition SdbCondWait ::
  "timespec option \<Rightarrow> int \<Rightarrow> timespec \<Rightarrow> tid \<Rightarrow> sdb_timediff \<Rightarrow> sdb_cond \<Rightarrow> sdb_mutex \<Rightarrow> int option \<times> sdb_cond \<times> sdb_mutex" where
  "SdbCondWait clock err ts t Timeout Cond Mutex =
     (if Timeout = SDB_TIMEOUT_NONE then (Some (- EINVAL), Cond, Mutex)
      else if Timeout = SDB_TIMEOUT_MAX then (None, Cond @ [t], None)
      else
        (let (Ret, Timespec) = CreateTimeout clock err ts Timeout
         in if Ret \<noteq> 0 then (Some Ret, Cond, Mutex) else (None, Cond @ [t], None)))"

text \<open>A signal wakes one waiter, if there is one; a broadcast wakes all. The woken are returned.\<close>

definition SdbCondSignal :: "sdb_cond \<Rightarrow> int \<times> tid list \<times> sdb_cond" where
  "SdbCondSignal Cond = (0, take 1 Cond, drop 1 Cond)"

definition SdbCondBroadcast :: "sdb_cond \<Rightarrow> int \<times> tid list \<times> sdb_cond" where
  "SdbCondBroadcast Cond = (0, Cond, [])"

section \<open>Barriers\<close>

record sdb_barrier =
  Needed :: nat
  Arrived :: "tid list"

definition PTHREAD_BARRIER_SERIAL_THREAD :: int where "PTHREAD_BARRIER_SERIAL_THREAD = - 1"

definition SdbBarrierInit :: "int \<Rightarrow> u32 \<Rightarrow> sdb_barrier \<Rightarrow> int \<times> sdb_barrier" where
  "SdbBarrierInit err ThreadCount Barrier =
     (if ThreadCount = 0 then (- EINVAL, Barrier)
      else (- err, if err = 0 then \<lparr>Needed = unat ThreadCount, Arrived = []\<rparr> else Barrier))"

definition SdbBarrierDeinit :: "int \<Rightarrow> int" where
  "SdbBarrierDeinit err = - err"

text \<open>
  The threads an arrival lets go, with what \<^verbatim>\<open>SdbBarrierWait\<close> returns to each, and the barrier. The one that
  arrived last is told apart.
\<close>

definition SdbBarrierWait :: "tid \<Rightarrow> sdb_barrier \<Rightarrow> (tid \<times> int) list \<times> sdb_barrier" where
  "SdbBarrierWait t B =
     (if length (Arrived B) + 1 < Needed B then ([], B\<lparr>Arrived := Arrived B @ [t]\<rparr>)
      else (map (\<lambda>u. (u, 0)) (Arrived B) @ [(t, - PTHREAD_BARRIER_SERIAL_THREAD)], B\<lparr>Arrived := []\<rparr>))"

fun barrier_run :: "tid list \<Rightarrow> sdb_barrier \<Rightarrow> (tid \<times> int) list \<times> sdb_barrier" where
  "barrier_run [] B = ([], B)"
| "barrier_run (t # ts) B =
     (let (out, B) = SdbBarrierWait t B; (outs, B) = barrier_run ts B in (out @ outs, B))"

lemma barrier_run_fewer:
  "length (Arrived B) + length ts < Needed B \<Longrightarrow> barrier_run ts B = ([], B\<lparr>Arrived := Arrived B @ ts\<rparr>)"
  by (induction ts arbitrary: B) (simp_all add: SdbBarrierWait_def Let_def)

lemma barrier_run_append:
  "barrier_run (ts @ us) B =
    (let (out, B) = barrier_run ts B; (outs, B) = barrier_run us B in (out @ outs, B))"
  by (induction ts arbitrary: B) (simp_all add: Let_def split: prod.splits)

text \<open>
  A barrier for \<open>n\<close> threads: with fewer arrivals nobody gets through, with \<open>n\<close> everybody does, and
  the wrapper's result is an error-like 1 for the last.
\<close>

theorem barrier_opens:
  assumes "Needed B = length ts + 1" "Arrived B = []"
  shows "barrier_run ts B = ([], B\<lparr>Arrived := ts\<rparr>) \<and>
    barrier_run (ts @ [t]) B = (map (\<lambda>u. (u, 0)) ts @ [(t, 1)], B)"
  using assms barrier_run_fewer [of B ts]
  by (simp add: barrier_run_append SdbBarrierWait_def PTHREAD_BARRIER_SERIAL_THREAD_def Let_def)

end
