(* ===== verification/Pg_Run.thy ===== *)
theory Pg_Run
  imports Pg_Encode Mb_Run Thread_Sync
begin

text \<open>
  The database thread, \<^verbatim>\<open>src/DataHandlers/ModbusWithPostgres/Postgres.c\<close>: its loop over the events of
  the pipe, the buffers it takes and the transactions it makes of them. What \<^verbatim>\<open>epoll_wait\<close>,
  \<^verbatim>\<open>SdPipeGetReadBuffer\<close> and the server answer is given in the order it is asked for.
\<close>

section \<open>The loop\<close>

definition PG_SCRATCH_COUNT :: nat where "PG_SCRATCH_COUNT = 2"

record pg_loop =
  Ret :: int
  PgFailCounter :: u64
  TimeoutCounter :: u64
  TotalInsertedItems :: u64
  SentCmds :: "pg_cmd list"

text \<open>
  A buffer comes with the memory it is read from and the server's answers to its transaction; \<open>NoBuffer\<close> is
  NULL. A call that finds no more results blocks.
\<close>

datatype read_result = NoBuffer | Buffer sdb_arena mem pg_answers

datatype inner_end = Leaves pg_loop "read_result list" | Waits pg_loop

fun PgRun_inner ::
  "bool \<Rightarrow> pg_table_info \<Rightarrow> sdb_arena \<Rightarrow> u64 \<Rightarrow> read_result list \<Rightarrow> pg_loop \<Rightarrow> inner_end res" where
  "PgRun_inner asserts Ti Scratch ItemSize [] L = Inr (Waits L)"
| "PgRun_inner asserts Ti Scratch ItemSize (NoBuffer # rs) L = Inr (Leaves L rs)"
| "PgRun_inner asserts Ti Scratch ItemSize (Buffer Buf m E # rs) L =
     (if ItemSize = 0 then Inl DivByZero
      else if asserts \<and> Cur Buf mod ItemSize \<noteq> 0 then Inl AssertFail
      else
        (let ItemCount = Cur Buf div ItemSize;
             L = L\<lparr>TotalInsertedItems := TotalInsertedItems L + ItemCount\<rparr>;
             (InsertRet, cs, m') = PgInsertData E Ti (rd m (Mem Buf) (unat (Cur Buf))) ItemCount m Scratch;
             L = L\<lparr>SentCmds := SentCmds L @ cs\<rparr>
         in if TotalInsertedItems L \<ge> 1000000 then Inr (Leaves L rs)
            else if InsertRet \<noteq> 0
            then (let L = L\<lparr>PgFailCounter := PgFailCounter L + 1\<rparr>
                  in if PgFailCounter L \<ge> 5 then Inr (Leaves (L\<lparr>Ret := - 1\<rparr>) rs)
                     else PgRun_inner asserts Ti Scratch ItemSize rs L)
            else PgRun_inner asserts Ti Scratch ItemSize rs L))"

text \<open>
  The event of an iteration: \<open>EpollReady\<close> with the error and the input flag. After a timeout the flags
  are those the uninitialised array happens to hold, and are looked at when the counter has reached 5.
\<close>

datatype pg_event = EpollFails int | EpollTimesOut bool bool | EpollReady bool bool

text \<open>How the loop ends: it is left, it waits for the next event, or it waits inside a read.\<close>

datatype run_end = Exits pg_loop | Polling pg_loop | Reading pg_loop

datatype run_step = Ends run_end | Goes pg_loop "read_result list"

definition PgRun_events ::
  "bool \<Rightarrow> pg_table_info \<Rightarrow> sdb_arena \<Rightarrow> u64 \<Rightarrow> bool \<Rightarrow> bool \<Rightarrow> read_result list \<Rightarrow> pg_loop \<Rightarrow> run_step res" where
  "PgRun_events asserts Ti Scratch ItemSize err input rs L =
     (if err then Inr (Ends (Exits (L\<lparr>Ret := - EIO\<rparr>)))
      else if input
      then (case PgRun_inner asserts Ti Scratch ItemSize rs L of
              Inl f \<Rightarrow> Inl f
            | Inr (Leaves L rs) \<Rightarrow> Inr (Goes L rs)
            | Inr (Waits L) \<Rightarrow> Inr (Ends (Reading L)))
      else Inr (Goes L rs))"

definition PgRun_iteration ::
  "bool \<Rightarrow> pg_table_info \<Rightarrow> sdb_arena \<Rightarrow> u64 \<Rightarrow> pg_event \<Rightarrow> read_result list \<Rightarrow> pg_loop \<Rightarrow> run_step res" where
  "PgRun_iteration asserts Ti Scratch ItemSize ev rs L =
     (case ev of
        EpollFails e \<Rightarrow> if e = EINTR then Inr (Goes L rs) else Inr (Ends (Exits (L\<lparr>Ret := - e\<rparr>)))
      | EpollTimesOut err input \<Rightarrow>
          (let L = L\<lparr>TimeoutCounter := TimeoutCounter L + 1\<rparr>
           in if TimeoutCounter L \<ge> 5
              then PgRun_events asserts Ti Scratch ItemSize err input rs (L\<lparr>Ret := - ETIMEDOUT\<rparr>)
              else Inr (Goes L rs))
      | EpollReady err input \<Rightarrow> PgRun_events asserts Ti Scratch ItemSize err input rs L)"

text \<open>The whole loop; each event comes with the shutdown flag as it is read before it.\<close>

fun PgRun_loop ::
  "bool \<Rightarrow> pg_table_info \<Rightarrow> sdb_arena \<Rightarrow> u64 \<Rightarrow> (bool \<times> pg_event) list \<Rightarrow> read_result list \<Rightarrow> pg_loop \<Rightarrow> run_end res" where
  "PgRun_loop asserts Ti Scratch ItemSize [] rs L = Inr (Polling L)"
| "PgRun_loop asserts Ti Scratch ItemSize ((shutdown, ev) # evs) rs L =
     (if shutdown then Inr (Exits L)
      else (case PgRun_iteration asserts Ti Scratch ItemSize ev rs L of
              Inl f \<Rightarrow> Inl f
            | Inr (Ends e) \<Rightarrow> Inr e
            | Inr (Goes L rs) \<Rightarrow> PgRun_loop asserts Ti Scratch ItemSize evs rs L))"

text \<open>The milliseconds \<^verbatim>\<open>epoll_wait\<close> is given, from a macro that counts nanoseconds.\<close>

definition PG_EPOLL_TIMEOUT :: sdb_timediff where "PG_EPOLL_TIMEOUT = SDB_TIME_MS 100"

section \<open>The thread\<close>

datatype pg_release = Barrier | FinishConn | CloseEpoll | FreeArena

text \<open>
  The arenas are set up, the context prepared, the event file watched; then the barrier and the loop. The result
  (\<open>None\<close> for a thread that does not return) comes with what the thread did for others: reaching
  the barrier and giving back what it holds.
\<close>

definition PgRun ::
  "(sdb_arena \<times> thread_arenas \<times> arena_store) res \<Rightarrow> pg_table_info option \<Rightarrow> int \<Rightarrow> bool \<Rightarrow> int \<Rightarrow> bool \<Rightarrow> sdb_arena \<Rightarrow> u64 \<Rightarrow>
     (bool \<times> pg_event) list \<Rightarrow> read_result list \<Rightarrow> (int option \<times> pg_release list) res" where
  "PgRun arenas PgCtx EpollFd ctl_ok errno asserts Scratch ItemSize evs rs =
     (case arenas of
        Inl f \<Rightarrow> Inl f
      | Inr _ \<Rightarrow>
          (case PgCtx of
             None \<Rightarrow> Inr (Some (- 1), [])
           | Some Ti \<Rightarrow>
               if EpollFd = - 1 then Inr (Some (- errno), [])
               else if \<not> ctl_ok then Inr (Some (- errno), [])
               else
                 (case PgRun_loop asserts Ti Scratch ItemSize evs rs
                         \<lparr>Ret = 0, PgFailCounter = 0, TimeoutCounter = 0, TotalInsertedItems = 0, SentCmds = []\<rparr> of
                    Inl f \<Rightarrow> Inl f
                  | Inr (Exits L) \<Rightarrow> Inr (Some (Ret L), [Barrier, FinishConn, CloseEpoll, FreeArena])
                  | Inr _ \<Rightarrow> Inr (None, [Barrier]))))"

section \<open>What reaches the database\<close>

text \<open>The copy streams a server commits, one for each committed transaction.\<close>

fun committed :: "pg_cmd list \<Rightarrow> u8 list \<Rightarrow> u8 list list" where
  "committed [] pending = []"
| "committed (PutData d # cs) pending = committed cs (pending @ d)"
| "committed (PutEnd ok # cs) pending = committed cs (if ok then pending else [])"
| "committed (Exec c # cs) pending = (if c = ''COMMIT'' then pending # committed cs [] else committed cs [])"

lemma PgInsertData_all_well:
  assumes "fst (SdbArenaPush S (NtwrkConvBufSize Ti n)) \<noteq> NULL"
  shows "\<exists>m'. PgInsertData all_well Ti D n m S =
    (0, [Exec ''BEGIN'', Exec (CopyCommand Ti), PutData CopyHeader, PutData (PgConvert Ti D (unat n)), PutEnd True,
         Exec ''COMMIT''], m')"
proof -
  have "fst (SdbArenaPushZero m S (NtwrkConvBufSize Ti n)) \<noteq> NULL"
    using assms by (auto simp: SdbArenaPush_def SdbArenaPushZero_def Let_def split: if_splits)
  then obtain b S' m1 where "SdbArenaPushZero m S (NtwrkConvBufSize Ti n) = (b, S', m1)" "b \<noteq> NULL"
    by (cases "SdbArenaPushZero m S (NtwrkConvBufSize Ti n)") simp
  then show ?thesis by (simp add: PgInsertData_def PgInsert_end_def all_well_def Let_def)
qed

lemma committed_append_insert:
  assumes "CopyCommand Ti \<noteq> ''COMMIT''"
  shows "committed ([Exec ''BEGIN'', Exec (CopyCommand Ti), PutData H, PutData D, PutEnd True, Exec ''COMMIT''] @ cs) [] =
    (H @ D) # committed cs []"
  using assms by simp

definition buf_data :: "sdb_arena \<times> mem \<Rightarrow> u8 list" where
  "buf_data b = (case b of (Buf, m) \<Rightarrow> rd m (Mem Buf) (unat (Cur Buf)))"

definition buf_items :: "u64 \<Rightarrow> sdb_arena \<times> mem \<Rightarrow> nat" where
  "buf_items ItemSize b = unat (Cur (fst b)) div unat ItemSize"

definition insert_cmds :: "pg_table_info \<Rightarrow> u64 \<Rightarrow> sdb_arena \<times> mem \<Rightarrow> pg_cmd list" where
  "insert_cmds Ti ItemSize b =
     [Exec ''BEGIN'', Exec (CopyCommand Ti), PutData CopyHeader, PutData (PgConvert Ti (buf_data b) (buf_items ItemSize b)),
      PutEnd True, Exec ''COMMIT'']"

text \<open>A buffer that can be inserted: whole packets, and room for the conversion buffer.\<close>

definition insertable :: "pg_table_info \<Rightarrow> sdb_arena \<Rightarrow> u64 \<Rightarrow> sdb_arena \<times> mem \<Rightarrow> bool" where
  "insertable Ti Scratch ItemSize b \<longleftrightarrow> Cur (fst b) mod ItemSize = 0 \<and>
     fst (SdbArenaPush Scratch (NtwrkConvBufSize Ti (Cur (fst b) div ItemSize))) \<noteq> NULL"

lemma unat_total:
  assumes "unat T + unat (Cur B) div unat S < 1000000"
  shows "unat (T + Cur B div S :: u64) = unat T + unat (Cur B) div unat S" "\<not> T + Cur B div S \<ge> 1000000"
proof -
  have d: "unat (Cur B div S) = unat (Cur B) div unat S" by (rule unat_div)
  then show u: "unat (T + Cur B div S) = unat T + unat (Cur B) div unat S"
    using assms by (subst unat_plus_fits) simp_all
  then show "\<not> T + Cur B div S \<ge> 1000000" using assms by (simp add: word_le_nat_alt)
qed

lemma PgRun_inner_all_well:
  assumes "ItemSize \<noteq> 0" "\<forall>b\<in>set bs. insertable Ti Scratch ItemSize b"
    "unat (TotalInsertedItems L) + sum_list (map (buf_items ItemSize) bs) < 1000000"
  shows "\<exists>L'. PgRun_inner asserts Ti Scratch ItemSize (map (\<lambda>(B, m). Buffer B m all_well) bs) L = Inr (Waits L') \<and>
    SentCmds L' = SentCmds L @ concat (map (insert_cmds Ti ItemSize) bs) \<and> Ret L' = Ret L \<and>
    unat (TotalInsertedItems L') = unat (TotalInsertedItems L) + sum_list (map (buf_items ItemSize) bs)"
  using assms(2,3)
proof (induction bs arbitrary: L)
  case (Cons b bs)
  obtain B m where b: "b = (B, m)" by (cases b)
  let ?n = "Cur B div ItemSize"
  have ins: "Cur B mod ItemSize = 0" "fst (SdbArenaPush Scratch (NtwrkConvBufSize Ti ?n)) \<noteq> NULL"
    using Cons.prems(1) by (simp_all add: b insertable_def)
  have items: "buf_items ItemSize b = unat (Cur B) div unat ItemSize" by (simp add: b buf_items_def)
  have t: "unat (TotalInsertedItems L) + unat (Cur B) div unat ItemSize < 1000000" using Cons.prems(2) items by simp
  have n: "unat ?n = buf_items ItemSize b" by (simp add: items unat_div)
  obtain m' where i: "PgInsertData all_well Ti (buf_data b) ?n m Scratch = (0, insert_cmds Ti ItemSize b, m')"
    using PgInsertData_all_well [OF ins(2), of "buf_data b" m] by (auto simp: insert_cmds_def n)
  let ?L = "L\<lparr>TotalInsertedItems := TotalInsertedItems L + ?n, SentCmds := SentCmds L @ insert_cmds Ti ItemSize b\<rparr>"
  have step: "PgRun_inner asserts Ti Scratch ItemSize (map (\<lambda>(B, m). Buffer B m all_well) (b # bs)) L =
      PgRun_inner asserts Ti Scratch ItemSize (map (\<lambda>(B, m). Buffer B m all_well) bs) ?L"
    using i assms(1) ins(1) unat_total(2) [OF t] by (simp add: b buf_data_def Let_def)
  have "unat (TotalInsertedItems ?L) + sum_list (map (buf_items ItemSize) bs) < 1000000"
    using Cons.prems(2) unat_total(1) [OF t] items by simp
  then obtain L' where "PgRun_inner asserts Ti Scratch ItemSize (map (\<lambda>(B, m). Buffer B m all_well) bs) ?L = Inr (Waits L') \<and>
      SentCmds L' = SentCmds ?L @ concat (map (insert_cmds Ti ItemSize) bs) \<and> Ret L' = Ret ?L \<and>
      unat (TotalInsertedItems L') = unat (TotalInsertedItems ?L) + sum_list (map (buf_items ItemSize) bs)"
    using Cons.IH [of ?L] Cons.prems(1) by auto
  then show ?case unfolding step using unat_total(1) [OF t] items by auto
qed simp

lemma committed_inserts:
  assumes "CopyCommand Ti \<noteq> ''COMMIT''"
  shows "committed (concat (map (insert_cmds Ti ItemSize) bs)) [] =
    map (\<lambda>b. CopyHeader @ PgConvert Ti (buf_data b) (buf_items ItemSize b)) bs"
  using assms by (induction bs) (simp_all add: insert_cmds_def)

lemma run_inserts:
  assumes "CopyCommand Ti \<noteq> ''COMMIT''" "ItemSize \<noteq> 0" "\<forall>b\<in>set bs. insertable Ti Scratch ItemSize b"
    "unat (TotalInsertedItems L) + sum_list (map (buf_items ItemSize) bs) < 1000000" "SentCmds L = []"
  shows "\<exists>L'. PgRun_loop asserts Ti Scratch ItemSize ((False, EpollReady False True) # evs)
      (map (\<lambda>(B, m). Buffer B m all_well) bs) L = Inr (Reading L') \<and> Ret L' = Ret L \<and>
    committed (SentCmds L') [] = map (\<lambda>b. CopyHeader @ PgConvert Ti (buf_data b) (buf_items ItemSize b)) bs"
proof -
  obtain L' where "PgRun_inner asserts Ti Scratch ItemSize (map (\<lambda>(B, m). Buffer B m all_well) bs) L = Inr (Waits L')"
    "SentCmds L' = SentCmds L @ concat (map (insert_cmds Ti ItemSize) bs)" "Ret L' = Ret L"
    using PgRun_inner_all_well [OF assms(2-4)] by blast
  then show ?thesis
    using committed_inserts [OF assms(1)] assms(5) by (simp add: PgRun_iteration_def PgRun_events_def)
qed


text \<open>
  Exceeding the number of timeouts does not stop the loop, as the message says: the code is noted in the return value
  and the events that follow are handled as before.
\<close>

theorem pg_timeouts_do_not_stop:
  assumes "0 < n" "unat (TimeoutCounter L) + n < 2 ^ 64"
  shows "PgRun_loop asserts Ti Scratch ItemSize (replicate n (False, EpollTimesOut False False) @ evs) rs L =
    PgRun_loop asserts Ti Scratch ItemSize evs rs
      (L\<lparr>TimeoutCounter := TimeoutCounter L + of_nat n,
         Ret := (if 5 \<le> unat (TimeoutCounter L) + n then - ETIMEDOUT else Ret L)\<rparr>)"
  using assms
proof (induction n arbitrary: L)
  case (Suc n)
  let ?L = "L\<lparr>TimeoutCounter := TimeoutCounter L + 1, Ret := (if 5 \<le> unat (TimeoutCounter L) + 1 then - ETIMEDOUT else Ret L)\<rparr>"
  have u: "unat (TimeoutCounter L + 1) = unat (TimeoutCounter L) + 1" using Suc.prems(2) by (subst unat_plus_fits) simp_all
  have step: "PgRun_loop asserts Ti Scratch ItemSize (replicate (Suc n) (False, EpollTimesOut False False) @ evs) rs L =
      PgRun_loop asserts Ti Scratch ItemSize (replicate n (False, EpollTimesOut False False) @ evs) rs ?L"
    using u by (auto simp: PgRun_iteration_def PgRun_events_def Let_def word_le_nat_alt)
  show ?case
  proof (cases "n = 0")
    case True
    then show ?thesis using step by simp
  next
    case False
    then show ?thesis using step Suc.IH [of ?L] Suc.prems(2) u by (simp add: add.assoc)
  qed
qed simp

text \<open>
  A shutdown is not noticed by a thread that waits for a buffer: after the first event the inner loop reads until a
  read returns NULL, whatever the flag says afterwards.
\<close>

theorem pg_shutdown_not_seen:
  "PgRun_loop asserts Ti Scratch ItemSize ((False, EpollReady False True) # map (\<lambda>ev. (True, ev)) evs) [] L = Inr (Reading L)"
  by (simp add: PgRun_iteration_def PgRun_events_def)

text \<open>
  When the context cannot be prepared or the pipe's event not watched, the thread returns without reaching the
  barrier that the two other threads of the group wait at; they never get through.
\<close>

theorem pg_setup_failure_blocks_others:
  assumes "PgCtx = None \<or> EpollFd = - 1 \<or> \<not> ctl_ok" "Needed B = 3" "Arrived B = []"
  shows "\<exists>r. PgRun (Inr x) PgCtx EpollFd ctl_ok errno asserts Scratch ItemSize evs rs = Inr (Some r, []) \<and>
    fst (barrier_run [mb, server] B) = []"
  using assms barrier_run_fewer [of B "[mb, server]"] by (auto simp: PgRun_def split: option.splits)

section \<open>Examples\<close>

definition pg_loop_start :: pg_loop where
  "pg_loop_start = \<lparr>Ret = 0, PgFailCounter = 0, TimeoutCounter = 0, TotalInsertedItems = 0, SentCmds = []\<rparr>"

definition example_buf :: "sdb_arena \<times> mem" where
  "example_buf = (\<lparr>Cur = 16, Cap = 64, Mem = 1000\<rparr>, \<lambda>_. 0)"

definition example_scratch :: sdb_arena where
  "example_scratch = \<lparr>Cur = 0, Cap = 4096, Mem = 65536\<rparr>"

lemma example_insertable: "insertable example_table example_scratch 16 example_buf"
  by (simp add: insertable_def example_buf_def example_scratch_def SdbArenaPush_def NtwrkConvBufSize_def example_table_def)


theorem pg_timeouts_do_not_stop_witness:
  "PgRun_loop True example_table example_scratch 16
      (replicate 5 (False, EpollTimesOut False False) @ [(False, EpollFails EINTR)]) [] pg_loop_start =
    Inr (Polling (pg_loop_start\<lparr>TimeoutCounter := 5, Ret := - 110\<rparr>))"
proof -
  have "unat (TimeoutCounter pg_loop_start) + 5 < 2 ^ 64" by (simp add: pg_loop_start_def)
  from pg_timeouts_do_not_stop [OF _ this, of True example_table example_scratch 16 "[(False, EpollFails EINTR)]" "[]"]
  show ?thesis
    by (simp add: PgRun_iteration_def pg_loop_start_def ETIMEDOUT_def EINTR_def)
qed

theorem pg_setup_failure_blocks_others_witness:
  "\<exists>r. PgRun (Inr (example_scratch, \<lparr>Arenas = None, TaCount = 0, MaxCount = 2\<rparr>, \<lambda>_. example_scratch)) None 5 True 0 True example_scratch 16 [] [] = Inr (Some r, []) \<and>
    fst (barrier_run [1, 2] \<lparr>Needed = 3, Arrived = []\<rparr>) = []"
  by (rule pg_setup_failure_blocks_others) simp_all

end
