(* ===== verification/Sensor_Flow.thy ===== *)
theory Sensor_Flow
  imports Pg_Run
begin

text \<open>
  The way of a packet from the pipe's writer to the database: the pipe as a channel of packets, the loop of the
  database thread over the buffers it takes, and the copy streams read back by the server.
\<close>

section \<open>The pipe as a stream of packets\<close>

definition pushed :: "pipe_act list \<Rightarrow> u8 list list" where
  "pushed acts = concat (map (\<lambda>a. case a of Push bs \<Rightarrow> [bs] | _ \<Rightarrow> []) acts)"

text \<open>What the writer has put into the buffer it fills; nothing while a buffer is being handed over.\<close>

definition pending :: "pipe_sys \<Rightarrow> u8 list" where
  "pending s = (case Wpc s of WFill \<Rightarrow> Content s (unat (WBuf s)) | WLoaded _ \<Rightarrow> Content s (unat (WBuf s)) | _ \<Rightarrow> [])"

definition write_buf_inv :: "pipe_sys \<Rightarrow> bool" where
  "write_buf_inv s \<longleftrightarrow>
     (case Wpc s of WFill \<Rightarrow> WBuf s = WriteBufIdx (Pipe s) | WLoaded _ \<Rightarrow> WBuf s = WriteBufIdx (Pipe s)
      | WGot _ \<Rightarrow> True | WStored nx \<Rightarrow> WriteBufIdx (Pipe s) = nx | WCounted nx \<Rightarrow> WriteBufIdx (Pipe s) = nx
      | WSignalled nx \<Rightarrow> WriteBufIdx (Pipe s) = nx)"

lemma stream_step:
  assumes "pipe_next True a s = Some t" "write_buf_inv s"
  shows "write_buf_inv t \<and> concat (Published t) @ pending t = (concat (Published s) @ pending s) @ concat (pushed [a])"
proof (cases a)
  case WStep
  then show ?thesis using assms
    by (auto simp: write_buf_inv_def pending_def pushed_def split: wpc.splits option.splits)
next
  case RStep
  then show ?thesis using assms
    by (auto simp: write_buf_inv_def pending_def pushed_def split: rpc.splits option.splits wpc.splits)
qed (use assms in \<open>auto simp: write_buf_inv_def pending_def pushed_def split: if_splits wpc.splits\<close>)

lemma stream_run:
  assumes "pipe_run True acts s = Some t" "write_buf_inv s"
  shows "concat (Published t) @ pending t = (concat (Published s) @ pending s) @ concat (pushed acts)"
  using assms
proof (induction acts arbitrary: s)
  case (Cons a acts)
  then obtain u where u: "pipe_next True a s = Some u" "pipe_run True acts u = Some t" by (auto split: option.splits)
  have "pushed (a # acts) = pushed [a] @ pushed acts" by (simp add: pushed_def)
  then show ?case using stream_step [OF u(1) Cons.prems(2)] Cons.IH [OF u(2)] by simp
qed (simp add: pushed_def)

text \<open>Buffers are cut between packets.\<close>

definition cut :: "nat \<Rightarrow> pipe_sys \<Rightarrow> bool" where
  "cut k s \<longleftrightarrow> (\<forall>i. k dvd length (Content s i)) \<and> (\<forall>b\<in>set (Published s). k dvd length b)"

lemma cut_step:
  assumes "pipe_next r a s = Some t" "cut k s" "\<forall>bs\<in>set (pushed [a]). length bs = k"
  shows "cut k t"
proof (cases a)
  case WStep
  then show ?thesis using assms by (auto simp: cut_def split: wpc.splits option.splits)
next
  case RStep
  then show ?thesis using assms by (auto simp: cut_def split: rpc.splits option.splits)
qed (use assms in \<open>auto simp: cut_def pushed_def split: if_splits wpc.splits\<close>)

lemma cut_run:
  assumes "pipe_run r acts s = Some t" "cut k s" "\<forall>bs\<in>set (pushed acts). length bs = k"
  shows "cut k t"
  using assms
proof (induction acts arbitrary: s)
  case (Cons a acts)
  then obtain u where u: "pipe_next r a s = Some u" "pipe_run r acts u = Some t" by (auto split: option.splits)
  have "set (pushed (a # acts)) = set (pushed [a]) \<union> set (pushed acts)" by (simp add: pushed_def)
  then show ?case using cut_step [OF u(1) Cons.prems(2)] Cons.IH [OF u(2)] Cons.prems(3) by blast
qed simp

text \<open>A run without flushes is the same whether the writer keeps its buffer after a flush or takes the new one.\<close>

lemma pipe_run_reload:
  assumes "FlushBuf \<notin> set acts" "Wcall s = GetBuf"
  shows "pipe_run r acts s = pipe_run True acts s"
  using assms
proof (induction acts arbitrary: s)
  case (Cons a acts)
  have "pipe_next r a s = pipe_next True a s"
  proof (cases a)
    case WStep
    then show ?thesis using Cons.prems(2) by (auto split: wpc.splits)
  qed (use Cons.prems in auto)
  moreover have "Wcall t = GetBuf" if "pipe_next True a s = Some t" for t
  proof (cases a)
    case WStep
    then show ?thesis using that Cons.prems(2) by (auto split: wpc.splits option.splits)
  next
    case RStep
    then show ?thesis using that Cons.prems(2) by (auto split: rpc.splits option.splits)
  qed (use that Cons.prems in \<open>auto split: if_splits wpc.splits\<close>)
  ultimately show ?case using Cons by (auto split: option.splits)
qed simp

section \<open>Packets of a stream\<close>

definition chunks :: "nat \<Rightarrow> u8 list \<Rightarrow> u8 list list" where
  "chunks k bs = map (\<lambda>r. take k (drop (r * k) bs)) [0..<length bs div k]"

lemma chunks_append:
  assumes "k dvd length a"
  shows "chunks k (a @ b) = chunks k a @ chunks k b"
proof (cases "k = 0")
  case False
  from assms obtain q where q: "length a = k * q" by blast
  have len: "length (a @ b) div k = q + length b div k" using False by (simp add: q)
  have lo: "take k (drop (r * k) (a @ b)) = take k (drop (r * k) a)" if "r < q" for r
  proof -
    have "(r + 1) * k \<le> q * k" using that by (intro mult_le_mono1) simp
    then have "r * k + k \<le> length a" by (simp add: q mult.commute)
    then show ?thesis by simp
  qed
  have hi: "take k (drop ((r + q) * k) (a @ b)) = take k (drop (r * k) b)" for r
  proof -
    have "(r + q) * k = length a + r * k" by (simp add: q algebra_simps)
    then show ?thesis by simp
  qed
  have "[0..<q + m] = [0..<q] @ map (\<lambda>r. r + q) [0..<m]" for m
    using upt_add_eq_append [of 0 q m] map_add_upt [of q m] by (simp add: add.commute)
  then have "chunks k (a @ b) = map (\<lambda>r. take k (drop (r * k) (a @ b))) ([0..<q] @ map (\<lambda>r. r + q) [0..<length b div k])"
    unfolding chunks_def len by simp
  also have "\<dots> = map (\<lambda>r. take k (drop (r * k) a)) [0..<q] @ map (\<lambda>r. take k (drop (r * k) b)) [0..<length b div k]"
    unfolding map_append map_map comp_def hi using lo by simp
  also have "\<dots> = chunks k a @ chunks k b" using False by (simp add: chunks_def q)
  finally show ?thesis .
qed (use assms in \<open>simp add: chunks_def\<close>)

lemma chunks_one: "\<lbrakk>length x = k; 0 < k\<rbrakk> \<Longrightarrow> chunks k x = [x]"
  by (simp add: chunks_def)

lemma chunks_concat:
  assumes "\<forall>b\<in>set bs. k dvd length b"
  shows "chunks k (concat bs) = concat (map (chunks k) bs)"
  using assms by (induction bs) (simp_all add: chunks_append chunks_def [of k "[]"])

lemma chunks_packets:
  assumes "\<forall>x\<in>set xs. length x = k" "0 < k"
  shows "chunks k (concat xs) = xs"
  using assms by (induction xs) (simp_all add: chunks_append chunks_one chunks_def [of k "[]"])

lemma chunks_prefix:
  assumes "\<forall>x\<in>set xs. length x = k" "0 < k" "concat xs = a @ b" "k dvd length a"
  shows "chunks k a = take (length a div k) xs"
proof -
  have "xs = chunks k a @ chunks k b" using chunks_packets [OF assms(1,2)] assms(3,4) by (simp add: chunks_append)
  then have "take (length (chunks k a)) xs = chunks k a" by (metis append_eq_conv_conj)
  then show ?thesis by (simp add: chunks_def)
qed

lemma concat_chunks:
  assumes "0 < k" "k dvd length a"
  shows "concat (chunks k a) = a"
proof -
  from assms(2) obtain q where "length a = k * q" by blast
  then show ?thesis
  proof (induction q arbitrary: a)
    case (Suc q)
    then have len: "length (take k a) = k" by simp
    have "chunks k (take k a @ drop k a) = [take k a] @ chunks k (drop k a)"
      using chunks_append [of k "take k a" "drop k a"] chunks_one [OF len assms(1)] len by simp
    then show ?case using Suc by simp
  qed (simp add: chunks_def)
qed

section \<open>Reading a copy stream\<close>

fun decode_stream :: "nat \<Rightarrow> u8 list \<Rightarrow> (nat \<times> nat) list list" where
  "decode_stream 0 bs = []"
| "decode_stream (Suc f) bs =
     (if bs = [] then []
      else (let (fs, rest) = decode_fields (be_val (take 2 bs)) (drop 2 bs) in fs # decode_stream f rest))"

definition decode_copy :: "u8 list \<Rightarrow> (nat \<times> nat) list list" where
  "decode_copy bs = decode_stream (length bs) (drop (length CopyHeader) bs)"

definition packet_values :: "pg_table_info \<Rightarrow> u8 list \<Rightarrow> (nat \<times> nat) list" where
  "packet_values Ti row = map (\<lambda>c. (nat (TypeLength c), col_value row c)) (data_cols Ti)"

lemma PgConvertRow_long: "2 \<le> length (PgConvertRow Ti row)"
  by (simp add: PgConvertRow_def)

lemma decode_stream_rows:
  assumes "table_ok Ti" "length rows \<le> f"
  shows "decode_stream f (concat (map (PgConvertRow Ti) rows)) = map (packet_values Ti) rows"
  using assms(2)
proof (induction rows arbitrary: f)
  case Nil
  then show ?case by (cases f) simp_all
next
  case (Cons row rows)
  then obtain g where g: "f = Suc g" "length rows \<le> g" by (cases f) auto
  let ?rest = "concat (map (PgConvertRow Ti) rows)"
  let ?bs = "PgConvertRow Ti row @ ?rest"
  have "?bs \<noteq> []" using PgConvertRow_long [of Ti row] by auto
  moreover have "decode_fields (be_val (take 2 ?bs)) (drop 2 ?bs) = (packet_values Ti row, ?rest)"
    using decode_row [OF assms(1), of 0 row ?rest] by (auto simp: packet_values_def split: prod.splits)
  ultimately show ?case using Cons.IH [OF g(2)] by (simp add: g(1))
qed

text \<open>The values of a row depend on the bytes of its packet only.\<close>

lemma packet_values_take:
  assumes "table_ok Ti"
  shows "packet_values Ti (take (unat (RowSize Ti)) row) = packet_values Ti row"
proof -
  have "col_value (take (unat (RowSize Ti)) row) c = col_value row c" if "c \<in> set (data_cols Ti)" for c
  proof -
    have "nat (Offset c) + nat (TypeLength c) \<le> unat (RowSize Ti)" using assms that unfolding table_ok_def col_ok_def by blast
    then have "nat (TypeLength c) \<le> unat (RowSize Ti) - nat (Offset c)" by simp
    then have "take (nat (TypeLength c)) (drop (nat (Offset c)) (take (unat (RowSize Ti)) row)) =
        take (nat (TypeLength c)) (drop (nat (Offset c)) row)"
      by (simp add: drop_take min_absorb1)
    then show ?thesis by (simp add: col_value_def)
  qed
  then show ?thesis by (simp add: packet_values_def)
qed

lemma decode_copy_PgConvert:
  assumes "table_ok Ti"
  shows "decode_copy (CopyHeader @ PgConvert Ti Data (length Data div unat (RowSize Ti))) =
    map (packet_values Ti) (chunks (unat (RowSize Ti)) Data)"
proof -
  let ?rows = "map (\<lambda>r. drop (r * unat (RowSize Ti)) Data) [0..<length Data div unat (RowSize Ti)]"
  have c: "PgConvert Ti Data (length Data div unat (RowSize Ti)) = concat (map (PgConvertRow Ti) ?rows)"
    by (simp add: PgConvert_def comp_def)
  have "length rows \<le> length (concat (map (PgConvertRow Ti) rows))" for rows
  proof (induction rows)
    case (Cons row rows)
    then show ?case using PgConvertRow_long [of Ti row] by simp
  qed simp
  then have "length ?rows \<le> length (concat (map (PgConvertRow Ti) ?rows))" .
  then have "length ?rows \<le> length (CopyHeader @ concat (map (PgConvertRow Ti) ?rows))"
    unfolding length_append by (rule trans_le_add2)
  then have "decode_copy (CopyHeader @ concat (map (PgConvertRow Ti) ?rows)) = map (packet_values Ti) ?rows"
    unfolding decode_copy_def using decode_stream_rows [OF assms, of ?rows] by simp
  also have "\<dots> = map (packet_values Ti) (chunks (unat (RowSize Ti)) Data)"
    by (simp add: chunks_def packet_values_take [OF assms])
  finally show ?thesis unfolding c .
qed

section \<open>From the writer to the database\<close>

lemma packets_flow:
  assumes "table_ok Ti" "RowSize Ti \<noteq> 0" "CopyCommand Ti \<noteq> ''COMMIT''"
    and "pipe_fresh n P" "3 \<le> n" "reload \<or> FlushBuf \<notin> set acts" "pipe_run reload acts (pipe_init P) = Some s"
    and "\<forall>x\<in>set (pushed acts). length x = unat (RowSize Ti)"
    and "map buf_data bs = Consumed s" "\<forall>b\<in>set bs. insertable Ti Scratch (RowSize Ti) b"
    and "sum_list (map (buf_items (RowSize Ti)) bs) < 1000000"
  shows "\<exists>L' taken inside. PgRun_loop asserts Ti Scratch (RowSize Ti) ((False, EpollReady False True) # evs)
      (map (\<lambda>(B, m). Buffer B m all_well) bs) pg_loop_start = Inr (Reading L') \<and>
    concat (map decode_copy (committed (SentCmds L') [])) = map (packet_values Ti) taken \<and>
    pushed acts = taken @ inside \<and>
    concat inside = concat (drop (length bs) (Published s)) @ pending s \<and> length (Published s) \<le> length bs + 2 \<and>
    concat taken = concat (Consumed s)"
proof -
  let ?k = "unat (RowSize Ti)"
  have k: "0 < ?k" using assms(2) by (simp add: unat_gt_0)
  have run: "pipe_run True acts (pipe_init P) = Some s"
    using assms(6,7) pipe_run_reload [of acts "pipe_init P" reload] by (cases reload) (auto simp: pipe_init_def)
  then have reach: "\<exists>P n. pipe_reach True P s \<and> pipe_fresh n P \<and> 3 \<le> n" using pipe_run_init assms(4,5) by blast
  have fresh: "write_buf_inv (pipe_init P)" "cut ?k (pipe_init P)" "Published (pipe_init P) = []" "pending (pipe_init P) = []"
    by (simp_all add: write_buf_inv_def cut_def pipe_init_def pending_def)
  have stream: "concat (pushed acts) = concat (Published s) @ pending s" using stream_run [OF run fresh(1)] fresh(3,4) by simp
  obtain rest where rest: "Published s = Consumed s @ rest" "length rest \<le> 2"
    using pipe_channel.sent_split [OF reach] .
  have "\<forall>b\<in>set (Published s). ?k dvd length b" using cut_run [OF run fresh(2) assms(8)] by (simp add: cut_def)
  then have whole: "?k dvd length (concat (Consumed s))" and dvd: "\<forall>b\<in>set (Consumed s). ?k dvd length b"
    using pipe_channel.whole_packets [OF reach] rest(1) by simp_all
  define taken where "taken = concat (map (chunks ?k) (Consumed s))"
  have tk: "taken = take (length (concat (Consumed s)) div ?k) (pushed acts)"
    unfolding taken_def chunks_concat [OF dvd, symmetric]
    using stream rest(1) whole by (intro chunks_prefix [OF assms(8) k]) simp_all
  then obtain inside where inside: "pushed acts = taken @ inside" by (metis append_take_drop_id)
  have ct: "concat taken = concat (Consumed s)"
    unfolding taken_def chunks_concat [OF dvd, symmetric] by (rule concat_chunks [OF k whole])
  then have ins: "concat inside = concat rest @ pending s" using stream rest(1) inside by simp
  obtain L' where L': "PgRun_loop asserts Ti Scratch (RowSize Ti) ((False, EpollReady False True) # evs)
      (map (\<lambda>(B, m). Buffer B m all_well) bs) pg_loop_start = Inr (Reading L')"
    "committed (SentCmds L') [] = map (\<lambda>b. CopyHeader @ PgConvert Ti (buf_data b) (buf_items (RowSize Ti) b)) bs"
    using run_inserts [OF assms(3,2,10), of pg_loop_start asserts evs] assms(11) by (auto simp: pg_loop_start_def)
  have items: "buf_items (RowSize Ti) b = length (buf_data b) div ?k" for b
    by (cases b) (simp add: buf_items_def buf_data_def)
  have "map decode_copy (committed (SentCmds L') []) = map (\<lambda>b. map (packet_values Ti) (chunks ?k b)) (Consumed s)"
    unfolding L'(2) assms(9) [symmetric] by (simp add: items decode_copy_PgConvert [OF assms(1)])
  then have "concat (map decode_copy (committed (SentCmds L') [])) = map (packet_values Ti) taken"
    by (simp add: taken_def map_concat comp_def)
  moreover have "drop (length bs) (Published s) = rest" using rest(1) assms(9) by (metis append_eq_conv_conj length_map)
  moreover have "length (Published s) \<le> length bs + 2" using rest assms(9) by (metis add_le_cancel_left length_append length_map)
  ultimately show ?thesis using L'(1) inside ins ct by blast
qed

text \<open>
  The program's purpose, put together: packets of one table pushed into the pipe under any interleaving of its two threads, the
  buffers the database thread has taken, the transactions it makes of them while the server answers well. What
  the server reads from the committed copy streams are the values of the packets pushed, in order, each once, up
  to those in at most two buffers that are handed over and not taken and in the one being filled; their bytes are those of the
  buffers taken.
\<close>

theorem sensor_flow:
  assumes "table_ok Ti" "RowSize Ti \<noteq> 0" "CopyCommand Ti \<noteq> ''COMMIT''"
    and "pipe_fresh n P" "3 \<le> n" "reload \<or> FlushBuf \<notin> set acts" "pipe_run reload acts (pipe_init P) = Some s"
    and "\<forall>x\<in>set (pushed acts). length x = unat (RowSize Ti)"
    and "map buf_data bs = Consumed s" "\<forall>b\<in>set bs. insertable Ti Scratch (RowSize Ti) b"
    and "sum_list (map (buf_items (RowSize Ti)) bs) < 1000000"
  shows "\<exists>L' taken inside. PgRun_loop asserts Ti Scratch (RowSize Ti) ((False, EpollReady False True) # evs)
      (map (\<lambda>(B, m). Buffer B m all_well) bs) pg_loop_start = Inr (Reading L') \<and>
    concat (map decode_copy (committed (SentCmds L') [])) = map (packet_values Ti) taken \<and>
    pushed acts = taken @ inside \<and>
    concat inside = concat (drop (length bs) (Published s)) @ pending s \<and> length (Published s) \<le> length bs + 2 \<and>
    concat taken = concat (Consumed s)"
  using assms by (rule packets_flow)

text \<open>One packet, pushed, handed over and taken.\<close>

definition flow_packet :: "u8 list" where
  "flow_packet = [5, 0, 0, 0, 0, 0, 0, 0, 129, 67, 109, 56, 0, 0, 0, 0]"

definition flow_buf :: "sdb_arena \<times> mem" where
  "flow_buf = (\<lparr>Cur = 16, Cap = 64, Mem = 1000\<rparr>, wr (\<lambda>_. 0) 1000 flow_packet)"

definition flow_acts :: "pipe_act list" where
  "flow_acts = [Push flow_packet, GetWrite] @ write_call @ read_call @ [RStep]"

lemma flow_buf_data: "buf_data flow_buf = flow_packet"
proof -
  have "length flow_packet = 16" by (simp add: flow_packet_def)
  then show ?thesis using rd_wr_same [of flow_packet "\<lambda>_. 0" 1000] by (simp add: buf_data_def flow_buf_def)
qed

lemma flow_buf_ok:
  "\<forall>b\<in>set [flow_buf]. insertable example_table example_scratch (RowSize example_table) b"
  "sum_list (map (buf_items (RowSize example_table)) [flow_buf]) < 1000000"
  by (simp_all add: insertable_def flow_buf_def example_scratch_def SdbArenaPush_def NtwrkConvBufSize_def example_table_def buf_items_def)

lemma flow_values: "packet_values example_table flow_packet = [(8, 5), (8, 1000000)]"
  by (simp add: packet_values_def flow_packet_def example_table_def data_cols_def col_value_def pg_oids UnixToPgTimestamp_def
      UNIX_EPOCH_JDATE_def POSTGRES_EPOCH_JDATE_def USECS_PER_DAY_def USECS_PER_SECOND_def)

theorem sensor_flow_witness:
  "\<exists>L' s. pipe_run False flow_acts (pipe_init (example_pipe 3)) = Some s \<and>
    PgRun_loop True example_table example_scratch 16 [(False, EpollReady False True)]
      [Buffer (fst flow_buf) (snd flow_buf) all_well] pg_loop_start = Inr (Reading L') \<and>
    concat (map decode_copy (committed (SentCmds L') [])) = [[(8, 5), (8, 1000000)]]"
proof -
  obtain s where s: "pipe_run False flow_acts (pipe_init (example_pipe 3)) = Some s" "Consumed s = [flow_packet]"
      "drop 1 (Published s) = []" "pending s = []"
    by (simp add: flow_acts_def example_pipe_def pipe_init_def write_call_def read_call_def eventfd_read_def eventfd_write_def
        NextBuf_def pending_def)
  have p: "pushed flow_acts = [flow_packet]"
    by (simp add: pushed_def flow_acts_def write_call_def read_call_def)
  have t: "RowSize example_table \<noteq> 0" "CopyCommand example_table \<noteq> ''COMMIT''" "RowSize example_table = 16"
    by (simp_all add: example_table_def)
  have l: "\<forall>x\<in>set (pushed flow_acts). length x = unat (RowSize example_table)"
    unfolding p t(3) by (simp add: flow_packet_def)
  have b: "map buf_data [flow_buf] = Consumed s" by (simp add: flow_buf_data s(2))
  from sensor_flow [OF example_table_ok t(1,2) example_fresh(3) order_refl disjI2 s(1) l b flow_buf_ok, of True "[]"]
  obtain L' taken inside where
    L': "PgRun_loop True example_table example_scratch 16 [(False, EpollReady False True)]
      [Buffer (fst flow_buf) (snd flow_buf) all_well] pg_loop_start = Inr (Reading L')"
      "concat (map decode_copy (committed (SentCmds L') [])) = map (packet_values example_table) taken"
      "[flow_packet] = taken @ inside" "concat inside = concat (drop (length [flow_buf]) (Published s)) @ pending s"
    unfolding p t(3) by (auto simp: flow_acts_def write_call_def read_call_def split_def simp del: PgRun_loop.simps)
  have "inside = []" using L'(3,4) s(3,4) by (cases taken) (auto simp: flow_packet_def)
  then have "taken = [flow_packet]" using L'(3) by simp
  then show ?thesis using s(1) L'(1,2) flow_values by auto
qed

end
