(* ===== verification/Sensor_System.thy ===== *)
theory Sensor_System
  imports Sensor_Flow
begin

text \<open>
  The two threads on one pipe, from the frames that arrive to the rows that are committed: iterations of
  \<^verbatim>\<open>MbRun\<close> and calls of \<^verbatim>\<open>SdPipeGetReadBuffer\<close> in any order, on the arenas and the memory they share.
\<close>

section \<open>The system\<close>

text \<open>
  A move is an iteration of the Modbus thread on a frame that has arrived, or a call of the database thread
  that takes a buffer and reads its contents. A move that would wait is not made.
\<close>

datatype move = Iterate "u8 list" | Take

fun sys_step :: "move \<Rightarrow> mb_state \<times> u8 list list \<Rightarrow> (mb_state \<times> u8 list list) option" where
  "sys_step (Iterate F) (s, taken) =
     (case MbRun_iteration True False False s [Arrive F] of
        Inr (Continue s es) \<Rightarrow> Some (s, taken)
      | _ \<Rightarrow> None)"
| "sys_step Take (s, taken) =
     (case SdPipeGetReadBuffer False False (MbPipe s) of
        Inr (Returns (b, P)) \<Rightarrow> Some (s\<lparr>MbPipe := P\<rparr>, taken @ [buf_bytes (MbMem s) (MbStore s b)])
      | _ \<Rightarrow> None)"

fun sys_run :: "move list \<Rightarrow> mb_state \<times> u8 list list \<Rightarrow> (mb_state \<times> u8 list list) option" where
  "sys_run [] c = Some c"
| "sys_run (m # ms) c = (case sys_step m c of None \<Rightarrow> None | Some c \<Rightarrow> sys_run ms c)"

text \<open>A frame of a table's packets, and the packets of the moves.\<close>

definition packet_frame :: "u64 \<Rightarrow> u8 list \<Rightarrow> bool" where
  "packet_frame k F \<longleftrightarrow> whole_frame F \<and> length F \<le> MODBUS_TCP_FRAME_MAX_SIZE \<and>
     (\<exists>off u dl. MbParseTcpFrame F = (Some off, u, dl) \<and> ucast dl = k)"

definition frame_data :: "u8 list \<Rightarrow> u8 list" where
  "frame_data F = (case MbParseTcpFrame F of (Some off, u, dl) \<Rightarrow> take (unat dl) (drop off F) | _ \<Rightarrow> [])"

definition packets :: "move list \<Rightarrow> u8 list list" where
  "packets ms = concat (map (\<lambda>m. case m of Iterate F \<Rightarrow> [frame_data F] | Take \<Rightarrow> []) ms)"

text \<open>The start: a pipe as it is created, its buffers empty, the writer on the first.\<close>

definition sys_start :: "nat \<Rightarrow> mb_state \<Rightarrow> bool" where
  "sys_start n s \<longleftrightarrow> pipe_fresh n (MbPipe s) \<and> mb_abs n s (pipe_init (MbPipe s)) \<and> mb_sizes n s"

section \<open>The moves are runs of the pipe\<close>

text \<open>The state of the system stands for a pipe state reached by steps that pushed the packets and took the buffers.\<close>

definition sys_inv :: "nat \<Rightarrow> sensor_data_pipe \<Rightarrow> u64 \<Rightarrow> u8 list list \<Rightarrow> mb_state \<times> u8 list list \<Rightarrow> bool" where
  "sys_inv n P k ps c \<longleftrightarrow> (case c of (s, taken) \<Rightarrow>
     (\<exists>acts t. pipe_run False acts (pipe_init P) = Some t \<and> FlushBuf \<notin> set acts \<and> pushed acts = ps \<and>
        mb_abs n s t \<and> mb_sizes n s \<and> PacketSize (MbPipe s) = k \<and> Rpc t = RIdle \<and> Consumed t = taken \<and>
        (\<forall>b\<in>set (Published t). length b \<le> unat (BufferMaxFill P))))"

lemma pushed_append: "pushed (as @ bs) = pushed as @ pushed bs"
  by (simp add: pushed_def)

lemma pipe_run_extend:
  "\<lbrakk>pipe_run r as s = Some t; pipe_run r bs t = Some u\<rbrakk> \<Longrightarrow> pipe_run r (as @ bs) s = Some u"
  by (simp add: pipe_run_append)

lemma writer_keeps_reader:
  assumes "pipe_run r acts s = Some t" "RStep \<notin> set acts"
  shows "Rpc t = Rpc s \<and> Consumed t = Consumed s"
  using assms
proof (induction acts arbitrary: s)
  case (Cons a acts)
  then obtain u where u: "pipe_next r a s = Some u" "pipe_run r acts u = Some t" by (auto split: option.splits)
  have "Rpc u = Rpc s \<and> Consumed u = Consumed s"
    using u(1) Cons.prems(2) by (cases a) (auto split: if_splits wpc.splits option.splits)
  then show ?case using Cons.IH [OF u(2)] Cons.prems(2) by simp
qed simp

lemma run_keeps_sizes:
  assumes "pipe_run r acts s = Some t"
  shows "PacketSize (Pipe t) = PacketSize (Pipe s) \<and> BufferMaxFill (Pipe t) = BufferMaxFill (Pipe s) \<and>
    Buffers (Pipe t) = Buffers (Pipe s)"
  using assms
proof (induction acts arbitrary: s)
  case (Cons a acts)
  then obtain u where u: "pipe_next r a s = Some u" "pipe_run r acts u = Some t" by (auto split: option.splits)
  have "PacketSize (Pipe u) = PacketSize (Pipe s) \<and> BufferMaxFill (Pipe u) = BufferMaxFill (Pipe s) \<and>
      Buffers (Pipe u) = Buffers (Pipe s)"
    using u(1) by (cases a) (auto split: if_splits wpc.splits rpc.splits option.splits)
  then show ?case using Cons.IH [OF u(2)] by simp
qed simp

lemma reader_keeps_writer:
  assumes "pipe_run r acts s = Some t" "set acts \<subseteq> {RStep}"
  shows "Wpc t = Wpc s \<and> WBuf t = WBuf s \<and> Content t = Content s \<and> Published t = Published s"
  using assms
proof (induction acts arbitrary: s)
  case (Cons a acts)
  then obtain u where u: "pipe_next r RStep s = Some u" "pipe_run r acts u = Some t" by (auto split: option.splits)
  have "Wpc u = Wpc s \<and> WBuf u = WBuf s \<and> Content u = Content s \<and> Published u = Published s"
    using u(1) by (auto split: rpc.splits option.splits)
  then show ?case using Cons.IH [OF u(2)] Cons.prems(2) by simp
qed simp

lemma pushed_calls: "pushed [] = []" "pushed (GetWrite # write_call) = []" "pushed (read_call @ [RStep]) = []" "pushed [Push bs] = [bs]"
  by (simp_all add: pushed_def write_call_def read_call_def)

text \<open>What is handed over is the buffer that was being filled, when it has reached \<^verbatim>\<open>BufferMaxFill\<close>.\<close>

lemma write_buf_run:
  assumes "pipe_run True acts s = Some t" "write_buf_inv s"
  shows "write_buf_inv t"
  using assms
proof (induction acts arbitrary: s)
  case (Cons a acts)
  then obtain u where u: "pipe_next True a s = Some u" "pipe_run True acts u = Some t" by (auto split: option.splits)
  then show ?case using stream_step [OF u(1) Cons.prems(2)] Cons.IH [OF u(2)] by blast
qed simp

lemma init_run_reload:
  "FlushBuf \<notin> set acts \<Longrightarrow> pipe_run r acts (pipe_init P) = pipe_run True acts (pipe_init P)"
  by (rule pipe_run_reload) (simp_all add: pipe_init_def)

lemma published_fill:
  assumes "pipe_run False acts (pipe_init P) = Some t" "FlushBuf \<notin> set acts"
    and "pipe_run False ((if full then GetWrite # write_call else []) @ [Push d]) t = Some u"
  shows "set (Published u) \<subseteq> insert (Content t (unat (WBuf t))) (set (Published t)) \<and> (Published u \<noteq> Published t \<longrightarrow> full)"
proof -
  have i: "write_buf_inv (pipe_init P)" by (simp add: write_buf_inv_def pipe_init_def)
  have "pipe_run True acts (pipe_init P) = Some t" using init_run_reload [OF assms(2)] assms(1) by metis
  from write_buf_run [OF this i] have "write_buf_inv t" .
  then have "WBuf t = WriteBufIdx (Pipe t)" if "Wpc t = WFill" using that by (simp add: write_buf_inv_def)
  then show ?thesis using assms(3)
    by (auto simp: write_call_def split: if_splits option.splits prod.splits)
qed

lemma current_content: "mb_abs n s t \<Longrightarrow> Content t (unat (WBuf t)) = buf_bytes (MbMem s) (MbStore s (CurBuf s))"
  by (simp add: mb_abs_def pipe_abs_def buf_arena_def)

lemma current_fill:
  assumes "mb_abs n s t" "mb_sizes n s"
  shows "length (Content t (unat (WBuf t))) \<le> unat (BufferMaxFill (MbPipe s))"
  unfolding current_content [OF assms(1)] using assms(2) by (simp add: mb_sizes_def buf_bytes_def word_le_nat_alt)

lemma iteration_keeps:
  assumes "sys_inv n P k ps (s, taken)" "packet_frame k F" "MbRun_iteration asserts False False s (Arrive F # es) \<noteq> Inr Stuck"
  obtains s' where "MbRun_iteration asserts False False s (Arrive F # es) = Inr (Continue s' es)"
    "sys_inv n P k (ps @ [frame_data F]) (s', taken)"
proof -
  obtain acts t where t: "pipe_run False acts (pipe_init P) = Some t" "FlushBuf \<notin> set acts" "pushed acts = ps"
    "mb_abs n s t" "mb_sizes n s" "PacketSize (MbPipe s) = k" "Rpc t = RIdle" "Consumed t = taken"
    "\<forall>b\<in>set (Published t). length b \<le> unat (BufferMaxFill P)"
    using assms(1) by (auto simp: sys_inv_def)
  obtain off u dl where F: "whole_frame F" "length F \<le> MODBUS_TCP_FRAME_MAX_SIZE" "MbParseTcpFrame F = (Some off, u, dl)"
    "ucast dl = PacketSize (MbPipe s)"
    using assms(2) t(6) by (auto simp: packet_frame_def)
  have d: "take (unat dl) (drop off F) = frame_data F" by (simp add: frame_data_def F(3))
  let ?acts = "(if Cur (MbStore s (CurBuf s)) = BufferMaxFill (MbPipe s) then GetWrite # write_call else []) @ [Push (frame_data F)]"
  obtain s' t' where s': "MbRun_iteration asserts False False s (Arrive F # es) = Inr (Continue s' es)"
    "pipe_run False ?acts t = Some t'" "mb_abs n s' t'" "mb_sizes n s'"
    using iteration_stores [OF t(4,5) F, of False asserts "[]" es] assms(3) unfolding d by auto
  have w: "Rpc t' = Rpc t \<and> Consumed t' = Consumed t" using writer_keeps_reader [OF s'(2)] by (auto simp: write_call_def)
  have "PacketSize (MbPipe s') = k" using run_keeps_sizes [OF s'(2)] s'(3) t(4,6) by (simp add: mb_abs_def)
  moreover have "FlushBuf \<notin> set ?acts" by (auto simp: write_call_def)
  moreover have "pushed ?acts = [frame_data F]"
    using pushed_calls(1,2) by (simp add: pushed_append pushed_calls(4))
  moreover have "pipe_run False (acts @ ?acts) (pipe_init P) = Some t'" by (rule pipe_run_extend [OF t(1) s'(2)])
  moreover have "\<forall>b\<in>set (Published t'). length b \<le> unat (BufferMaxFill P)"
    using published_fill [OF t(1,2) s'(2)] current_fill [OF t(4,5)] t(9) run_keeps_sizes [OF t(1)] t(4)
    by (auto simp: mb_abs_def pipe_init_def)
  ultimately have "sys_inv n P k (ps @ [frame_data F]) (s', taken)"
    using t(2,3,7,8) s'(3,4) w unfolding sys_inv_def prod.case
    by (intro exI [of _ "acts @ ?acts"] exI [of _ t']) (simp add: pushed_append del: append.append_Cons)
  then show ?thesis using that s'(1) by blast
qed

lemma sys_step_Iterate:
  assumes "sys_inv n P k ps (s, taken)" "sys_step (Iterate F) (s, taken) = Some c" "packet_frame k F"
  shows "sys_inv n P k (ps @ [frame_data F]) c"
proof -
  have "MbRun_iteration True False False s [Arrive F] \<noteq> Inr Stuck" using assms(2) by auto
  from iteration_keeps [OF assms(1,3) this]
  obtain s' where "MbRun_iteration True False False s [Arrive F] = Inr (Continue s' [])" "sys_inv n P k (ps @ [frame_data F]) (s', taken)" .
  then show ?thesis using assms(2) by simp
qed

text \<open>A buffer taken is a run of the reader, whatever the writer is at.\<close>

lemma take_run:
  assumes "sys_step Take (s, taken) = Some c" "Pipe t = MbPipe s" "pipe_ok n (MbStore s) (MbPipe s)"
    and "pipe_abs n (MbMem s) (MbStore s) t" "Rpc t = RIdle"
  obtains v P' d where "c = (s\<lparr>MbPipe := P'\<rparr>, taken @ [d])" "pipe_run r (read_call @ [RStep]) t = Some v" "Pipe v = P'"
    "pipe_ok n (MbStore s) P'" "pipe_abs n (MbMem s) (MbStore s) v" "Rpc v = RIdle" "Consumed v = Consumed t @ [d]"
    "Wpc v = Wpc t" "WBuf v = WBuf t" "Content v = Content t" "Published v = Published t"
proof -
  note abs = assms(2-4)
  obtain b P' where r: "SdPipeGetReadBuffer False False (Pipe t) = Inr (Returns (b, P'))"
    "c = (s\<lparr>MbPipe := P'\<rparr>, taken @ [buf_bytes (MbMem s) (MbStore s b)])"
    using assms(1) abs(1) by (auto split: sum.splits call.splits)
  obtain u i where u: "pipe_run r read_call t = Some u" "Pipe u = P'" "pipe_ok n (MbStore s) P'"
    "pipe_abs n (MbMem s) (MbStore s) u" "Rpc u = RHold i" "b = Buffers P' ! unat i" "Content u (unat i) = buf_bytes (MbMem s) (MbStore s b)"
    using get_read_steps [OF abs(2) [folded abs(1)] abs(3) assms(5), of r] r(1) by auto
  define v where "v = u\<lparr>Consumed := Consumed u @ [Content u (unat i)], Rpc := RIdle\<rparr>"
  have v: "pipe_run r [RStep] u = Some v" using u(5) by (simp add: v_def)
  have run: "pipe_run r (read_call @ [RStep]) t = Some v" by (rule pipe_run_extend [OF u(1) v])
  have "Consumed u = Consumed t" if "pipe_run r read_call t = Some u" for u
    using that assms(5) by (auto simp: read_call_def split: option.splits)
  then have "Consumed v = Consumed t @ [buf_bytes (MbMem s) (MbStore s b)]" using u(1,7) by (simp add: v_def)
  moreover have "pipe_abs n (MbMem s) (MbStore s) v" using u(4) by (simp add: v_def pipe_abs_def)
  moreover have "Wpc v = Wpc t \<and> WBuf v = WBuf t \<and> Content v = Content t \<and> Published v = Published t"
    using reader_keeps_writer [OF run] by (simp add: read_call_def)
  ultimately show ?thesis using that [OF r(2) run] u(2,3) by (simp add: v_def)
qed

lemma sys_step_Take:
  assumes "sys_inv n P k ps (s, taken)" "sys_step Take (s, taken) = Some c"
  shows "sys_inv n P k ps c"
proof -
  obtain acts t where t: "pipe_run False acts (pipe_init P) = Some t" "FlushBuf \<notin> set acts" "pushed acts = ps"
    "mb_abs n s t" "mb_sizes n s" "PacketSize (MbPipe s) = k" "Rpc t = RIdle" "Consumed t = taken"
    "\<forall>b\<in>set (Published t). length b \<le> unat (BufferMaxFill P)"
    using assms(1) by (auto simp: sys_inv_def)
  have abs: "Pipe t = MbPipe s" "pipe_ok n (MbStore s) (MbPipe s)" "pipe_abs n (MbMem s) (MbStore s) t" "Wpc t = WFill"
    "unat (WBuf t) < n" "CurBuf s = Buffers (MbPipe s) ! unat (WBuf t)"
    using t(4) by (simp_all add: mb_abs_def)
  obtain v P' d where v: "c = (s\<lparr>MbPipe := P'\<rparr>, taken @ [d])" "pipe_run False (read_call @ [RStep]) t = Some v" "Pipe v = P'"
    "pipe_ok n (MbStore s) P'" "pipe_abs n (MbMem s) (MbStore s) v" "Rpc v = RIdle" "Consumed v = Consumed t @ [d]"
    "Wpc v = Wpc t" "WBuf v = WBuf t" "Published v = Published t"
    by (rule take_run [OF assms(2) abs(1-3) t(7)])
  have sz: "PacketSize P' = PacketSize (MbPipe s)" "BufferMaxFill P' = BufferMaxFill (MbPipe s)" "Buffers P' = Buffers (MbPipe s)"
    using run_keeps_sizes [OF v(2)] v(3) abs(1) by simp_all
  have "mb_abs n (s\<lparr>MbPipe := P'\<rparr>) v" using v(3-5,8,9) abs(4-6) sz(3) by (simp add: mb_abs_def)
  moreover have "mb_sizes n (s\<lparr>MbPipe := P'\<rparr>)" using t(5) sz by (simp add: mb_sizes_def buf_arena_def)
  moreover have "pipe_run False (acts @ read_call @ [RStep]) (pipe_init P) = Some v" by (rule pipe_run_extend [OF t(1) v(2)])
  moreover have "FlushBuf \<notin> set (acts @ read_call @ [RStep])" using t(2) by (simp add: read_call_def)
  moreover have "pushed (acts @ read_call @ [RStep]) = ps"
    using t(3) pushed_append [of acts "read_call @ [RStep]"] pushed_calls(3) by simp
  ultimately show ?thesis using t(6,8,9) sz(1) v(6,7,10) unfolding v(1) sys_inv_def prod.case
    by (intro exI [of _ "acts @ read_call @ [RStep]"] exI [of _ v]) simp
qed

lemma sys_run_inv:
  assumes "sys_inv n P k ps c" "sys_run ms c = Some d" "\<forall>F. Iterate F \<in> set ms \<longrightarrow> packet_frame k F"
  shows "sys_inv n P k (ps @ packets ms) d"
  using assms
proof (induction ms arbitrary: ps c)
  case (Cons m ms)
  obtain s taken where c: "c = (s, taken)" by (cases c)
  obtain e where e: "sys_step m c = Some e" "sys_run ms e = Some d" using Cons.prems(2) by (auto split: option.splits)
  show ?case
  proof (cases m)
    case (Iterate F)
    then have "sys_inv n P k (ps @ [frame_data F]) e"
      using sys_step_Iterate [of n P k ps s taken F e] Cons.prems(1,3) e(1) c by simp
    moreover have "packets (m # ms) = [frame_data F] @ packets ms" by (simp add: packets_def Iterate)
    ultimately show ?thesis using Cons.IH [OF _ e(2), of "ps @ [frame_data F]"] Cons.prems(3) by simp
  next
    case Take
    then have "sys_inv n P k ps e" using sys_step_Take [of n P k ps s taken e] Cons.prems(1) e(1) c by simp
    moreover have "packets (m # ms) = packets ms" by (simp add: packets_def Take)
    ultimately show ?thesis using Cons.IH [OF _ e(2), of ps] Cons.prems(3) by simp
  qed
qed (simp add: packets_def)

section \<open>From frames to rows\<close>

lemma sys_start_inv:
  assumes "sys_start n s" "PacketSize (MbPipe s) = k"
  shows "sys_inv n (MbPipe s) k [] (s, [])"
proof -
  have "pipe_run False [] (pipe_init (MbPipe s)) = Some (pipe_init (MbPipe s))" by simp
  then show ?thesis
    using assms unfolding sys_start_def sys_inv_def prod.case
    by (intro exI [of _ "[]"] exI [of _ "pipe_init (MbPipe s)"]) (simp add: pushed_calls(1) pipe_init_def)
qed

lemma frame_data_length: "packet_frame k F \<Longrightarrow> length (frame_data F) = unat k"
proof -
  assume "packet_frame k F"
  then obtain off u dl where F: "whole_frame F" "MbParseTcpFrame F = (Some off, u, dl)" "ucast dl = k"
    by (auto simp: packet_frame_def)
  have "unat dl < 2 ^ 16" using unsigned_less [of dl] by simp
  then have "unat k = unat dl" unfolding F(3) [symmetric] by (simp add: unsigned_ucast_eq take_bit_nat_eq_self)
  then show ?thesis using parsed_frame_long [OF F(1,2)] by (simp add: frame_data_def F(2))
qed


text \<open>Two frames with the same packet, the buffers one packet long: the second iteration hands the first packet over.\<close>

definition system_frame :: "u8 list" where
  "system_frame = [0, 1, 0, 0, 0, 19, 1, 16, 16] @ flow_packet @ [0]"

definition system_state :: mb_state where
  "system_state = \<lparr>MbPipe = (example_pipe 3)\<lparr>BufferMaxFill := 16, PacketSize := 16, ItemMaxCount := 1\<rparr>,
     MbStore = (\<lambda>p. \<lparr>Cur = 0, Cap = 16, Mem = 64 * p\<rparr>), MbMem = (\<lambda>_. 0), CurBuf = 1\<rparr>"

lemma system_start_store:
  assumes "st 1 = \<lparr>Cur = 0, Cap = 16, Mem = 64\<rparr>" "st 2 = \<lparr>Cur = 0, Cap = 16, Mem = 128\<rparr>" "st 3 = \<lparr>Cur = 0, Cap = 16, Mem = 192\<rparr>"
  shows "sys_start 3 (system_state\<lparr>MbStore := st\<rparr>)"
proof -
  have "disjoint_blocks (64 * p) 16 (64 * q) 16" if "(p, q) \<in> {(1, 2), (1, 3), (2, 3)}" for p q :: u64
    using that by (intro disjoint_blocks_linear) auto
  then have d: "disjoint_blocks (64 * p) 16 (64 * q) 16" if "(p, q) \<in> {(1, 2), (1, 3), (2, 3), (2, 1), (3, 1), (3, 2)}" for p q :: u64
    using that disjoint_blocks_sym by fastforce
  have "pipe_ok 3 st (MbPipe system_state)"
    using d [of 1 2] d [of 1 3] d [of 2 3] d [of 2 1] d [of 3 1] d [of 3 2] assms
    by (simp add: pipe_ok_def system_state_def example_pipe_def buf_arena_def arena_ok_def less_3 upt_rec all_conj_distrib)
  then show ?thesis using assms
    by (simp add: sys_start_def mb_abs_def mb_sizes_def pipe_fresh_def system_state_def example_pipe_def pipe_init_def
        pipe_abs_def buf_arena_def buf_bytes_def rd_def less_3 upt_rec)
qed

lemma system_start: "sys_start 3 system_state"
  using system_start_store [of "MbStore system_state"] by (simp add: system_state_def)

lemma system_frame_data: "packet_frame 16 system_frame" "frame_data system_frame = flow_packet"
  by (simp_all add: packet_frame_def frame_data_def system_frame_def flow_packet_def whole_frame_def MODBUS_TCP_HEADER_LEN_def
      MODBUS_TCP_FRAME_MAX_SIZE_def frame_length_def MbParseTcpFrame_def)

lemma iterate_moves:
  assumes "mb_abs n s t" "mb_sizes n s" "packet_frame (PacketSize (MbPipe s)) F"
    and "pipe_run False ((if Cur (MbStore s (CurBuf s)) = BufferMaxFill (MbPipe s) then GetWrite # write_call else []) @
      [Push (frame_data F)]) t = Some t'"
  shows "\<exists>s'. sys_step (Iterate F) (s, taken) = Some (s', taken) \<and> mb_abs n s' t' \<and> mb_sizes n s'"
proof -
  obtain off u dl where F: "whole_frame F" "length F \<le> MODBUS_TCP_FRAME_MAX_SIZE" "MbParseTcpFrame F = (Some off, u, dl)"
    "ucast dl = PacketSize (MbPipe s)"
    using assms(3) by (auto simp: packet_frame_def)
  have d: "take (unat dl) (drop off F) = frame_data F" by (simp add: frame_data_def F(3))
  show ?thesis
    using iteration_stores [OF assms(1,2) F, of False True "[]" "[]"] assms(4) unfolding d by auto
qed

definition system_sys :: pipe_sys where
  "system_sys = (pipe_init (MbPipe system_state))\<lparr>Content := (\<lambda>_. [])(0 := flow_packet)\<rparr>"

lemma system_first:
  assumes "sys_start 3 s0" "MbPipe s0 = MbPipe system_state"
  shows "\<exists>s. sys_step (Iterate system_frame) (s0, taken) = Some (s, taken) \<and> mb_abs 3 s system_sys \<and> mb_sizes 3 s \<and>
    MbPipe s = MbPipe system_state \<and> unat (Cur (MbStore s (CurBuf s))) = 16"
proof -
  have st: "mb_abs 3 s0 (pipe_init (MbPipe system_state))" "mb_sizes 3 s0"
    using assms by (simp_all add: sys_start_def)
  then have "CurBuf s0 = 1" "MbStore s0 (Buffers (MbPipe system_state) ! 0) = MbStore s0 1"
    by (simp_all add: mb_abs_def assms(2) pipe_init_def system_state_def example_pipe_def)
  moreover have "buf_bytes (MbMem s0) (MbStore s0 (CurBuf s0)) = []"
    using current_content [OF st(1)] by (simp add: pipe_init_def)
  then have "Cur (MbStore s0 (CurBuf s0)) = 0" by (metis buf_bytes_def length_rd list.size(3) unat_eq_zero)
  ultimately have "Cur (MbStore s0 1) \<noteq> 16" by simp
  then have "\<exists>s. sys_step (Iterate system_frame) (s0, taken) = Some (s, taken) \<and> mb_abs 3 s system_sys \<and> mb_sizes 3 s"
    using \<open>CurBuf s0 = 1\<close>
    by (intro iterate_moves [OF st])
       (simp_all add: assms(2) system_state_def example_pipe_def system_frame_data pipe_init_def system_sys_def)
  then obtain s where s: "sys_step (Iterate system_frame) (s0, taken) = Some (s, taken)" "mb_abs 3 s system_sys" "mb_sizes 3 s"
    by blast
  have "flow_packet = buf_bytes (MbMem s) (MbStore s (CurBuf s))"
    using current_content [OF s(2)] by (simp add: system_sys_def pipe_init_def system_state_def example_pipe_def)
  moreover have "length flow_packet = 16" by (simp add: flow_packet_def)
  ultimately have "unat (Cur (MbStore s (CurBuf s))) = 16" by (metis buf_bytes_def length_rd)
  moreover have "MbPipe s = MbPipe system_state" using s(2) by (simp add: mb_abs_def system_sys_def pipe_init_def)
  ultimately show ?thesis using s by blast
qed

lemma system_runs:
  "\<exists>s. sys_run [Iterate system_frame, Iterate system_frame, Take] (system_state, []) = Some (s, [flow_packet])"
proof -
  obtain s1 where s1: "sys_step (Iterate system_frame) (system_state, []) = Some (s1, [])" "mb_abs 3 s1 system_sys" "mb_sizes 3 s1"
    and P1: "MbPipe s1 = MbPipe system_state" and c1: "unat (Cur (MbStore s1 (CurBuf s1))) = 16"
    using system_first [OF system_start HOL.refl, of "[]"] by blast
  have full: "Cur (MbStore s1 (CurBuf s1)) = BufferMaxFill (MbPipe s1)"
    using c1 unfolding P1 by (simp add: system_state_def word_unat_eq_iff)
  obtain t2 where t2: "pipe_run False ((GetWrite # write_call) @ [Push flow_packet]) system_sys = Some t2" "Rpc t2 = RIdle"
    "Consumed t2 = []"
    "\<exists>u. pipe_run False read_call t2 = Some u \<and> Rpc u = RHold 0 \<and> Content u 0 = flow_packet"
    by (simp add: system_sys_def pipe_init_def system_state_def example_pipe_def write_call_def read_call_def eventfd_read_def
        eventfd_write_def NextBuf_def)
  have "\<exists>s. sys_step (Iterate system_frame) (s1, []) = Some (s, []) \<and> mb_abs 3 s t2 \<and> mb_sizes 3 s"
    by (rule iterate_moves [OF s1(2,3)]) (use t2(1) full in \<open>simp_all add: P1 system_state_def system_frame_data\<close>)
  then obtain s2 where s2: "sys_step (Iterate system_frame) (s1, []) = Some (s2, [])" "mb_abs 3 s2 t2" by blast
  have a2: "pipe_ok 3 (MbStore s2) (Pipe t2)" "pipe_abs 3 (MbMem s2) (MbStore s2) t2" "Pipe t2 = MbPipe s2"
    using s2(2) by (simp_all add: mb_abs_def)
  have "\<exists>s. sys_step Take (s2, []) = Some (s, [flow_packet])"
    using get_read_steps [OF a2(1,2) t2(2), of False] t2(4) a2(3)
    by (auto split: sum.splits call.splits)
  then show ?thesis using s1(1) s2(1) by auto
qed


end
