(* ===== verification/Sensor_Shutdown.thy ===== *)
theory Sensor_Shutdown
  imports Sensor_System
begin

text \<open>
  The end of a connection: \<^verbatim>\<open>MbRun\<close> flushes the pipe at \<^verbatim>\<open>reconnect\<close>, also when it leaves for a shutdown, and
  the database thread reads what is left. After that nothing that was received is missing.
\<close>

section \<open>Flushing\<close>

text \<open>The state after the flush: nothing is pending, the reader may go on.\<close>

definition drained :: "nat \<Rightarrow> sensor_data_pipe \<Rightarrow> u8 list list \<Rightarrow> mb_state \<times> u8 list list \<Rightarrow> bool" where
  "drained n P ps c \<longleftrightarrow> (case c of (s, taken) \<Rightarrow>
     (\<exists>acts t. pipe_run True acts (pipe_init P) = Some t \<and> pushed acts = ps \<and> Pipe t = MbPipe s \<and>
        pipe_ok n (MbStore s) (MbPipe s) \<and> pipe_abs n (MbMem s) (MbStore s) t \<and> Wpc t = WFill \<and> Rpc t = RIdle \<and>
        Consumed t = taken \<and> pending t = []))"

lemma flush_run:
  assumes "pipe_run True (FlushBuf # write_call) t = Some u"
  shows "Wpc u = WFill \<and> pending u = [] \<and> Rpc u = Rpc t \<and> Consumed u = Consumed t"
  using assms
  by (auto simp: write_call_def pending_def split: if_splits option.splits)

lemma pushed_flush: "pushed (FlushBuf # write_call) = []"
  by (simp add: pushed_def write_call_def)

lemma flush_drains:
  assumes run: "pipe_run True acts (pipe_init P) = Some t" and abs: "mb_abs n s t"
    and t: "pushed acts = ps" "Rpc t = RIdle" "Consumed t = taken"
    and fl: "SdPipeFlush False False (MbStore s) (MbPipe s) = Inr (Returns (st, P'))"
  shows "drained n P ps (s\<lparr>MbStore := st, MbPipe := P'\<rparr>, taken)"
proof -
  have a: "Pipe t = MbPipe s" "pipe_ok n (MbStore s) (MbPipe s)" "pipe_abs n (MbMem s) (MbStore s) t" "Wpc t = WFill"
    "CurBuf s = Buffers (MbPipe s) ! unat (WBuf t)"
    using abs by (simp_all add: mb_abs_def)
  have "write_buf_inv t" by (rule write_buf_run [OF run]) (simp add: write_buf_inv_def pipe_init_def)
  then have w: "WBuf t = WriteBufIdx (MbPipe s)" using a(1,4) by (simp add: write_buf_inv_def)
  show ?thesis
  proof (cases "SdbArenaGetPos (MbStore s (CurBuf s)) > 0")
    case True
    then obtain u where u: "pipe_run True (FlushBuf # write_call) t = Some u" "Pipe u = P'" "pipe_ok n st P'"
      "pipe_abs n (MbMem s) st u"
      using flush_steps [OF a(2) [folded a(1)] a(3,4), of True] fl a(1,5) w by auto
    have "pipe_run True (acts @ FlushBuf # write_call) (pipe_init P) = Some u" by (rule pipe_run_extend [OF run u(1)])
    moreover have "pushed (acts @ FlushBuf # write_call) = ps" using t(1) by (simp add: pushed_append pushed_flush)
    ultimately show ?thesis using flush_run [OF u(1)] u(2-4) t(2,3) unfolding drained_def prod.case
      by (intro exI [of _ "acts @ FlushBuf # write_call"] exI [of _ u]) simp
  next
    case False
    then have "SdPipeFlush False False (MbStore s) (MbPipe s) = Inr (Returns (MbStore s, MbPipe s))"
      using a(5) w fl by (auto simp: SdPipeFlush_def Let_def split: if_splits)
    then have s': "s\<lparr>MbStore := st, MbPipe := P'\<rparr> = s" using fl by simp
    have "unat (Cur (MbStore s (CurBuf s))) = 0" using False by (simp add: SdbArenaGetPos_def word_gt_0)
    then have "pending t = []" using current_content [OF abs] a(4) by (simp add: pending_def buf_bytes_def rd_def)
    then show ?thesis using run t a(1-4) unfolding s' drained_def prod.case by blast
  qed
qed

lemma MbReconnect_drains:
  assumes "sys_inv n P k ps (s, taken)" "MbReconnect False False s conns = Inr (Returns (s', conns'))"
  shows "drained n P ps (s', taken)"
proof -
  obtain acts t where t: "pipe_run False acts (pipe_init P) = Some t" "FlushBuf \<notin> set acts" "pushed acts = ps"
    "mb_abs n s t" "Rpc t = RIdle" "Consumed t = taken"
    using assms(1) by (auto simp: sys_inv_def)
  have run: "pipe_run True acts (pipe_init P) = Some t" using init_run_reload [OF t(2)] t(1) by metis
  obtain st P' where fl: "SdPipeFlush False False (MbStore s) (MbPipe s) = Inr (Returns (st, P'))"
    "s' = s\<lparr>MbStore := st, MbPipe := P'\<rparr>"
    using assms(2) by (auto simp: MbReconnect_def split: sum.splits call.splits)
  show ?thesis unfolding fl(2) by (rule flush_drains [OF run t(4,3,5,6) fl(1)])
qed

section \<open>Reading the rest\<close>

lemma drained_Take:
  assumes "drained n P ps (s, taken)" "sys_step Take (s, taken) = Some c"
  shows "drained n P ps c"
proof -
  obtain acts t where t: "pipe_run True acts (pipe_init P) = Some t" "pushed acts = ps" "Pipe t = MbPipe s"
    "pipe_ok n (MbStore s) (MbPipe s)" "pipe_abs n (MbMem s) (MbStore s) t" "Wpc t = WFill" "Rpc t = RIdle"
    "Consumed t = taken" "pending t = []"
    using assms(1) by (auto simp: drained_def)
  obtain v P' d where v: "c = (s\<lparr>MbPipe := P'\<rparr>, taken @ [d])" "pipe_run True (read_call @ [RStep]) t = Some v" "Pipe v = P'"
    "pipe_ok n (MbStore s) P'" "pipe_abs n (MbMem s) (MbStore s) v" "Rpc v = RIdle" "Consumed v = Consumed t @ [d]"
    "Wpc v = Wpc t" "WBuf v = WBuf t" "Content v = Content t"
    by (rule take_run [OF assms(2) t(3-5,7)])
  have "pipe_run True (acts @ read_call @ [RStep]) (pipe_init P) = Some v" by (rule pipe_run_extend [OF t(1) v(2)])
  moreover have "pushed (acts @ read_call @ [RStep]) = ps"
    using t(2) pushed_append [of acts "read_call @ [RStep]"] pushed_calls(3) by simp
  moreover have "pending v = []" using t(9) unfolding pending_def v(8-10) .
  ultimately show ?thesis using t(6,8) v(3-8) unfolding v(1) drained_def prod.case
    by (intro exI [of _ "acts @ read_call @ [RStep]"] exI [of _ v]) simp
qed

lemma drained_reads: "\<lbrakk>drained n P ps c; sys_run (replicate j Take) c = Some d\<rbrakk> \<Longrightarrow> drained n P ps d"
proof (induction j arbitrary: c)
  case (Suc j)
  obtain s taken where c: "c = (s, taken)" by (cases c)
  obtain e where e: "sys_step Take (s, taken) = Some e" "sys_run (replicate j Take) e = Some d"
    using Suc.prems(2) c by (auto split: option.splits simp del: sys_step.simps)
  show ?case using Suc.IH [OF drained_Take [OF Suc.prems(1) [unfolded c] e(1)] e(2)] .
qed simp

text \<open>When no buffer is left to be taken, all that was handed over has been.\<close>

lemma drained_all_taken:
  assumes "drained n P ps (s, taken)" "pipe_fresh n P" "3 \<le> n" "sys_step Take (s, taken) = None"
  shows "\<exists>acts t. pipe_run True acts (pipe_init P) = Some t \<and> pushed acts = ps \<and> Consumed t = taken \<and>
    pending t = [] \<and> length (Published t) = length taken"
proof -
  obtain acts t where t: "pipe_run True acts (pipe_init P) = Some t" "pushed acts = ps" "Pipe t = MbPipe s"
    "pipe_ok n (MbStore s) (MbPipe s)" "pipe_abs n (MbMem s) (MbStore s) t" "Wpc t = WFill" "Rpc t = RIdle"
    "Consumed t = taken" "pending t = []"
    using assms(1) by (auto simp: drained_def)
  have reach: "pipe_reach True P t" using pipe_run_init [OF t(1)] .
  have inv: "token_inv n t" "count_inv t" using pipe_inv [OF reach assms(2)] pipe_count_inv [OF reach] by auto
  have "ReadEvent (MbPipe s) = 0"
  proof (rule ccontr)
    assume r: "ReadEvent (MbPipe s) \<noteq> 0"
    then have "0 < unat (ReadEvent (MbPipe s))" by (simp add: unat_gt_0)
    then have "unat (WriteEvent (MbPipe s)) = 0"
      using inv(1) t(3,6,7) by (auto simp: token_inv_def split: if_splits)
    then have we: "WriteEvent (MbPipe s) = 0" by (simp add: unat_eq_zero)
    have "SdPipeGetReadBuffer False False (MbPipe s) \<noteq> Inr Blocks"
      using r we by (auto simp: SdPipeGetReadBuffer_def eventfd_read_def eventfd_write_def Let_def split: if_splits)
    moreover have "\<exists>r. SdPipeGetReadBuffer False False (MbPipe s) = Inr r"
      using get_read_steps [OF t(4) [folded t(3)] t(5,7), of True] t(3) by (auto split: sum.splits)
    ultimately have "sys_step Take (s, taken) \<noteq> None" by (auto split: call.splits)
    then show False using assms(4) by simp
  qed
  then have "length (Published t) = Taken t" using inv(1) t(3,6) by (simp add: token_inv_def)
  then show ?thesis using inv(2) t by (auto simp: count_inv_def)
qed

lemma drained_contents:
  assumes "drained n P ps (s, taken)" "pipe_fresh n P" "3 \<le> n" "sys_step Take (s, taken) = None"
  shows "concat taken = concat ps"
proof -
  obtain acts t where t: "pipe_run True acts (pipe_init P) = Some t" "pushed acts = ps" "Consumed t = taken" "pending t = []"
    "length (Published t) = length taken"
    using drained_all_taken [OF assms] by blast
  have reach: "\<exists>P n. pipe_reach True P t \<and> pipe_fresh n P \<and> 3 \<le> n" using pipe_run_init [OF t(1)] assms(2,3) by blast
  obtain rest where "Published t = Consumed t @ rest" using pipe_channel.sent_split [OF reach] .
  then have "Published t = taken" using t(3,5) by simp
  moreover have "concat (Published t) @ pending t = concat ps"
    using stream_run [OF t(1)] t(2) by (simp add: write_buf_inv_def pipe_init_def pending_def)
  ultimately show ?thesis using t(4) by simp
qed


text \<open>One packet, flushed on leaving and read afterwards.\<close>

lemma system_leaves:
  assumes "mb_abs 3 s system_sys" "MbPipe s = MbPipe system_state" "unat (Cur (MbStore s (CurBuf s))) = 16"
  shows "\<exists>s' s'' conns'. MbReconnect False False s conns = Inr (Returns (s', conns')) \<and>
    sys_run (replicate 1 Take) (s', []) = Some (s'', [flow_packet]) \<and> sys_step Take (s'', [flow_packet]) = None"
proof -
  have p: "flow_packet \<noteq> []" by (simp add: flow_packet_def)
  have a: "Pipe system_sys = MbPipe s" "pipe_ok 3 (MbStore s) (MbPipe s)" "pipe_abs 3 (MbMem s) (MbStore s) system_sys"
    "Wpc system_sys = WFill" "CurBuf s = Buffers (MbPipe s) ! unat (WriteBufIdx (MbPipe s))"
    using assms(1,2) by (auto simp: mb_abs_def) (simp add: system_sys_def pipe_init_def)
  have pos: "SdbArenaGetPos (MbStore s (Buffers (Pipe system_sys) ! unat (WriteBufIdx (Pipe system_sys)))) > 0"
    using assms(3) unfolding a(1) a(5) [symmetric] by (simp add: SdbArenaGetPos_def word_gt_0 flip: unat_eq_zero)
  obtain t where t: "pipe_run True (FlushBuf # write_call) system_sys = Some t" "Rpc t = RIdle"
    "\<exists>u. pipe_run True read_call t = Some u \<and> Rpc u = RHold 0 \<and> Content u 0 = flow_packet \<and> ReadEvent (Pipe u) = 0"
    using p by (simp add: system_sys_def pipe_init_def system_state_def example_pipe_def write_call_def read_call_def
        eventfd_read_def eventfd_write_def NextBuf_def)
  obtain st P where f: "SdPipeFlush False False (MbStore s) (MbPipe s) = Inr (Returns (st, P))" "Pipe t = P"
    "pipe_ok 3 st P" "pipe_abs 3 (MbMem s) st t"
    using flush_steps [OF a(2) [folded a(1)] a(3,4) pos, of True] t(1) a(1) by (auto split: sum.splits call.splits)
  let ?s = "s\<lparr>MbStore := st, MbPipe := P\<rparr>"
  have r: "\<exists>conns'. MbReconnect False False s conns = Inr (Returns (?s, conns'))" by (simp add: MbReconnect_def f(1))
  obtain b Q where g: "SdPipeGetReadBuffer False False P = Inr (Returns (b, Q))" "buf_bytes (MbMem s) (st b) = flow_packet"
    "ReadEvent Q = 0"
    using get_read_steps [OF f(3) [folded f(2)] f(4) t(2), of True] t(3) f(2) by (auto split: sum.splits call.splits)
  have "sys_step Take (?s, []) = Some (s\<lparr>MbStore := st, MbPipe := Q\<rparr>, [flow_packet])" using g(1,2) by simp
  moreover have "sys_step Take (s\<lparr>MbStore := st, MbPipe := Q\<rparr>, [flow_packet]) = None"
    using g(3) by (simp add: SdPipeGetReadBuffer_def eventfd_read_def)
  ultimately show ?thesis using r by (auto simp del: sys_step.simps)
qed


end
