(* ===== verification/Mb_Thread.thy ===== *)
theory Mb_Thread
  imports Sensor_Shutdown
begin

text \<open>
  The whole of \<^verbatim>\<open>MbRun\<close> of \<^verbatim>\<open>src/DataHandlers/ModbusWithPostgres/Modbus.c\<close>, from its set-up over its connections to its
  return, and \<^verbatim>\<open>MbPipeThroughputTest\<close>, with the reads of the database thread between their steps.
\<close>

section \<open>The loops\<close>

text \<open>
  A turn of the inner loop: how many buffers the database thread takes before it, what \<^verbatim>\<open>SdbShouldShutdown\<close> answers,
  and whether the calls on the event descriptors fail in it.
\<close>

record mb_turn =
  TReads :: nat
  TShutdown :: bool
  TRdFails :: bool
  TWrFails :: bool

text \<open>The state of the pipe and its buffers, with the contents of the buffers that have been taken.\<close>

type_synonym mb_view = "mb_state \<times> u8 list list"

definition pipe_reads :: "nat \<Rightarrow> mb_view \<Rightarrow> mb_view option" where
  "pipe_reads k c = sys_run (replicate k Take) c"

text \<open>
  The loop on one connection, until a shutdown or \<^verbatim>\<open>goto reconnect\<close>. \<open>None\<close> is a loop that has not ended when the turns
  have, because it waits or is not done.
\<close>

fun MbRun_inner :: "bool \<Rightarrow> mb_turn list \<Rightarrow> mb_view \<Rightarrow> net_event list \<Rightarrow> mb_view option res" where
  "MbRun_inner asserts [] c es = Inr None"
| "MbRun_inner asserts (T # Ts) c es =
     (case pipe_reads (TReads T) c of
        None \<Rightarrow> Inr None
      | Some (s, taken) \<Rightarrow>
          if TShutdown T then Inr (Some (s, taken))
          else
            (case MbRun_iteration asserts (TRdFails T) (TWrFails T) s es of
               Inl f \<Rightarrow> Inl f
             | Inr Stuck \<Rightarrow> Inr None
             | Inr (Continue s es) \<Rightarrow> MbRun_inner asserts Ts (s, taken) es
             | Inr (Reconnect s es) \<Rightarrow> Inr (Some (s, taken))))"

text \<open>
  A turn of the outer loop: the shutdown flag at its head, the configuration file with what lies behind it in memory, what
  connecting returns, the turns and the events of the connection, the flush, and the flag after it.
\<close>

record mb_attempt =
  AShutdown :: bool
  AFile :: "string option"
  ABehind :: string
  ASock :: "string \<Rightarrow> int \<Rightarrow> int"
  ATurns :: "mb_turn list"
  AEvents :: "net_event list"
  ARdFails :: bool
  AWrFails :: bool
  ALater :: bool

text \<open>The thread: its pipe, its arena, the sockets opened and closed so far, and the times it has slept.\<close>

record mb_thread =
  MbView :: mb_view
  ThArena :: sdb_arena
  OpenedFds :: "int list"
  ClosedFds :: "int list"
  Sleeps :: nat

definition conn_fds :: "mb_conn list \<Rightarrow> int list" where
  "conn_fds conns = filter (\<lambda>fd. fd \<noteq> - 1) (map SockFd conns)"

fun MbRun_outer :: "bool \<Rightarrow> thread_arenas \<Rightarrow> mb_attempt list \<Rightarrow> mb_thread \<Rightarrow> mb_thread option res" where
  "MbRun_outer asserts TAs [] T = Inr None"
| "MbRun_outer asserts TAs (A # As) T =
     (if AShutdown A then Inr (Some T)
      else
        (let (s, taken) = MbView T
         in case Sdb_ScratchGet (MbStore s) [] TAs of
              Inl f \<Rightarrow> Inl f
            | Inr S \<Rightarrow>
                (case MbPrepareCtx (ScArena S \<noteq> NULL) (AFile A) (ABehind A) (ASock A) (MbMem s) (ThArena T) of
                   Inl f \<Rightarrow> Inl f
                 | Inr (None, m, B) \<Rightarrow>
                     MbRun_outer asserts TAs As
                       (T\<lparr>MbView := (s\<lparr>MbMem := m\<rparr>, taken), ThArena := B, Sleeps := Sleeps T + 1\<rparr>)
                 | Inr (Some MbCtx, m, B) \<Rightarrow>
                     (case MbRun_inner asserts (ATurns A) (s\<lparr>MbMem := m\<rparr>, taken) (AEvents A) of
                        Inl f \<Rightarrow> Inl f
                      | Inr None \<Rightarrow> Inr None
                      | Inr (Some (s, taken)) \<Rightarrow>
                          (case MbReconnect (ARdFails A) (AWrFails A) s (Conns MbCtx) of
                             Inl f \<Rightarrow> Inl f
                           | Inr Blocks \<Rightarrow> Inr None
                           | Inr (Returns (s, conns)) \<Rightarrow>
                               MbRun_outer asserts TAs As
                                 (T\<lparr>MbView := (s, taken), ThArena := B,
                                    OpenedFds := OpenedFds T @ map SockFd (Conns MbCtx),
                                    ClosedFds := ClosedFds T @ conn_fds (Conns MbCtx),
                                    Sleeps := (if ALater A then Sleeps T else Sleeps T + 1)\<rparr>))))))"

text \<open>
  The thread: its arenas in the memory \<open>M\<close> that \<^verbatim>\<open>malloc\<close> gives, the buffer it starts with, the barrier (it has been
  passed when the loop starts), the loop, and the result, which is always 0.
\<close>

definition MbRun :: "bool \<Rightarrow> u64 \<Rightarrow> u64 \<Rightarrow> addr \<Rightarrow> mb_attempt list \<Rightarrow> mb_state \<Rightarrow> (int \<times> mb_thread) option res" where
  "MbRun asserts MemSize ScratchSize M As s =
     (case thread_setup MB_SCRATCH_COUNT MemSize ScratchSize M (MbStore s) of
        Inl f \<Rightarrow> Inl f
      | Inr (MbArena, TAs, st) \<Rightarrow>
          (let s = s\<lparr>MbStore := st, CurBuf := Buffers (MbPipe s) ! unat (WriteBufIdx (MbPipe s))\<rparr>
           in case MbRun_outer asserts TAs As
                     \<lparr>MbView = (s, []), ThArena = MbArena, OpenedFds = [], ClosedFds = [], Sleeps = 0\<rparr> of
                Inl f \<Rightarrow> Inl f
              | Inr None \<Rightarrow> Inr None
              | Inr (Some T) \<Rightarrow> Inr (Some (0, T))))"

section \<open>Sockets\<close>

text \<open>A context that is prepared has one connection, with a socket.\<close>

lemma MbPrepareCtx_conns:
  "MbPrepareCtx sc file behind sock m A = Inr (Some c, m', A') \<Longrightarrow>
    \<exists>fd ip port. Conns c = [\<lparr>SockFd = fd, Port = port, Ip = ip\<rparr>] \<and> fd \<noteq> - 1"
  by (auto simp: MbPrepareCtx_def Let_def case_prod_beta split: if_splits option.splits)

lemma MbRun_outer_closes:
  assumes "MbRun_outer asserts TAs As T = Inr (Some U)" "ClosedFds T = OpenedFds T"
  shows "ClosedFds U = OpenedFds U \<and> (\<exists>A\<in>set As. AShutdown A)"
  using assms
proof (induction As arbitrary: T)
  case (Cons A As)
  show ?case
  proof (cases "AShutdown A")
    case False
    obtain s taken where c: "MbView T = (s, taken)" by fastforce
    obtain S where S: "Sdb_ScratchGet (MbStore s) [] TAs = Inr S"
      using Cons.prems(1) False c by (cases "Sdb_ScratchGet (MbStore s) [] TAs") auto
    obtain ctx m B where p: "MbPrepareCtx (ScArena S \<noteq> NULL) (AFile A) (ABehind A) (ASock A) (MbMem s) (ThArena T) = Inr (ctx, m, B)"
      using Cons.prems(1) False c S
      by (cases "MbPrepareCtx (ScArena S \<noteq> NULL) (AFile A) (ABehind A) (ASock A) (MbMem s) (ThArena T)") auto
    have "\<exists>R. MbRun_outer asserts TAs As R = Inr (Some U) \<and> ClosedFds R = OpenedFds R"
    proof (cases ctx)
      case None
      let ?R = "T\<lparr>MbView := (s\<lparr>MbMem := m\<rparr>, taken), ThArena := B, Sleeps := Sleeps T + 1\<rparr>"
      have "MbRun_outer asserts TAs As ?R = Inr (Some U)" using Cons.prems(1) None False c S p by simp
      then show ?thesis using Cons.prems(2) by (intro exI [of _ ?R]) simp
    next
      case (Some x)
      have fds: "conn_fds (Conns x) = map SockFd (Conns x)"
        using MbPrepareCtx_conns p Some by (fastforce simp: conn_fds_def)
      obtain s1 taken1 where i: "MbRun_inner asserts (ATurns A) (s\<lparr>MbMem := m\<rparr>, taken) (AEvents A) = Inr (Some (s1, taken1))"
        using Cons.prems(1) False c S p Some
        by (cases "MbRun_inner asserts (ATurns A) (s\<lparr>MbMem := m\<rparr>, taken) (AEvents A)") (auto split: option.splits)
      obtain s2 conns where r: "MbReconnect (ARdFails A) (AWrFails A) s1 (Conns x) = Inr (Returns (s2, conns))"
        using Cons.prems(1) False c S p Some i
        by (cases "MbReconnect (ARdFails A) (AWrFails A) s1 (Conns x)") (auto split: call.splits)
      let ?R = "T\<lparr>MbView := (s2, taken1), ThArena := B, OpenedFds := OpenedFds T @ map SockFd (Conns x),
        ClosedFds := ClosedFds T @ conn_fds (Conns x), Sleeps := (if ALater A then Sleeps T else Sleeps T + 1)\<rparr>"
      have "MbRun_outer asserts TAs As ?R = Inr (Some U)"
        using Cons.prems(1) False c S p Some i r by (simp del: MbRun_inner.simps)
      then show ?thesis using Cons.prems(2) fds by (intro exI [of _ ?R]) simp
    qed
    then show ?thesis using Cons.IH by auto
  qed (use Cons.prems in auto)
qed simp


section \<open>A connection\<close>

lemma pipe_reads_inv:
  assumes "sys_inv n P k ps c" "pipe_reads j c = Some d"
  shows "sys_inv n P k ps d"
proof -
  have "packets (replicate j Take) = []" by (simp add: packets_def)
  then show ?thesis using sys_run_inv [OF assms(1) assms(2) [unfolded pipe_reads_def]] by simp
qed

text \<open>Turns in which nothing fails and no shutdown is requested, one for each frame.\<close>

definition calm :: "mb_turn \<Rightarrow> bool" where
  "calm T \<longleftrightarrow> \<not> TShutdown T \<and> \<not> TRdFails T \<and> \<not> TWrFails T"

lemma MbRun_inner_inv:
  assumes "sys_inv n P k ps c" "\<forall>T\<in>set Ts. calm T" "TShutdown L" "length Ts = length Fs" "\<forall>F\<in>set Fs. packet_frame k F"
    and "MbRun_inner asserts (Ts @ [L]) c (map Arrive Fs) = Inr (Some d)"
  shows "sys_inv n P k (ps @ map frame_data Fs) d"
  using assms
proof (induction Ts arbitrary: Fs ps c)
  case Nil
  then obtain c' where "pipe_reads (TReads L) c = Some c'" "d = c'" by (auto split: option.splits)
  then show ?case using pipe_reads_inv [OF Nil.prems(1)] Nil.prems(4) by simp
next
  case (Cons T Ts)
  obtain F Fs' where F: "Fs = F # Fs'" using Cons.prems(4) by (cases Fs) auto
  obtain s taken where r: "pipe_reads (TReads T) c = Some (s, taken)" using Cons.prems(6) by (auto split: option.splits)
  have inv: "sys_inv n P k ps (s, taken)" by (rule pipe_reads_inv [OF Cons.prems(1) r])
  have T: "\<not> TShutdown T" "\<not> TRdFails T" "\<not> TWrFails T" using Cons.prems(2) by (auto simp: calm_def)
  have "MbRun_iteration asserts False False s (Arrive F # map Arrive Fs') \<noteq> Inr Stuck"
    using Cons.prems(6) r T F by auto
  moreover have "packet_frame k F" using Cons.prems(5) F by simp
  ultimately obtain s' where s': "MbRun_iteration asserts False False s (Arrive F # map Arrive Fs') = Inr (Continue s' (map Arrive Fs'))"
    "sys_inv n P k (ps @ [frame_data F]) (s', taken)"
    using iteration_keeps [OF inv] by metis
  have "sys_inv n P k ((ps @ [frame_data F]) @ map frame_data Fs') d"
    by (rule Cons.IH [OF s'(2)]) (use Cons.prems(2-6) r T F s'(1) in auto)
  then show ?case by (simp add: F)
qed

lemma sys_start_mem: "sys_start n s \<Longrightarrow> sys_start n (s\<lparr>MbMem := m\<rparr>)"
proof -
  assume a: "sys_start n s"
  have "buf_bytes m A = []" if "buf_bytes (MbMem s) A = []" for A
    using that by (simp add: buf_bytes_def rd_def)
  then have "pipe_abs n m (MbStore s) (pipe_init (MbPipe s))"
    using a by (simp add: sys_start_def mb_abs_def pipe_abs_def pipe_init_def)
  then have "mb_abs n (s\<lparr>MbMem := m\<rparr>) (pipe_init (MbPipe s))" using a by (simp add: sys_start_def mb_abs_def)
  moreover have "mb_sizes n (s\<lparr>MbMem := m\<rparr>) = mb_sizes n s" by (simp add: mb_sizes_def)
  ultimately show ?thesis using a by (simp add: sys_start_def)
qed


section \<open>A run\<close>

text \<open>A thread that connects, receives one frame, is asked to stop, and returns.\<close>

definition calm_turn :: mb_turn where
  "calm_turn = \<lparr>TReads = 0, TShutdown = False, TRdFails = False, TWrFails = False\<rparr>"

definition system_attempt :: mb_attempt where
  "system_attempt = \<lparr>AShutdown = False, AFile = Some (''ipv4Addr=1'' @ [CHR 0x0A] @ ''port=5''), ABehind = [], ASock = (\<lambda>_ _. 7),
     ATurns = [calm_turn, calm_turn\<lparr>TShutdown := True\<rparr>], AEvents = [Arrive system_frame],
     ARdFails = False, AWrFails = False, ALater = True\<rparr>"

definition system_arena :: sdb_arena where "system_arena = \<lparr>Cur = 560, Cap = 1536, Mem = 4096\<rparr>"

definition system_scratch :: thread_arenas where
  "system_scratch = \<lparr>Arenas = Some [4096, 4376], TaCount = 2, MaxCount = 2\<rparr>"

definition system_store :: arena_store where
  "system_store = (MbStore system_state)(4096 := \<lparr>Cur = 0, Cap = 256, Mem = 4120\<rparr>, 4376 := \<lparr>Cur = 0, Cap = 256, Mem = 4400\<rparr>)"

lemma system_setup:
  "thread_setup MB_SCRATCH_COUNT 1024 256 4096 (MbStore system_state) = Inr (system_arena, system_scratch, system_store)"
proof -
  have two: "scratch_setup 2 Size A TAs st = scratch_setup (Suc (Suc 0)) Size A TAs st" for Size A TAs st
    by (simp add: numeral_2_eq_2)
  have r: "replicate 2 x = [x, x]" for x by (simp add: numeral_2_eq_2)
  show ?thesis
    unfolding thread_setup_def MB_SCRATCH_COUNT_def two scratch_setup.simps
    by (simp add: SdbArenaInit_def SDB_THREAD_ARENAS_REGISTER_def SdbArenaBootstrap_def SdbArenaPush_def Sdb_ThreadArenasInit_def
        sizeof_sdb_arena_def Sdb_ThreadArenasAdd_def r system_arena_def system_scratch_def system_store_def)
qed

lemma system_prepare:
  "\<exists>m' B. MbPrepareCtx True (AFile system_attempt) (ABehind system_attempt) (ASock system_attempt) m system_arena =
    Inr (Some \<lparr>ConnCount = 1, Conns = [\<lparr>SockFd = 7, Port = 5, Ip = ''1''\<rparr>]\<rparr>, m', B)"
proof -
  have c: "mb_conf (conf_text (''ipv4Addr=1'' @ [CHR 0x0A] @ ''port=5'') []) = (Some ''1'', 5)"
    by (simp add: mb_conf_def conf_text_def strtok_lines_def atoi_def digits_value_def isspace_def isdigit_def)
  show ?thesis
    by (simp add: MbPrepareCtx_def system_attempt_def system_arena_def c [simplified] SdbArenaPush_def SdbLoadFileIntoMemory_def
        sizeof_modbus_ctx_def sizeof_mb_conn_def HeaderSize_def sizeof_sdb_file_data_def Let_def)
qed

lemma system_thread:
  "\<exists>T s'. MbRun True 1024 256 4096 [system_attempt, system_attempt\<lparr>AShutdown := True\<rparr>] system_state = Inr (Some (0, T)) \<and>
    OpenedFds T = [7] \<and> pipe_reads 1 (MbView T) = Some (s', [flow_packet]) \<and> sys_step Take (s', [flow_packet]) = None"
proof -
  let ?s = "system_state\<lparr>MbStore := system_store\<rparr>"
  have start: "sys_start 3 ?s" by (rule system_start_store) (simp_all add: system_store_def system_state_def)
  have buf: "system_state\<lparr>MbStore := system_store, CurBuf := Buffers (MbPipe system_state) ! unat (WriteBufIdx (MbPipe system_state))\<rparr> = ?s"
    by (simp add: system_state_def example_pipe_def)
  obtain S where S: "Sdb_ScratchGet system_store [] system_scratch = Inr S" "ScArena S \<noteq> NULL"
    by (simp add: Sdb_ScratchGet_def system_scratch_def SdbScratchBegin_def)
  obtain m B where p: "MbPrepareCtx True (AFile system_attempt) (ABehind system_attempt) (ASock system_attempt) (MbMem ?s) system_arena =
      Inr (Some \<lparr>ConnCount = 1, Conns = [\<lparr>SockFd = 7, Port = 5, Ip = ''1''\<rparr>]\<rparr>, m, B)"
    using system_prepare by blast
  obtain s where s: "sys_step (Iterate system_frame) (?s\<lparr>MbMem := m\<rparr>, []) = Some (s, [])" "mb_abs 3 s system_sys"
    "MbPipe s = MbPipe system_state" "unat (Cur (MbStore s (CurBuf s))) = 16"
    using system_first [OF sys_start_mem [OF start], of m "[]"] by auto
  have r0: "pipe_reads 0 c = Some c" for c by (simp add: pipe_reads_def)
  have "MbRun_iteration True False False (?s\<lparr>MbMem := m\<rparr>) [Arrive system_frame] = Inr (Continue s [])"
  proof -
    have "sys_inv 3 (MbPipe ?s) 16 [] (?s\<lparr>MbMem := m\<rparr>, [])"
      using sys_start_inv [where k = 16, OF sys_start_mem [OF start, of m]] by (simp add: system_state_def)
    moreover have "MbRun_iteration True False False (?s\<lparr>MbMem := m\<rparr>) [Arrive system_frame] \<noteq> Inr Stuck" using s(1) by auto
    ultimately obtain s' where "MbRun_iteration True False False (?s\<lparr>MbMem := m\<rparr>) [Arrive system_frame] = Inr (Continue s' [])"
      using iteration_keeps [OF _ system_frame_data(1)] by metis
    then show ?thesis using s(1) by simp
  qed
  then have i: "MbRun_inner True [calm_turn, calm_turn\<lparr>TShutdown := True\<rparr>] (?s\<lparr>MbMem := m\<rparr>, []) [Arrive system_frame] = Inr (Some (s, []))"
    by (simp add: calm_turn_def r0)
  obtain s' s'' conns' where l: "MbReconnect False False s [\<lparr>SockFd = 7, Port = 5, Ip = ''1''\<rparr>] = Inr (Returns (s', conns'))"
    "sys_run (replicate 1 Take) (s', []) = Some (s'', [flow_packet])" "sys_step Take (s'', [flow_packet]) = None"
    using system_leaves [OF s(2-4)] by blast
  show ?thesis using S p i l
    by (auto simp: MbRun_def system_setup buf pipe_reads_def system_attempt_def simp del: MbRun_inner.simps sys_step.simps
        intro!: exI [of _ s''])
qed



end
