(* ===== verification/Mb_Throughput.thy ===== *)
theory Mb_Throughput
  imports Mb_Thread
begin

text \<open>
  \<^verbatim>\<open>MbPipeThroughputTest\<close> of \<^verbatim>\<open>src/DataHandlers/ModbusWithPostgres/Modbus.c\<close>: a file pushed through the pipe in pieces of a
  buffer's size.
\<close>

section \<open>The test\<close>

text \<open>
  The loop. \<open>Rem\<close> is the signed count of the bytes that remain; the comparison with \<^verbatim>\<open>BufferMaxFill\<close> is unsigned. A turn
  is one pass through it; \<open>None\<close> is a loop that waits or has not ended when the turns have.
\<close>

primrec throughput_loop :: "mb_turn list \<Rightarrow> u8 list \<Rightarrow> u64 \<Rightarrow> mb_view \<Rightarrow> mb_view option res" where
  "throughput_loop [] Data Rem c = (if 0 < sint Rem then Inr None else Inr (Some c))"
| "throughput_loop (T # Ts) Data Rem c =
     (let (s, taken) = c in
      if \<not> 0 < sint Rem then Inr (Some (s, taken))
      else if CurBuf s = NULL then Inl NullDeref
      else
        (let Size = (if Rem < BufferMaxFill (MbPipe s) then Rem else BufferMaxFill (MbPipe s));
             (Ptr, A) = SdbArenaPush (MbStore s (CurBuf s)) Size;
             off = unat (of_nat (length Data) - Rem)
         in if Ptr = NULL \<and> Size \<noteq> 0 then Inl NullDeref
            else if off + unat Size > length Data then Inl OutOfBounds
            else
              (let s = s\<lparr>MbStore := (MbStore s)(CurBuf s := A), MbMem := wr (MbMem s) Ptr (take (unat Size) (drop off Data))\<rparr>
               in case pipe_reads (TReads T) (s, taken) of
                    None \<Rightarrow> Inr None
                  | Some (s, taken) \<Rightarrow>
                      (case SdPipeGetWriteBuffer (TRdFails T) (TWrFails T) (MbStore s) (MbPipe s) of
                         Inl f \<Rightarrow> Inl f
                       | Inr Blocks \<Rightarrow> Inr None
                       | Inr (Returns (b, st, P)) \<Rightarrow>
                           throughput_loop Ts Data (Rem - BufferMaxFill (MbPipe s))
                             (s\<lparr>CurBuf := b, MbStore := st, MbPipe := P\<rparr>, taken)))))"

text \<open>The thread: \<open>TestData\<close> is the loaded file, if it could be loaded.\<close>

definition MbPipeThroughputTest ::
  "u64 \<Rightarrow> u64 \<Rightarrow> addr \<Rightarrow> u8 list option \<Rightarrow> mb_turn list \<Rightarrow> bool \<Rightarrow> bool \<Rightarrow> mb_state \<Rightarrow> (int \<times> mb_view) option res" where
  "MbPipeThroughputTest MemSize ScratchSize M TestData Ts rd_fails wr_fails s =
     (case thread_setup MB_SCRATCH_COUNT MemSize ScratchSize M (MbStore s) of
        Inl f \<Rightarrow> Inl f
      | Inr (MbArena, TAs, st) \<Rightarrow>
          (let s = s\<lparr>MbStore := st, CurBuf := Buffers (MbPipe s) ! unat (WriteBufIdx (MbPipe s))\<rparr>
           in case TestData of
                None \<Rightarrow> Inl NullDeref
              | Some Data \<Rightarrow>
                  (case throughput_loop Ts Data (of_nat (length Data)) (s, []) of
                     Inl f \<Rightarrow> Inl f
                   | Inr None \<Rightarrow> Inr None
                   | Inr (Some (s, taken)) \<Rightarrow>
                       (case SdPipeFlush rd_fails wr_fails (MbStore s) (MbPipe s) of
                          Inl f \<Rightarrow> Inl f
                        | Inr Blocks \<Rightarrow> Inr None
                        | Inr (Returns (st, P)) \<Rightarrow> Inr (Some (0, s\<lparr>MbStore := st, MbPipe := P\<rparr>, taken))))))"

section \<open>What is pushed through\<close>

text \<open>The pipe with \<open>pd\<close> in the buffer that is being filled, every buffer large enough for a piece.\<close>

definition fill_inv :: "nat \<Rightarrow> sensor_data_pipe \<Rightarrow> u8 list list \<Rightarrow> u8 list \<Rightarrow> mb_view \<Rightarrow> bool" where
  "fill_inv n P ps pd c \<longleftrightarrow> (case c of (s, taken) \<Rightarrow>
     (\<exists>acts t. pipe_run True acts (pipe_init P) = Some t \<and> pushed acts = ps \<and> mb_abs n s t \<and> Rpc t = RIdle \<and>
        Consumed t = taken \<and> pending t = pd \<and>
        (\<forall>b<n. BufferMaxFill P \<le> Cap (MbStore s (Buffers P ! b)))))"

lemma fill_keeps:
  assumes "fill_inv n P ps pd (s, taken)"
  shows "BufferMaxFill (MbPipe s) = BufferMaxFill P" "Buffers (MbPipe s) = Buffers P" "CurBuf s \<noteq> NULL"
    "length pd = unat (Cur (MbStore s (CurBuf s)))" "BufferMaxFill P \<le> Cap (MbStore s (CurBuf s))"
proof -
  obtain acts t where t: "pipe_run True acts (pipe_init P) = Some t" "mb_abs n s t" "pending t = pd"
    "\<forall>b<n. BufferMaxFill P \<le> Cap (MbStore s (Buffers P ! b))"
    using assms by (auto simp: fill_inv_def)
  show b: "BufferMaxFill (MbPipe s) = BufferMaxFill P" "Buffers (MbPipe s) = Buffers P"
    using run_keeps_sizes [OF t(1)] t(2) by (simp_all add: mb_abs_def pipe_init_def)
  show "CurBuf s \<noteq> NULL" using pipe_ok_not_null t(2) by (auto simp: mb_abs_def)
  have "pd = buf_bytes (MbMem s) (MbStore s (CurBuf s))"
    using current_content [OF t(2)] t(2,3) by (simp add: pending_def mb_abs_def)
  then show "length pd = unat (Cur (MbStore s (CurBuf s)))" by (simp add: buf_bytes_def)
  show "BufferMaxFill P \<le> Cap (MbStore s (CurBuf s))" using t(2,4) b(2) by (auto simp: mb_abs_def)
qed

lemma fill_Take:
  assumes "fill_inv n P ps pd (s, taken)" "sys_step Take (s, taken) = Some c"
  shows "fill_inv n P ps pd c"
proof -
  obtain acts t where t: "pipe_run True acts (pipe_init P) = Some t" "pushed acts = ps" "mb_abs n s t" "Rpc t = RIdle"
    "Consumed t = taken" "pending t = pd" "\<forall>b<n. BufferMaxFill P \<le> Cap (MbStore s (Buffers P ! b))"
    using assms(1) by (auto simp: fill_inv_def)
  have abs: "Pipe t = MbPipe s" "pipe_ok n (MbStore s) (MbPipe s)" "pipe_abs n (MbMem s) (MbStore s) t" "Wpc t = WFill"
    "unat (WBuf t) < n" "CurBuf s = Buffers (MbPipe s) ! unat (WBuf t)"
    using t(3) by (simp_all add: mb_abs_def)
  obtain v P' d where v: "c = (s\<lparr>MbPipe := P'\<rparr>, taken @ [d])" "pipe_run True (read_call @ [RStep]) t = Some v" "Pipe v = P'"
    "pipe_ok n (MbStore s) P'" "pipe_abs n (MbMem s) (MbStore s) v" "Rpc v = RIdle" "Consumed v = Consumed t @ [d]"
    "Wpc v = Wpc t" "WBuf v = WBuf t" "Content v = Content t"
    by (rule take_run [OF assms(2) abs(1-3) t(4)])
  have sz: "Buffers P' = Buffers (MbPipe s)" using run_keeps_sizes [OF v(2)] v(3) abs(1) by simp
  have "mb_abs n (s\<lparr>MbPipe := P'\<rparr>) v" using v(3-5,8,9) abs(4-6) sz by (simp add: mb_abs_def)
  moreover have "pipe_run True (acts @ read_call @ [RStep]) (pipe_init P) = Some v" by (rule pipe_run_extend [OF t(1) v(2)])
  moreover have "pushed (acts @ read_call @ [RStep]) = ps"
    using t(2) pushed_append [of acts "read_call @ [RStep]"] pushed_calls(3) by simp
  moreover have "pending v = pd" using t(6) unfolding pending_def v(8-10) .
  ultimately show ?thesis using t(5,7) v(6,7) unfolding v(1) fill_inv_def prod.case
    by (intro exI [of _ "acts @ read_call @ [RStep]"] exI [of _ v]) simp
qed

lemma fill_reads: "\<lbrakk>fill_inv n P ps pd c; pipe_reads j c = Some d\<rbrakk> \<Longrightarrow> fill_inv n P ps pd d"
  unfolding pipe_reads_def
proof (induction j arbitrary: c)
  case (Suc j)
  obtain s taken where c: "c = (s, taken)" by (cases c)
  obtain e where e: "sys_step Take (s, taken) = Some e" "sys_run (replicate j Take) e = Some d"
    using Suc.prems(2) c by (auto split: option.splits simp del: sys_step.simps)
  show ?case using Suc.IH [OF fill_Take [OF Suc.prems(1) [unfolded c] e(1)] e(2)] .
qed simp

lemma fill_push:
  assumes "fill_inv n P ps [] (s, taken)" "unat k = length d" "length d \<le> unat (BufferMaxFill P)"
  shows "\<exists>Ptr A. SdbArenaPush (MbStore s (CurBuf s)) k = (Ptr, A) \<and> Ptr \<noteq> NULL \<and>
    fill_inv n P (ps @ [d]) d (s\<lparr>MbStore := (MbStore s)(CurBuf s := A), MbMem := wr (MbMem s) Ptr d\<rparr>, taken)"
proof -
  obtain acts t where t: "pipe_run True acts (pipe_init P) = Some t" "pushed acts = ps" "mb_abs n s t" "Rpc t = RIdle"
    "Consumed t = taken" "pending t = []" "\<forall>b<n. BufferMaxFill P \<le> Cap (MbStore s (Buffers P ! b))"
    using assms(1) by (auto simp: fill_inv_def)
  have w: "Wpc t = WFill" using t(3) by (simp add: mb_abs_def)
  then have e: "Content t (unat (WBuf t)) = []" using t(6) by (simp add: pending_def)
  have "unat (Cur (MbStore s (CurBuf s))) + length d \<le> unat (Cap (MbStore s (CurBuf s)))"
    using fill_keeps(4,5) [OF assms(1)] assms(3) by (simp add: word_le_nat_alt)
  from push_refines [OF t(3) assms(2) this]
  obtain Ptr A where p: "SdbArenaPush (MbStore s (CurBuf s)) k = (Ptr, A)" "Ptr \<noteq> NULL" "Cap A = Cap (MbStore s (CurBuf s))"
    "mb_abs n (s\<lparr>MbStore := (MbStore s)(CurBuf s := A), MbMem := wr (MbMem s) Ptr d\<rparr>)
      (t\<lparr>Content := (Content t)(unat (WBuf t) := Content t (unat (WBuf t)) @ d)\<rparr>)"
    by auto
  let ?u = "t\<lparr>Content := (Content t)(unat (WBuf t) := Content t (unat (WBuf t)) @ d)\<rparr>"
  have "pipe_run True (acts @ [Push d]) (pipe_init P) = Some ?u" using w by (intro pipe_run_extend [OF t(1)]) simp
  moreover have "pushed (acts @ [Push d]) = ps @ [d]" using t(2) by (simp add: pushed_append pushed_calls(4))
  moreover have "pending ?u = d" using w e by (simp add: pending_def)
  moreover have "\<forall>b<n. BufferMaxFill P \<le> Cap (((MbStore s)(CurBuf s := A)) (Buffers P ! b))" using t(7) p(3) by auto
  ultimately have "fill_inv n P (ps @ [d]) d (s\<lparr>MbStore := (MbStore s)(CurBuf s := A), MbMem := wr (MbMem s) Ptr d\<rparr>, taken)"
    using p(4) t(4,5) unfolding fill_inv_def prod.case by (intro exI [of _ "acts @ [Push d]"] exI [of _ ?u]) simp
  then show ?thesis using p(1,2) by blast
qed

lemma fill_rotate:
  assumes "fill_inv n P ps pd (s, taken)"
    and "SdPipeGetWriteBuffer False False (MbStore s) (MbPipe s) = Inr (Returns (b, st, P'))"
  shows "fill_inv n P ps [] (s\<lparr>CurBuf := b, MbStore := st, MbPipe := P'\<rparr>, taken)"
proof -
  obtain acts t where t: "pipe_run True acts (pipe_init P) = Some t" "pushed acts = ps" "mb_abs n s t" "Rpc t = RIdle"
    "Consumed t = taken" "\<forall>b<n. BufferMaxFill P \<le> Cap (MbStore s (Buffers P ! b))"
    using assms(1) by (auto simp: fill_inv_def)
  note r = mb_rotate_abs [OF t(3) assms(2)]
  obtain u where u: "pipe_run True (GetWrite # write_call) t = Some u" "mb_abs n (s\<lparr>CurBuf := b, MbStore := st, MbPipe := P'\<rparr>) u"
    using r(1) by blast
  have k: "Rpc u = Rpc t \<and> Consumed u = Consumed t" using writer_keeps_reader [OF u(1)] by (auto simp: write_call_def)
  have "Content u (unat (WBuf u)) = []"
    using current_content [OF u(2)] r(2) by (simp add: buf_bytes_def rd_def)
  then have "pending u = []" using u(2) by (simp add: pending_def mb_abs_def)
  moreover have "pipe_run True (acts @ GetWrite # write_call) (pipe_init P) = Some u" by (rule pipe_run_extend [OF t(1) u(1)])
  moreover have "pushed (acts @ GetWrite # write_call) = ps" using t(2) by (simp add: pushed_append pushed_calls(2))
  ultimately show ?thesis using u(2) k t(4-6) r(6) unfolding fill_inv_def prod.case
    by (intro exI [of _ "acts @ GetWrite # write_call"] exI [of _ u]) simp
qed

section \<open>The signed count\<close>

lemma sint_count: "k < 2 ^ 63 \<Longrightarrow> sint (of_nat k :: u64) = int k"
  by (simp add: signed_of_nat signed_take_bit_int_eq_self)

lemma sint_count_down:
  assumes "k \<le> unat f" "unat f < 2 ^ 63"
  shows "\<not> 0 < sint (of_nat k - f :: u64)"
proof -
  obtain m where m: "f = of_nat m" "unat f = m" by (rule that [of "unat f"]) simp_all
  have "k \<le> m" "m < 2 ^ 63" using assms unfolding m(2) .
  then have "sint (word_of_int (int k - int m) :: u64) = int k - int m"
    unfolding signed_of_int by (simp add: signed_take_bit_int_eq_self)
  moreover have "of_nat k - f = (word_of_int (int k - int m) :: u64)" by (simp add: m(1))
  ultimately show ?thesis using \<open>k \<le> m\<close> by simp
qed

section \<open>The pieces of the file\<close>

lemma throughput_loop_inv:
  assumes "fill_inv n P ps [] c" "\<forall>T\<in>set Ts. calm T" "unat (BufferMaxFill P) < 2 ^ 63" "0 < unat (BufferMaxFill P)"
    and "length Data < 2 ^ 63" "Data = pre @ rest" "concat ps = pre"
    and "if rest = [] then \<not> 0 < sint Rem else Rem = of_nat (length rest)"
    and "throughput_loop Ts Data Rem c = Inr (Some d)"
  shows "\<exists>ps'. fill_inv n P ps' [] d \<and> concat ps' = Data"
  using assms
proof (induction Ts arbitrary: ps c pre rest Rem)
  case Nil
  then have "\<not> 0 < sint Rem" by (simp split: if_splits)
  then have "rest = []" using Nil.prems(5,6,8) sint_count [of "length rest"] by (cases "rest = []") auto
  then show ?case using Nil.prems by auto
next
  case (Cons T Ts)
  obtain s taken where c: "c = (s, taken)" by (cases c)
  show ?case
  proof (cases "rest = []")
    case True
    then show ?thesis using Cons.prems by (auto simp: c)
  next
    case False
    let ?mx = "BufferMaxFill P"
    define sz where "sz = min (length rest) (unat ?mx)"
    define piece where "piece = take sz rest"
    have inv: "fill_inv n P ps [] (s, taken)" using Cons.prems(1) by (simp add: c)
    note k = fill_keeps [OF inv]
    have r63: "length rest < 2 ^ 63" using Cons.prems(5,6) by simp
    have Rem: "Rem = of_nat (length rest)" "0 < sint Rem" using Cons.prems(8) False sint_count [OF r63] by simp_all
    have uRem: "unat Rem = length rest" unfolding Rem(1) using r63 by (intro unat_of_nat_fits) simp
    have size: "(if Rem < ?mx then Rem else ?mx) = of_nat sz"
      using uRem Rem(1) by (auto simp: sz_def word_less_nat_alt min_def)
    note size = size [folded k(1)]
    have usize: "unat (of_nat sz :: u64) = sz" using r63 by (intro unat_of_nat_fits) (simp add: sz_def)
    have len: "length piece = sz" by (simp add: piece_def sz_def)
    have off: "unat (of_nat (length Data) - Rem) = length pre"
    proof -
      have "of_nat (length Data) - Rem = (of_nat (length pre) :: u64)" by (simp add: Rem(1) Cons.prems(6))
      moreover have "length pre < 2 ^ 63" using Cons.prems(5,6) by simp
      then have "unat (of_nat (length pre) :: u64) = length pre" by (intro unat_of_nat_fits) simp
      ultimately show ?thesis by simp
    qed
    have "unat (of_nat sz :: u64) = length piece" "length piece \<le> unat ?mx" using usize len by (simp_all add: sz_def)
    from fill_push [OF inv this]
    obtain Ptr A where p: "SdbArenaPush (MbStore s (CurBuf s)) (of_nat sz) = (Ptr, A)" "Ptr \<noteq> NULL"
      "fill_inv n P (ps @ [piece]) piece (s\<lparr>MbStore := (MbStore s)(CurBuf s := A), MbMem := wr (MbMem s) Ptr piece\<rparr>, taken)"
      by blast
    have fit: "length pre + sz \<le> length Data" by (simp add: Cons.prems(6) sz_def)
    have data: "take sz (drop (length pre) Data) = piece" by (simp add: Cons.prems(6) piece_def)
    let ?s = "s\<lparr>MbStore := (MbStore s)(CurBuf s := A), MbMem := wr (MbMem s) Ptr piece\<rparr>"
    have calm: "TRdFails T = False" "TWrFails T = False" using Cons.prems(2) by (simp_all add: calm_def)
    have loop: "(case pipe_reads (TReads T) (?s, taken) of
        None \<Rightarrow> Inr None
      | Some (s, taken) \<Rightarrow>
          (case SdPipeGetWriteBuffer False False (MbStore s) (MbPipe s) of
             Inl f \<Rightarrow> Inl f
           | Inr Blocks \<Rightarrow> Inr None
           | Inr (Returns (b, st, Q)) \<Rightarrow>
               throughput_loop Ts Data (Rem - BufferMaxFill (MbPipe s)) (s\<lparr>CurBuf := b, MbStore := st, MbPipe := Q\<rparr>, taken))) =
      Inr (Some d)"
      using Cons.prems(9) Rem(2) k(3) p(1,2) off usize fit data
      unfolding c throughput_loop.simps(2) size Let_def calm prod.case by simp
    obtain s1 taken1 where r: "pipe_reads (TReads T) (?s, taken) = Some (s1, taken1)" using loop by (auto split: option.splits)
    have inv1: "fill_inv n P (ps @ [piece]) piece (s1, taken1)" by (rule fill_reads [OF p(3) r])
    obtain b st Q where g: "SdPipeGetWriteBuffer False False (MbStore s1) (MbPipe s1) = Inr (Returns (b, st, Q))"
      using loop r by (auto split: sum.splits call.splits)
    have inv2: "fill_inv n P (ps @ [piece]) [] (s1\<lparr>CurBuf := b, MbStore := st, MbPipe := Q\<rparr>, taken1)"
      by (rule fill_rotate [OF inv1 g])
    have next_loop: "throughput_loop Ts Data (Rem - ?mx) (s1\<lparr>CurBuf := b, MbStore := st, MbPipe := Q\<rparr>, taken1) = Inr (Some d)"
      using loop r g fill_keeps(1) [OF inv1] by simp
    have "if drop sz rest = [] then \<not> 0 < sint (Rem - ?mx) else Rem - ?mx = of_nat (length (drop sz rest))"
    proof (cases "length rest \<le> unat ?mx")
      case True
      then show ?thesis using sint_count_down [OF True Cons.prems(3)] Rem(1) by (simp add: sz_def)
    next
      case False
      then have "?mx = of_nat sz" "sz \<le> length rest" "drop sz rest \<noteq> []" by (auto simp: sz_def)
      then show ?thesis using Rem(1) by (simp add: of_nat_diff)
    qed
    then show ?thesis
      using Cons.IH [OF inv2 _ Cons.prems(3,4,5), of "pre @ piece" "drop sz rest" "Rem - ?mx"] Cons.prems(2,6,7) next_loop
      by (simp add: piece_def)
  qed
qed


text \<open>A file of one packet.\<close>

lemma system_throughput:
  "\<exists>c s'. MbPipeThroughputTest 1024 256 4096 (Some flow_packet) [calm_turn] False False system_state = Inr (Some (0, c)) \<and>
    pipe_reads 1 c = Some (s', [flow_packet]) \<and> sys_step Take (s', [flow_packet]) = None"
proof -
  have len: "length flow_packet = 16" by (simp add: flow_packet_def)
  have rd: "rd (wr (\<lambda>_. 0) 64 flow_packet) 64 16 = flow_packet" using rd_wr_same [of flow_packet "\<lambda>_. 0" 64] len by simp
  have "case MbPipeThroughputTest 1024 256 4096 (Some flow_packet) [calm_turn] False False system_state of
      Inr (Some (r, c)) \<Rightarrow> r = 0 \<and> (case pipe_reads 1 c of Some (s', tk) \<Rightarrow> tk = [flow_packet] \<and> sys_step Take (s', tk) = None
        | None \<Rightarrow> False)
    | _ \<Rightarrow> False"
    unfolding MbPipeThroughputTest_def system_setup
    by (simp add: len pipe_reads_def calm_turn_def system_state_def example_pipe_def system_arena_def
        system_store_def SdbArenaPush_def SdPipeGetWriteBuffer_def SdPipeGetReadBuffer_def SdPipeFlush_def eventfd_read_def
        eventfd_write_def NextBuf_def SdbArenaClear_def SdbArenaGetPos_def buf_bytes_def rd)
  then show ?thesis by (auto simp del: sys_step.simps split: sum.splits option.splits prod.splits) (metis option.exhaust prod.exhaust)
qed


end
