(* ===== verification/Thread_Ctl.thy ===== *)
theory Thread_Ctl
  imports Thread_Sync
begin

text \<open>
  The thread control of \<^verbatim>\<open>src/Common/Thread.c\<close>: flags under a mutex with one condition variable for
  two kinds of waiters, any number of threads calling its operations. A step of a thread is what it
  does between two points where the others can observe it.
\<close>

section \<open>The control and its operations\<close>

record thread_control =
  CMutex :: sdb_mutex
  CCond :: sdb_cond
  ShouldStop :: bool
  HasStopped :: bool
  WaitingForSignalStop :: bool
  WaitingForMarkStopped :: bool

text \<open>\<open>WaitingForMarkStopped\<close> is not initialised.\<close>

definition SdbTCtlInit :: "int \<Rightarrow> int \<Rightarrow> thread_control \<Rightarrow> int \<times> thread_control" where
  "SdbTCtlInit mut_err cond_err Control =
     (let Control = Control\<lparr>HasStopped := False, ShouldStop := False, WaitingForSignalStop := False\<rparr>;
          (MutRet, M) = SdbMutexInit mut_err (CMutex Control);
          Control = Control\<lparr>CMutex := M\<rparr>
      in if MutRet \<noteq> 0 then (MutRet, Control)
         else
           (let (CondRet, W) = SdbCondInit cond_err (CCond Control);
                Control = Control\<lparr>CCond := W\<rparr>
            in if CondRet \<noteq> 0 then (CondRet, Control) else (0, Control)))"

definition SdbTCtlDeinit :: "int \<Rightarrow> int \<Rightarrow> int" where
  "SdbTCtlDeinit cond_err mut_err =
     (let CondRet = SdbCondDeinit cond_err; MutRet = SdbMutexDeinit mut_err
      in if CondRet \<noteq> 0 then CondRet else MutRet)"

definition SdbTCtlShouldStopLocked :: "thread_control \<Rightarrow> bool" where
  "SdbTCtlShouldStopLocked Control = ShouldStop Control"

definition SdbTCtlHasStoppedLocked :: "thread_control \<Rightarrow> bool" where
  "SdbTCtlHasStoppedLocked Control = HasStopped Control"

datatype tctl_op = SignalStop | WaitForSignal | MarkStopped | WaitForStop | AskShouldStop

text \<open>
  Where a thread is: outside; before the mutex; holding it, at the first statement after the lock
  (\<open>TBody\<close>, also the head of a waiting loop), before the broadcast, before the unlock; in the
  condition variable's queue; woken and before the mutex again; after the return, with the answer
  of \<^verbatim>\<open>SdbTCtlShouldStop\<close>.
\<close>

datatype tctl_pc =
  TIdle | TLock tctl_op | TBody tctl_op | TNotify tctl_op | TUnlock tctl_op bool | TWait tctl_op | TWoken tctl_op
| TDone tctl_op bool

record tctl_sys =
  Ctl :: thread_control
  Pc :: "tid \<Rightarrow> tctl_pc"

definition goto :: "tid \<Rightarrow> tctl_pc \<Rightarrow> tctl_sys \<Rightarrow> tctl_sys" where
  "goto t p s = s\<lparr>Pc := (Pc s)(t := p)\<rparr>"

text \<open>The statements of an operation, up to the next point.\<close>

fun tctl_body :: "tid \<Rightarrow> tctl_op \<Rightarrow> tctl_sys \<Rightarrow> tctl_sys" where
  "tctl_body t SignalStop s =
     goto t (if WaitingForSignalStop (Ctl s) then TNotify SignalStop else TUnlock SignalStop True)
       (s\<lparr>Ctl := (Ctl s)\<lparr>ShouldStop := True\<rparr>\<rparr>)"
| "tctl_body t MarkStopped s =
     goto t (if WaitingForMarkStopped (Ctl s) then TNotify MarkStopped else TUnlock MarkStopped True)
       (s\<lparr>Ctl := (Ctl s)\<lparr>HasStopped := True\<rparr>\<rparr>)"
| "tctl_body t WaitForSignal s =
     (if SdbTCtlShouldStopLocked (Ctl s) then goto t (TUnlock WaitForSignal True) s
      else
        (let C = (Ctl s)\<lparr>WaitingForSignalStop := True\<rparr>;
             (r, W, M) = SdbCondWait None 0 \<lparr>tv_sec = 0, tv_nsec = 0\<rparr> t SDB_TIMEOUT_MAX (CCond C) (CMutex C)
         in goto t (TWait WaitForSignal) (s\<lparr>Ctl := C\<lparr>CCond := W, CMutex := M\<rparr>\<rparr>)))"
| "tctl_body t WaitForStop s =
     (if SdbTCtlHasStoppedLocked (Ctl s) then goto t (TUnlock WaitForStop True) s
      else
        (let C = (Ctl s)\<lparr>WaitingForMarkStopped := True\<rparr>;
             (r, W, M) = SdbCondWait None 0 \<lparr>tv_sec = 0, tv_nsec = 0\<rparr> t SDB_TIMEOUT_MAX (CCond C) (CMutex C)
         in goto t (TWait WaitForStop) (s\<lparr>Ctl := C\<lparr>CCond := W, CMutex := M\<rparr>\<rparr>)))"
| "tctl_body t AskShouldStop s = goto t (TUnlock AskShouldStop (ShouldStop (Ctl s))) s"

fun wake :: "tctl_pc \<Rightarrow> tctl_pc" where
  "wake (TWait op) = TWoken op"
| "wake p = p"

text \<open>What can happen: a thread calls an operation, goes on, or wakes up without a reason.\<close>

datatype tctl_act = Call tid tctl_op | Run tid | Spurious tid

fun tctl_next :: "tctl_act \<Rightarrow> tctl_sys \<Rightarrow> tctl_sys option" where
  "tctl_next (Call t op) s = (if Pc s t = TIdle then Some (goto t (TLock op) s) else None)"
| "tctl_next (Spurious t) s =
     (case Pc s t of
        TWait op \<Rightarrow> Some (goto t (TWoken op) (s\<lparr>Ctl := (Ctl s)\<lparr>CCond := removeAll t (CCond (Ctl s))\<rparr>\<rparr>))
      | _ \<Rightarrow> None)"
| "tctl_next (Run t) s =
     (case Pc s t of
        TIdle \<Rightarrow> None
      | TWait op \<Rightarrow> None
      | TBody op \<Rightarrow> Some (tctl_body t op s)
      | TNotify op \<Rightarrow>
          (let (r, woken, W) = SdbCondBroadcast (CCond (Ctl s))
           in Some (goto t (TUnlock op True)
                (s\<lparr>Ctl := (Ctl s)\<lparr>CCond := W\<rparr>, Pc := (\<lambda>u. if u \<in> set woken then wake (Pc s u) else Pc s u)\<rparr>)))
      | TUnlock op b \<Rightarrow>
          Some (goto t (TDone op b) (s\<lparr>Ctl := (Ctl s)\<lparr>CMutex := snd (SdbMutexUnlock (CMutex (Ctl s)))\<rparr>\<rparr>))
      | TDone op b \<Rightarrow> Some (goto t TIdle s)
      | TLock op \<Rightarrow>
          (case SdbMutexLock None 0 \<lparr>tv_sec = 0, tv_nsec = 0\<rparr> False t SDB_TIMEOUT_MAX (CMutex (Ctl s)) of
             Blocks \<Rightarrow> None
           | Returns (r, M) \<Rightarrow> Some (goto t (TBody op) (s\<lparr>Ctl := (Ctl s)\<lparr>CMutex := M\<rparr>\<rparr>)))
      | TWoken op \<Rightarrow>
          (case SdbMutexLock None 0 \<lparr>tv_sec = 0, tv_nsec = 0\<rparr> False t SDB_TIMEOUT_MAX (CMutex (Ctl s)) of
             Blocks \<Rightarrow> None
           | Returns (r, M) \<Rightarrow> Some (goto t (TBody op) (s\<lparr>Ctl := (Ctl s)\<lparr>CMutex := M\<rparr>\<rparr>))))"

fun tctl_run :: "tctl_act list \<Rightarrow> tctl_sys \<Rightarrow> tctl_sys option" where
  "tctl_run [] s = Some s"
| "tctl_run (a # as) s = (case tctl_next a s of None \<Rightarrow> None | Some s \<Rightarrow> tctl_run as s)"

text \<open>A control after \<open>SdbTCtlInit\<close>, whatever the uninitialised flag holds, and no thread inside.\<close>

definition tctl_start :: "bool \<Rightarrow> tctl_sys" where
  "tctl_start junk = \<lparr>Ctl = snd (SdbTCtlInit 0 0 \<lparr>CMutex = None, CCond = [], ShouldStop = False, HasStopped = False,
     WaitingForSignalStop = False, WaitingForMarkStopped = junk\<rparr>), Pc = (\<lambda>_. TIdle)\<rparr>"

inductive tctl_reach :: "tctl_sys \<Rightarrow> bool" where
  start: "tctl_reach (tctl_start junk)"
| step: "\<lbrakk>tctl_reach s; tctl_next a s = Some t\<rbrakk> \<Longrightarrow> tctl_reach t"

lemma tctl_reach_run: "tctl_reach s \<Longrightarrow> tctl_run as s = Some t \<Longrightarrow> tctl_reach t"
  by (induction as arbitrary: s) (auto split: option.splits intro: tctl_reach.step)

section \<open>Invariants\<close>

fun holds :: "tctl_pc \<Rightarrow> bool" where
  "holds (TBody _) = True"
| "holds (TNotify _) = True"
| "holds (TUnlock _ _) = True"
| "holds _ = False"

text \<open>
  The mutex is held by the thread that is between lock and unlock; the queue holds the waiting
  threads; while someone waits the flag says so, and either the event has not happened or its
  broadcast is still to come; the waiting calls end only after their event.
\<close>

definition lock_inv :: "tctl_sys \<Rightarrow> bool" where
  "lock_inv s \<longleftrightarrow> (\<forall>t. holds (Pc s t) \<longleftrightarrow> CMutex (Ctl s) = Some t)"

definition queue_inv :: "tctl_sys \<Rightarrow> bool" where
  "queue_inv s \<longleftrightarrow> (\<forall>t. t \<in> set (CCond (Ctl s)) \<longleftrightarrow> (\<exists>op. Pc s t = TWait op)) \<and>
     (\<forall>t op. Pc s t = TWait op \<longrightarrow> op = WaitForSignal \<or> op = WaitForStop)"

definition notifying :: "tctl_op \<Rightarrow> tctl_sys \<Rightarrow> bool" where
  "notifying op s = (case CMutex (Ctl s) of None \<Rightarrow> False | Some u \<Rightarrow> Pc s u = TNotify op)"

definition wake_inv :: "tctl_sys \<Rightarrow> bool" where
  "wake_inv s \<longleftrightarrow>
     (\<forall>t. Pc s t = TWait WaitForSignal \<longrightarrow>
        WaitingForSignalStop (Ctl s) \<and> (ShouldStop (Ctl s) \<longrightarrow> notifying SignalStop s)) \<and>
     (\<forall>t. Pc s t = TWait WaitForStop \<longrightarrow>
        WaitingForMarkStopped (Ctl s) \<and> (HasStopped (Ctl s) \<longrightarrow> notifying MarkStopped s))"

definition done_inv :: "tctl_sys \<Rightarrow> bool" where
  "done_inv s \<longleftrightarrow>
     (\<forall>t b. Pc s t = TUnlock WaitForSignal b \<or> Pc s t = TDone WaitForSignal b \<longrightarrow> ShouldStop (Ctl s)) \<and>
     (\<forall>t b. Pc s t = TUnlock WaitForStop b \<or> Pc s t = TDone WaitForStop b \<longrightarrow> HasStopped (Ctl s)) \<and>
     (\<forall>t op. Pc s t = TNotify op \<longrightarrow> op = SignalStop \<or> op = MarkStopped)"

definition tctl_inv :: "tctl_sys \<Rightarrow> bool" where
  "tctl_inv s \<longleftrightarrow> lock_inv s \<and> queue_inv s \<and> wake_inv s \<and> done_inv s"

lemmas tctl_invs = lock_inv_def queue_inv_def wake_inv_def done_inv_def

lemmas tctl_defs = goto_def SdbTCtlShouldStopLocked_def SdbTCtlHasStoppedLocked_def SdbCondWait_def
  SdbCondBroadcast_def SdbMutexLock_def SdbMutexUnlock_def SDB_TIMEOUT_NONE_def SDB_TIMEOUT_MAX_def SDB_TIME_MAX_def

lemma tctl_start_inv: "tctl_inv (tctl_start junk)"
  by (simp add: tctl_inv_def tctl_invs tctl_start_def SdbTCtlInit_def SdbMutexInit_def SdbCondInit_def)

text \<open>The steps one by one: what changes, and who is where.\<close>

lemma wake_simps [simp]:
  "wake p = TWait op \<longleftrightarrow> False" "holds (wake p) = holds p"
  "wake p = TNotify op \<longleftrightarrow> p = TNotify op" "wake p = TUnlock op b \<longleftrightarrow> p = TUnlock op b"
  "wake p = TDone op b \<longleftrightarrow> p = TDone op b"
  by (cases p; simp)+

lemma body_lock_inv:
  assumes "lock_inv s" "Pc s t = TBody op"
  shows "lock_inv (tctl_body t op s)"
proof -
  have m: "CMutex (Ctl s) = Some t" using assms by (metis lock_inv_def holds.simps(1))
  then have h: "holds (Pc s u) \<longleftrightarrow> u = t" for u using assms(1) by (auto simp: lock_inv_def)
  show ?thesis
    using m h by (cases op) (simp_all add: lock_inv_def tctl_defs)
qed

lemma body_queue_inv:
  assumes "queue_inv s" "Pc s t = TBody op"
  shows "queue_inv (tctl_body t op s)"
  using assms by (cases op) (auto simp: queue_inv_def tctl_defs)

lemma body_wake_inv:
  assumes "wake_inv s" "CMutex (Ctl s) = Some t" "Pc s t = TBody op"
  shows "wake_inv (tctl_body t op s)"
proof -
  have n: "\<not> notifying o' s" for o' using assms(2,3) by (simp add: notifying_def)
  have a: "Pc s u = TWait WaitForSignal \<Longrightarrow> WaitingForSignalStop (Ctl s) \<and> \<not> ShouldStop (Ctl s)"
    and b: "Pc s u = TWait WaitForStop \<Longrightarrow> WaitingForMarkStopped (Ctl s) \<and> \<not> HasStopped (Ctl s)" for u
    using assms(1) n by (auto simp: wake_inv_def)
  show ?thesis
    using a b assms(2) by (cases op) (auto simp: wake_inv_def notifying_def tctl_defs)
qed

lemma body_done_inv:
  assumes "done_inv s" "Pc s t = TBody op"
  shows "done_inv (tctl_body t op s)"
  using assms by (cases op) (auto simp: done_inv_def tctl_defs)

text \<open>Every other step only moves the thread and the mutex.\<close>

lemma goto_lock_inv:
  assumes "lock_inv s" "\<not> holds (Pc s t)" "\<not> holds p"
  shows "lock_inv (goto t p s)"
  using assms by (auto simp: lock_inv_def goto_def)

lemma tctl_next_lock_inv:
  assumes "lock_inv s" "tctl_next a s = Some s'"
  shows "lock_inv s'"
proof (cases a)
  case (Call t op)
  then show ?thesis using assms by (auto intro!: goto_lock_inv split: if_splits)
next
  case (Spurious t)
  have "lock_inv (s\<lparr>Ctl := (Ctl s)\<lparr>CCond := W\<rparr>\<rparr>)" for W using assms(1) by (simp add: lock_inv_def)
  then show ?thesis using assms(2) Spurious by (auto intro!: goto_lock_inv split: tctl_pc.splits)
next
  case (Run t)
  have l: "holds (Pc s u) \<longleftrightarrow> CMutex (Ctl s) = Some u" for u using assms(1) by (simp add: lock_inv_def)
  show ?thesis
  proof (cases "Pc s t")
    case (TBody op)
    then show ?thesis using assms body_lock_inv Run by auto
  next
    case (TNotify op)
    then have "CMutex (Ctl s) = Some t" using l [of t] by simp
    then show ?thesis using assms(2) Run TNotify by (auto simp: lock_inv_def tctl_defs l split: if_splits)
  next
    case (TUnlock op b)
    then have "CMutex (Ctl s) = Some t" using l [of t] by simp
    then show ?thesis using assms(2) Run TUnlock by (auto simp: lock_inv_def tctl_defs l split: if_splits)
  next
    case (TDone op b)
    then show ?thesis using assms Run by (auto intro!: goto_lock_inv)
  qed (use assms(2) Run in \<open>auto simp: lock_inv_def tctl_defs l split: if_splits\<close>)
qed

lemma queue_invI:
  assumes "\<And>t. t \<in> set (CCond (Ctl s)) \<longleftrightarrow> (\<exists>op. Pc s t = TWait op)"
    "\<And>t op. Pc s t = TWait op \<Longrightarrow> op = WaitForSignal \<or> op = WaitForStop"
  shows "queue_inv s"
  unfolding queue_inv_def using assms by blast

lemma tctl_next_queue_inv:
  assumes "queue_inv s" "tctl_next a s = Some s'"
  shows "queue_inv s'"
proof -
  have q: "u \<in> set (CCond (Ctl s)) \<longleftrightarrow> (\<exists>op. Pc s u = TWait op)" for u using assms(1) by (simp add: queue_inv_def)
  have o: "Pc s u = TWait op \<Longrightarrow> op = WaitForSignal \<or> op = WaitForStop" for u op
    using assms(1) unfolding queue_inv_def by blast
  have "queue_inv (goto t p (s\<lparr>Ctl := (Ctl s)\<lparr>CCond := removeAll t (CCond (Ctl s)), CMutex := M\<rparr>\<rparr>))"
    if "\<forall>op. p \<noteq> TWait op" for t p M
    using q that by (intro queue_invI) (auto simp: goto_def dest: o split: if_splits)
  note move = this
  have stay: "removeAll t (CCond (Ctl s)) = CCond (Ctl s)" if "\<forall>op. Pc s t \<noteq> TWait op" for t
    using q that by (simp add: removeAll_id)
  show ?thesis
  proof (cases a)
    case (Call t op)
    then show ?thesis using assms(2) move [of "TLock op" t "CMutex (Ctl s)"] stay [of t] by (auto split: if_splits)
  next
    case (Spurious t)
    then obtain op where "s' = goto t (TWoken op) (s\<lparr>Ctl := (Ctl s)\<lparr>CCond := removeAll t (CCond (Ctl s))\<rparr>\<rparr>)"
      using assms(2) by (auto split: tctl_pc.splits)
    then show ?thesis using move [of "TWoken op" t "CMutex (Ctl s)"] by simp
  next
    case (Run t)
    show ?thesis
    proof (cases "Pc s t")
      case (TBody op)
      then show ?thesis using assms body_queue_inv Run by auto
    next
      case (TNotify op)
      then show ?thesis using assms(2) Run q
        by (intro queue_invI) (auto simp: tctl_defs dest: o split: if_splits)
    next
      case (TDone op b)
      then show ?thesis using assms(2) Run move [of TIdle t "CMutex (Ctl s)"] stay [of t] by simp
    next
      case (TUnlock op b)
      then show ?thesis using assms(2) Run move [of "TDone op b" t "None"] stay [of t] by (simp add: SdbMutexUnlock_def)
    next
      case (TLock op)
      then show ?thesis using assms(2) Run move [of "TBody op" t "Some t"] stay [of t]
        by (auto simp: SdbMutexLock_def SDB_TIMEOUT_NONE_def SDB_TIMEOUT_MAX_def SDB_TIME_MAX_def split: if_splits)
    next
      case (TWoken op)
      then show ?thesis using assms(2) Run move [of "TBody op" t "Some t"] stay [of t]
        by (auto simp: SdbMutexLock_def SDB_TIMEOUT_NONE_def SDB_TIMEOUT_MAX_def SDB_TIME_MAX_def split: if_splits)
    qed (use assms(2) Run in auto)
  qed
qed

lemma tctl_next_done_inv:
  assumes "done_inv s" "tctl_next a s = Some s'"
  shows "done_inv s'"
proof -
  have move: "done_inv (goto t p (s\<lparr>Ctl := (Ctl s)\<lparr>CCond := W, CMutex := M\<rparr>\<rparr>))"
    if "\<forall>op b. p \<noteq> TUnlock op b \<and> p \<noteq> TNotify op" "\<forall>op b. p = TDone op b \<longrightarrow> Pc s t = TUnlock op b" for t p W M
    using assms(1) that by (auto simp: done_inv_def goto_def)
  have ev: "Pc s u = TUnlock WaitForSignal b \<Longrightarrow> ShouldStop (Ctl s)" "Pc s u = TDone WaitForSignal b \<Longrightarrow> ShouldStop (Ctl s)"
    "Pc s u = TUnlock WaitForStop b \<Longrightarrow> HasStopped (Ctl s)" "Pc s u = TDone WaitForStop b \<Longrightarrow> HasStopped (Ctl s)"
    "Pc s u = TNotify op \<Longrightarrow> op = SignalStop \<or> op = MarkStopped" for u b op
    using assms(1) unfolding done_inv_def by blast+
  show ?thesis
  proof (cases a)
    case (Call t op)
    then show ?thesis using assms(2) move [of "TLock op" t "CMutex (Ctl s)" "CCond (Ctl s)"] by (auto split: if_splits)
  next
    case (Spurious t)
    then obtain op where "s' = goto t (TWoken op) (s\<lparr>Ctl := (Ctl s)\<lparr>CCond := removeAll t (CCond (Ctl s))\<rparr>\<rparr>)"
      using assms(2) by (auto split: tctl_pc.splits)
    then show ?thesis using move [of "TWoken op" t "CMutex (Ctl s)" "removeAll t (CCond (Ctl s))"] by simp
  next
    case (Run t)
    show ?thesis
    proof (cases "Pc s t")
      case (TBody op)
      then show ?thesis using assms body_done_inv Run by auto
    next
      case (TNotify op)
      then have "op = SignalStop \<or> op = MarkStopped" by (rule ev(5))
      then show ?thesis
        using assms(2) Run TNotify unfolding done_inv_def
        by (auto simp: tctl_defs dest: ev split: if_splits)
    next
      case (TDone op b)
      then show ?thesis using assms(2) Run move [of TIdle t "CMutex (Ctl s)" "CCond (Ctl s)"] by simp
    next
      case (TUnlock op b)
      then show ?thesis using assms(2) Run move [of "TDone op b" t "None" "CCond (Ctl s)"] by (simp add: SdbMutexUnlock_def)
    next
      case (TLock op)
      then show ?thesis using assms(2) Run move [of "TBody op" t "Some t" "CCond (Ctl s)"]
        by (auto simp: SdbMutexLock_def SDB_TIMEOUT_NONE_def SDB_TIMEOUT_MAX_def SDB_TIME_MAX_def split: if_splits)
    next
      case (TWoken op)
      then show ?thesis using assms(2) Run move [of "TBody op" t "Some t" "CCond (Ctl s)"]
        by (auto simp: SdbMutexLock_def SDB_TIMEOUT_NONE_def SDB_TIMEOUT_MAX_def SDB_TIME_MAX_def split: if_splits)
    qed (use assms(2) Run in auto)
  qed
qed

text \<open>A step outside the critical section leaves a notifier where it is.\<close>

lemma tctl_next_wake_inv:
  assumes "lock_inv s" "queue_inv s" "wake_inv s" "tctl_next a s = Some s'"
  shows "wake_inv s'"
proof -
  have l: "holds (Pc s u) \<longleftrightarrow> CMutex (Ctl s) = Some u" for u using assms(1) by (simp add: lock_inv_def)
  have q: "u \<in> set (CCond (Ctl s)) \<longleftrightarrow> (\<exists>op. Pc s u = TWait op)" for u using assms(2) by (simp add: queue_inv_def)
  have move: "wake_inv (goto t p (s\<lparr>Ctl := (Ctl s)\<lparr>CCond := W\<rparr>\<rparr>))"
    if "\<not> holds (Pc s t)" "\<forall>op. p \<noteq> TWait op" for t p W
    using assms(3) that l [of t] by (auto simp: wake_inv_def notifying_def goto_def split: option.splits)
  show ?thesis
  proof (cases a)
    case (Call t op)
    then show ?thesis using assms(4) move [of t "TLock op" "CCond (Ctl s)"] by (auto split: if_splits)
  next
    case (Spurious t)
    then show ?thesis using assms(4) by (auto intro!: move split: tctl_pc.splits)
  next
    case (Run t)
    show ?thesis
    proof (cases "Pc s t")
      case (TBody op)
      then have "CMutex (Ctl s) = Some t" using l [of t] by simp
      then show ?thesis using assms(3,4) body_wake_inv TBody Run by auto
    next
      case (TNotify op)
      then show ?thesis using assms(4) Run q by (auto simp: wake_inv_def tctl_defs split: if_splits)
    next
      case (TUnlock op b)
      then have "CMutex (Ctl s) = Some t" "\<not> notifying o' s" for o' using l [of t] by (simp_all add: notifying_def)
      then show ?thesis using assms(3,4) Run TUnlock by (auto simp: wake_inv_def tctl_defs split: if_splits)
    next
      case (TDone op b)
      then show ?thesis using assms(4) move [of t TIdle "CCond (Ctl s)"] Run by auto
    next
      case (TLock op)
      then have "CMutex (Ctl s) = None" using assms(4) Run by (auto simp: tctl_defs split: if_splits)
      then have "\<not> notifying o' s" for o' by (simp add: notifying_def)
      then show ?thesis using assms(3,4) Run TLock by (auto simp: wake_inv_def tctl_defs split: if_splits)
    next
      case (TWoken op)
      then have "CMutex (Ctl s) = None" using assms(4) Run by (auto simp: tctl_defs split: if_splits)
      then have "\<not> notifying o' s" for o' by (simp add: notifying_def)
      then show ?thesis using assms(3,4) Run TWoken by (auto simp: wake_inv_def tctl_defs split: if_splits)
    qed (use assms(4) Run in auto)
  qed
qed

lemma tctl_reach_inv: "tctl_reach s \<Longrightarrow> tctl_inv s"
proof (induction rule: tctl_reach.induct)
  case (start junk)
  show ?case by (rule tctl_start_inv)
next
  case (step s a t)
  then show ?case
    unfolding tctl_inv_def
    by (blast intro: tctl_next_lock_inv tctl_next_queue_inv tctl_next_wake_inv tctl_next_done_inv)
qed

section \<open>What the control promises\<close>

text \<open>
  Mutual exclusion, and waits that end for a reason: in every reachable state at most one thread
  is between lock and unlock, and a thread that has returned from \<^verbatim>\<open>SdbTCtlWaitForSignal\<close> or
  \<^verbatim>\<open>SdbTCtlWaitForStop\<close> finds its event to have happened, whatever wake-ups there were.
\<close>

theorem tctl_waits_sound:
  assumes "tctl_reach s"
  shows "(\<forall>t u. holds (Pc s t) \<longrightarrow> holds (Pc s u) \<longrightarrow> t = u) \<and>
    (Pc s t = TDone WaitForSignal b \<longrightarrow> ShouldStop (Ctl s)) \<and>
    (Pc s t = TDone WaitForStop b \<longrightarrow> HasStopped (Ctl s))"
proof -
  have "lock_inv s" "done_inv s" using tctl_reach_inv [OF assms] by (simp_all add: tctl_inv_def)
  then show ?thesis by (auto simp: lock_inv_def done_inv_def)
qed

text \<open>The calls a waiting thread waits for, and the flag that ends the wait.\<close>

fun event :: "tctl_op \<Rightarrow> tctl_sys \<Rightarrow> bool" where
  "event WaitForSignal s = ShouldStop (Ctl s)"
| "event WaitForStop s = HasStopped (Ctl s)"
| "event op s = True"

text \<open>
  C14. No wake-up is lost: once the event has happened and no thread holds the mutex, nobody is left in the
  condition variable's queue for it, although both kinds of waiters share the queue and the
  broadcasts are made only when a flag asks for them.
\<close>

theorem tctl_no_lost_wakeup:
  assumes "tctl_reach s" "CMutex (Ctl s) = None" "event op s"
  shows "Pc s t \<noteq> TWait op"
proof
  assume w: "Pc s t = TWait op"
  have i: "queue_inv s" "wake_inv s" using tctl_reach_inv [OF assms(1)] by (simp_all add: tctl_inv_def)
  have "op = WaitForSignal \<or> op = WaitForStop" using i(1) w by (simp add: queue_inv_def)
  moreover have "\<not> notifying o' s" for o' using assms(2) by (simp add: notifying_def)
  ultimately show False using i(2) assms(3) w by (auto simp: wake_inv_def)
qed

text \<open>Thread 0 waits, thread 1 signals.\<close>

definition stop_acts :: "tctl_act list" where
  "stop_acts = [Call 0 WaitForSignal, Run 0, Run 0, Call 1 SignalStop, Run 1, Run 1, Run 1, Run 1]"

lemma stop_run: "\<exists>s. tctl_run stop_acts (tctl_start True) = Some s \<and> CMutex (Ctl s) = None \<and> ShouldStop (Ctl s) \<and>
    tctl_run [Run 0, Run 0, Run 0] s \<noteq> None \<and> Pc (the (tctl_run [Run 0, Run 0, Run 0] s)) 0 = TDone WaitForSignal True"
  by (simp add: stop_acts_def tctl_start_def SdbTCtlInit_def SdbMutexInit_def SdbCondInit_def tctl_defs)

theorem tctl_no_lost_wakeup_witness:
  "\<exists>s. tctl_run stop_acts (tctl_start True) = Some s \<and> Pc s 0 \<noteq> TWait WaitForSignal"
proof -
  obtain s where s: "tctl_run stop_acts (tctl_start True) = Some s" "CMutex (Ctl s) = None" "ShouldStop (Ctl s)"
    using stop_run by blast
  have "Pc s 0 \<noteq> TWait WaitForSignal"
    using s(2,3) by (intro tctl_no_lost_wakeup [OF tctl_reach_run [OF tctl_reach.start s(1)]]) simp_all
  then show ?thesis using s(1) by blast
qed

theorem tctl_waits_sound_witness:
  "\<exists>s. tctl_run (stop_acts @ [Run 0, Run 0, Run 0]) (tctl_start True) = Some s \<and>
    Pc s 0 = TDone WaitForSignal True \<and> ShouldStop (Ctl s)"
proof -
  have "\<exists>s. tctl_run (stop_acts @ [Run 0, Run 0, Run 0]) (tctl_start True) = Some s \<and> Pc s 0 = TDone WaitForSignal True"
    by (simp add: stop_acts_def tctl_start_def SdbTCtlInit_def SdbMutexInit_def SdbCondInit_def tctl_defs)
  then obtain s where s: "tctl_run (stop_acts @ [Run 0, Run 0, Run 0]) (tctl_start True) = Some s" "Pc s 0 = TDone WaitForSignal True"
    by blast
  then show ?thesis using tctl_waits_sound [OF tctl_reach_run [OF tctl_reach.start s(1)], of 0 True] by blast
qed

end
