(* ===== verification/Cjson_Value.thy ===== *)
theory Cjson_Value
  imports Sdb_Time Sdb_Misc
begin

text \<open>
  The items of \<^verbatim>\<open>src/Libs/cJSON/cJSON.c\<close> and how the program reads them. A list of items linked by \<^verbatim>\<open>next\<close> is a
  list, a C string is its characters before the NUL, a pointer to an item is an option. Doubles
  are kept as sign, mantissa and exponent, with the rounding of \<^verbatim>\<open>strtod\<close>.
\<close>

section \<open>Doubles\<close>

datatype double = NaN | Infinity bool | Finite bool nat int

text \<open>
  The double nearest to \<open>n / d\<close>: the exponent is chosen so that the mantissa has 53 bits, or is the smallest
  one.
\<close>

definition scaled :: "nat \<Rightarrow> nat \<Rightarrow> int \<Rightarrow> nat \<times> nat" where
  "scaled n d e = (n * 2 ^ nat (- e), d * 2 ^ nat e)"

definition double_of_ratio :: "bool \<Rightarrow> nat \<Rightarrow> nat \<Rightarrow> double" where
  "double_of_ratio neg n d =
     (if n = 0 then Finite neg 0 0
      else
        (let e = int (bitlen n) - int (bitlen d) - 53;
             (p, q) = scaled n d e;
             e = (if 2 ^ 53 \<le> p div q then e + 1 else e);
             e = max (- 1074) e;
             (p, q) = scaled n d e;
             m = rne p q;
             (m, e) = (if m = 2 ^ 53 then (2 ^ 52, e + 1) else (m, e))
         in if e > 971 then Infinity neg else Finite neg m e))"

text \<open>Truncation, as in a cast to an integer type; the other values have none.\<close>

definition d_trunc :: "double \<Rightarrow> int option" where
  "d_trunc x = (case x of
     Finite neg m e \<Rightarrow> (let k = (if 0 \<le> e then m * 2 ^ nat e else m div 2 ^ nat (- e)) in Some (if neg then - int k else int k))
   | _ \<Rightarrow> None)"

text \<open>A cast to \<open>u64\<close> is undefined outside the range.\<close>

definition d_to_u64 :: "double \<Rightarrow> u64 option" where
  "d_to_u64 x = (case d_trunc x of None \<Rightarrow> None | Some k \<Rightarrow> if 0 \<le> k \<and> k < 2 ^ 64 then Some (of_int k) else None)"

text \<open>
  \<^verbatim>\<open>strtod\<close> on text without white space, letters other than e, and with the point as decimal
  point: the value and how many characters it took, 0 when there is no number.
\<close>

definition strip_sign :: "string \<Rightarrow> bool \<times> string" where
  "strip_sign s = (case s of [] \<Rightarrow> (False, []) | c # r \<Rightarrow>
     if c = CHR ''-'' then (True, r) else if c = CHR ''+'' then (False, r) else (False, s))"

definition strtod_exponent :: "string \<Rightarrow> int \<times> string" where
  "strtod_exponent s = (case s of [] \<Rightarrow> (0, s) | c # r \<Rightarrow>
     if c = CHR ''e'' \<or> c = CHR ''E''
     then (let (neg, t) = strip_sign r; ds = takeWhile isdigit t
           in if ds = [] then (0, s)
              else ((if neg then - int (digits_value ds) else int (digits_value ds)), dropWhile isdigit t))
     else (0, s))"

definition strtod :: "string \<Rightarrow> double \<times> nat" where
  "strtod s =
     (let (neg, t) = strip_sign s;
          ds = takeWhile isdigit t;
          t = dropWhile isdigit t;
          (fs, t) = (case t of [] \<Rightarrow> ([], t) | c # r \<Rightarrow>
                       if c = CHR ''.'' \<and> (ds \<noteq> [] \<or> takeWhile isdigit r \<noteq> [])
                       then (takeWhile isdigit r, dropWhile isdigit r) else ([], t))
      in if ds = [] \<and> fs = [] then (Finite False 0 0, 0)
         else
           (let (e, t) = strtod_exponent t;
                k = e - int (length fs);
                n = digits_value (ds @ fs)
            in (double_of_ratio neg (n * 10 ^ nat k) (10 ^ nat (- k)), length s - length t)))"

section \<open>Items\<close>

definition cJSON_Invalid :: i32 where "cJSON_Invalid = 0"
definition cJSON_False :: i32 where "cJSON_False = push_bit 0 1"
definition cJSON_True :: i32 where "cJSON_True = push_bit 1 1"
definition cJSON_NULL :: i32 where "cJSON_NULL = push_bit 2 1"
definition cJSON_Number :: i32 where "cJSON_Number = push_bit 3 1"
definition cJSON_String :: i32 where "cJSON_String = push_bit 4 1"
definition cJSON_Array :: i32 where "cJSON_Array = push_bit 5 1"
definition cJSON_Object :: i32 where "cJSON_Object = push_bit 6 1"
definition cJSON_Raw :: i32 where "cJSON_Raw = push_bit 7 1"

lemmas cJSON_types = cJSON_Invalid_def cJSON_False_def cJSON_True_def cJSON_NULL_def cJSON_Number_def cJSON_String_def
  cJSON_Array_def cJSON_Object_def cJSON_Raw_def

datatype cjson = Cjson (type_of: i32) (children: "cjson list") (valuestring: "string option") (valueint: int)
  (valuedouble: double) (key: "string option")

text \<open>A new item is zeroed.\<close>

definition cJSON_New_Item :: cjson where
  "cJSON_New_Item = Cjson 0 [] None 0 (Finite False 0 0) None"

fun set_key :: "string option \<Rightarrow> cjson \<Rightarrow> cjson" where
  "set_key k (Cjson ty cs vs vi vd _) = Cjson ty cs vs vi vd k"

definition has_type :: "i32 \<Rightarrow> cjson option \<Rightarrow> bool" where
  "has_type ty item = (case item of None \<Rightarrow> False | Some i \<Rightarrow> type_of i AND 0xFF = ty)"

definition cJSON_IsInvalid :: "cjson option \<Rightarrow> bool" where "cJSON_IsInvalid = has_type cJSON_Invalid"
definition cJSON_IsFalse :: "cjson option \<Rightarrow> bool" where "cJSON_IsFalse = has_type cJSON_False"
definition cJSON_IsTrue :: "cjson option \<Rightarrow> bool" where "cJSON_IsTrue = has_type cJSON_True"
definition cJSON_IsNull :: "cjson option \<Rightarrow> bool" where "cJSON_IsNull = has_type cJSON_NULL"
definition cJSON_IsNumber :: "cjson option \<Rightarrow> bool" where "cJSON_IsNumber = has_type cJSON_Number"
definition cJSON_IsString :: "cjson option \<Rightarrow> bool" where "cJSON_IsString = has_type cJSON_String"
definition cJSON_IsArray :: "cjson option \<Rightarrow> bool" where "cJSON_IsArray = has_type cJSON_Array"
definition cJSON_IsObject :: "cjson option \<Rightarrow> bool" where "cJSON_IsObject = has_type cJSON_Object"
definition cJSON_IsRaw :: "cjson option \<Rightarrow> bool" where "cJSON_IsRaw = has_type cJSON_Raw"

definition cJSON_IsBool :: "cjson option \<Rightarrow> bool" where
  "cJSON_IsBool item = (case item of None \<Rightarrow> False | Some i \<Rightarrow> type_of i AND (cJSON_True OR cJSON_False) \<noteq> 0)"

lemmas cJSON_Is = has_type_def cJSON_IsInvalid_def cJSON_IsFalse_def cJSON_IsTrue_def cJSON_IsNull_def cJSON_IsNumber_def
  cJSON_IsString_def cJSON_IsArray_def cJSON_IsObject_def cJSON_IsRaw_def cJSON_IsBool_def cJSON_types

definition cJSON_GetStringValue :: "cjson option \<Rightarrow> string option" where
  "cJSON_GetStringValue item = (case item of None \<Rightarrow> None | Some i \<Rightarrow> if cJSON_IsString item then valuestring i else None)"

definition cJSON_GetNumberValue :: "cjson option \<Rightarrow> double" where
  "cJSON_GetNumberValue item = (case item of None \<Rightarrow> NaN | Some i \<Rightarrow> if cJSON_IsNumber item then valuedouble i else NaN)"

text \<open>The children of an item, as \<^verbatim>\<open>cJSON_ArrayForEach\<close> visits them, and how many there are as an \<^verbatim>\<open>int\<close>.\<close>

definition cJSON_ArrayForEach :: "cjson option \<Rightarrow> cjson list" where
  "cJSON_ArrayForEach array = (case array of None \<Rightarrow> [] | Some i \<Rightarrow> children i)"

definition cJSON_GetArraySize :: "cjson option \<Rightarrow> i32" where
  "cJSON_GetArraySize array = (case array of None \<Rightarrow> 0 | Some i \<Rightarrow> of_nat (length (children i)))"

fun array_item_loop :: "cjson list \<Rightarrow> nat \<Rightarrow> cjson option" where
  "array_item_loop [] index = None"
| "array_item_loop (c # cs) index = (if index = 0 then Some c else array_item_loop cs (index - 1))"

definition cJSON_GetArrayItem :: "cjson option \<Rightarrow> i32 \<Rightarrow> cjson option" where
  "cJSON_GetArrayItem array index =
     (if sint index < 0 then None
      else case array of None \<Rightarrow> None | Some i \<Rightarrow> array_item_loop (children i) (nat (sint index)))"

section \<open>Looking up members\<close>

definition tolower :: "char \<Rightarrow> int" where
  "tolower c = (let n = of_char c in if 65 \<le> n \<and> n \<le> 90 then n + 32 else n)"

fun ci_loop :: "string \<Rightarrow> string \<Rightarrow> int" where
  "ci_loop [] [] = 0"
| "ci_loop [] (d # t) = - tolower d"
| "ci_loop (c # s) [] = tolower c"
| "ci_loop (c # s) (d # t) = (if tolower c = tolower d then ci_loop s t else tolower c - tolower d)"

definition case_insensitive_strcmp :: "string option \<Rightarrow> string option \<Rightarrow> int" where
  "case_insensitive_strcmp string1 string2 =
     (case (string1, string2) of (Some s, Some t) \<Rightarrow> ci_loop s t | _ \<Rightarrow> 1)"

fun object_item_loop :: "cjson list \<Rightarrow> string \<Rightarrow> bool \<Rightarrow> cjson option" where
  "object_item_loop [] nm case_sensitive = None"
| "object_item_loop (c # cs) nm case_sensitive =
     (if (if case_sensitive then key c \<noteq> None \<and> key c \<noteq> Some nm
          else case_insensitive_strcmp (Some nm) (key c) \<noteq> 0)
      then object_item_loop cs nm case_sensitive else Some c)"

definition get_object_item :: "cjson option \<Rightarrow> string option \<Rightarrow> bool \<Rightarrow> cjson option" where
  "get_object_item obj nm case_sensitive =
     (case (obj, nm) of
        (Some i, Some nm) \<Rightarrow>
          (case object_item_loop (children i) nm case_sensitive of
             None \<Rightarrow> None
           | Some c \<Rightarrow> if key c = None then None else Some c)
      | _ \<Rightarrow> None)"

definition cJSON_GetObjectItem :: "cjson option \<Rightarrow> string \<Rightarrow> cjson option" where
  "cJSON_GetObjectItem obj nm = get_object_item obj (Some nm) False"

definition cJSON_GetObjectItemCaseSensitive :: "cjson option \<Rightarrow> string \<Rightarrow> cjson option" where
  "cJSON_GetObjectItemCaseSensitive obj nm = get_object_item obj (Some nm) True"

definition cJSON_HasObjectItem :: "cjson option \<Rightarrow> string \<Rightarrow> bool" where
  "cJSON_HasObjectItem obj nm = (cJSON_GetObjectItem obj nm \<noteq> None)"

text \<open>Strings without NUL are compared up to the case of ASCII letters.\<close>

lemma tolower_zero: "tolower c = 0 \<longleftrightarrow> c = CHR 0x00"
proof -
  have "(of_char c :: int) = of_char (CHR 0x00) \<longleftrightarrow> c = CHR 0x00" by (rule of_char_eq_iff)
  then show ?thesis by (auto simp: tolower_def Let_def)
qed

lemma ci_loop_iff:
  assumes "CHR 0x00 \<notin> set s" "CHR 0x00 \<notin> set t"
  shows "ci_loop s t = 0 \<longleftrightarrow> map tolower s = map tolower t"
  using assms by (induction s t rule: ci_loop.induct) (auto simp: tolower_zero)

text \<open>
  The lookup finds the first member with the name, in any case; the case-sensitive one the first with exactly this
  name.
\<close>

lemma get_object_item_find:
  assumes "\<forall>c\<in>set (children i). \<exists>k. key c = Some k \<and> CHR 0x00 \<notin> set k" "CHR 0x00 \<notin> set nm"
  shows "cJSON_GetObjectItem (Some i) nm = find (\<lambda>c. map tolower (the (key c)) = map tolower nm) (children i)"
    "cJSON_GetObjectItemCaseSensitive (Some i) nm = find (\<lambda>c. the (key c) = nm) (children i)"
proof -
  have loop: "object_item_loop cs nm False = find (\<lambda>c. map tolower (the (key c)) = map tolower nm) cs \<and>
      object_item_loop cs nm True = find (\<lambda>c. the (key c) = nm) cs"
    if "\<forall>c\<in>set cs. \<exists>k. key c = Some k \<and> CHR 0x00 \<notin> set k" for cs
    using that
  proof (induction cs)
    case (Cons c cs)
    then obtain k where k: "key c = Some k" "CHR 0x00 \<notin> set k" by auto
    have "ci_loop nm k = 0 \<longleftrightarrow> map tolower k = map tolower nm"
      using ci_loop_iff [OF assms(2) k(2)] by auto
    then show ?case using Cons k by (simp add: case_insensitive_strcmp_def)
  qed simp
  have keyed: "find P (children i) = Some c \<Longrightarrow> key c \<noteq> None" for P c
    using assms(1) by (auto simp: find_Some_iff)
  show "cJSON_GetObjectItem (Some i) nm = find (\<lambda>c. map tolower (the (key c)) = map tolower nm) (children i)"
    "cJSON_GetObjectItemCaseSensitive (Some i) nm = find (\<lambda>c. the (key c) = nm) (children i)"
    using loop [OF assms(1)]
    by (auto simp: cJSON_GetObjectItem_def cJSON_GetObjectItemCaseSensitive_def get_object_item_def
        split: option.splits dest: keyed)
qed

end
