(* ===== verification/Cjson_Safe.thy ===== *)
theory Cjson_Safe
  imports Cjson_Parse
begin

text \<open>
  The parser reads only inside its buffer, always ends, and uses at least one character for a value. What the loops
  rely on from the parser of values is the locale \<open>value_parser\<close>; \<open>parse_value\<close> is an interpretation.
\<close>

definition well_behaved :: "string \<Rightarrow> nat \<Rightarrow> 'a parsed \<Rightarrow> bool" where
  "well_behaved Bs off r =
     (case r of Parsed _ off' \<Rightarrow> off < off' \<and> off' \<le> length Bs | Rejected _ \<Rightarrow> True | Faults _ \<Rightarrow> False | OutOfFuel \<Rightarrow> False)"

lemma well_behaved_simps [simp]:
  "well_behaved Bs off (Parsed x off') \<longleftrightarrow> off < off' \<and> off' \<le> length Bs"
  "well_behaved Bs off (Rejected n)" "\<not> well_behaved Bs off (Faults f)" "\<not> well_behaved Bs off OutOfFuel"
  by (simp_all add: well_behaved_def)

lemma skip_whitespace_bounds:
  "off \<le> buffer_skip_whitespace Bs off"
  "off < length Bs \<Longrightarrow> buffer_skip_whitespace Bs off < length Bs"
  "length Bs \<le> off \<Longrightarrow> buffer_skip_whitespace Bs off = off"
proof -
  have "length (takeWhile is_ws (drop off Bs)) \<le> length Bs - off" by (metis length_drop length_takeWhile_le)
  then show "off \<le> buffer_skip_whitespace Bs off"
    "off < length Bs \<Longrightarrow> buffer_skip_whitespace Bs off < length Bs"
    by (auto simp: buffer_skip_whitespace_def Let_def)
qed (simp add: buffer_skip_whitespace_def)

lemma skip_whitespace_le: "off \<le> length Bs \<Longrightarrow> buffer_skip_whitespace Bs off \<le> length Bs"
  using skip_whitespace_bounds(2) [of off Bs] skip_whitespace_bounds(3) [of Bs off] by (cases "off = length Bs") auto

lemma peek_Some: "peek Bs off = Some c \<longleftrightarrow> off < length Bs \<and> Bs ! off = c"
  by (auto simp: peek_def)

lemma peek_None: "peek Bs off = None \<longleftrightarrow> length Bs \<le> off"
  by (auto simp: peek_def)

section \<open>Strings and numbers\<close>

lemma string_end_bounds: "string_end cs p = Some e \<Longrightarrow> p \<le> e \<and> e < p + length cs \<and> cs ! (e - p) = CHR 0x22"
proof (induction cs p rule: string_end.induct)
  case (2 c cs p)
  show ?case
  proof (cases "c = CHR 0x22")
    case False
    show ?thesis
    proof (cases "c = CHR 0x5C")
      case True
      then obtain d ds where "cs = d # ds" using 2(3) by (cases cs) auto
      then show ?thesis using 2(1) [of d ds] 2(3) True by (auto simp: nth_Cons')
    next
      case False
      then show ?thesis using 2(2) 2(3) \<open>c \<noteq> CHR 0x22\<close> by (auto simp: nth_Cons')
    qed
  qed (use 2(3) in simp)
qed simp

lemma string_loop_safe:
  assumes "e < length Bs"
  shows "string_loop Bs e p out \<noteq> Faults f \<and> string_loop Bs e p out \<noteq> OutOfFuel"
  using assms
proof (induction Bs e p out rule: string_loop.induct)
  case (1 Bs e p out)
  show ?case
  proof (cases "p < e")
    case True
    then obtain c d where cd: "peek Bs p = Some c" "peek Bs (p + 1) = Some d" using 1(4) by (simp add: peek_Some)
    show ?thesis
    proof (cases "c = CHR 0x5C")
      case False
      then show ?thesis using 1(1) [OF True cd(1)] 1(4) True cd by (subst (1 2) string_loop.simps) simp
    next
      case c: True
      show ?thesis
      proof (cases "escape_char d")
        case (Some x)
        then show ?thesis using 1(3) [OF True cd(1) _ cd(2) Some] 1(4) True cd c by (subst (1 2) string_loop.simps) simp
      next
        case None
        obtain bs n where u: "utf16_literal_to_utf8 (take (e - p) (drop p Bs)) = (bs, n)" by fastforce
        show ?thesis
          using 1(2) [OF True cd(1) _ cd(2) None _ u [symmetric]] 1(4) True cd c None u
          by (subst (1 2) string_loop.simps) simp
      qed
    qed
  qed (subst (1 2) string_loop.simps, simp)
qed

lemma parse_string_well_behaved:
  assumes "off < length Bs"
  shows "well_behaved Bs off (parse_string alloc_ok Bs off)"
proof (cases "string_end (drop (off + 1) Bs) (off + 1)")
  case None
  then show ?thesis using assms by (simp add: parse_string_def peek_def)
next
  case (Some e)
  then have "off + 1 \<le> e" "e < length Bs" using string_end_bounds [OF Some] by auto
  then show ?thesis
    using assms Some string_loop_safe [of e Bs "off + 1" "[]"]
    by (auto simp: parse_string_def peek_def split: parsed.splits)
qed

lemma strtod_used: "snd (strtod s) \<le> length s"
  by (simp add: strtod_def Let_def split: prod.splits list.splits)

lemma parse_number_well_behaved: "well_behaved Bs off (parse_number Bs off)"
proof -
  let ?s = "takeWhile number_char (take 63 (drop off Bs))"
  obtain x n where x: "strtod ?s = (x, n)" by fastforce
  have "n \<le> length ?s" using strtod_used [of ?s] x by simp
  also have "length ?s \<le> length Bs - off" using length_takeWhile_le [of number_char "take 63 (drop off Bs)"] by simp
  finally have "0 < n \<Longrightarrow> off + n \<le> length Bs" by linarith
  then show ?thesis using x by (simp add: parse_number_def)
qed

section \<open>Values\<close>

locale value_parser =
  fixes pv :: "nat \<Rightarrow> cjson parsed" and Bs :: string
  assumes value_well_behaved: "off \<le> length Bs \<Longrightarrow> well_behaved Bs off (pv off)"
begin

lemma array_loop_well_behaved:
  assumes "off < length Bs" "length Bs - off \<le> fuel"
  shows "well_behaved Bs off (array_loop fuel pv alloc_ok Bs off cs)"
  using assms
proof (induction fuel arbitrary: off cs)
  case (Suc fuel)
  let ?o = "buffer_skip_whitespace Bs (off + 1)"
  have o: "off < ?o" "?o \<le> length Bs" using skip_whitespace_bounds(1) [of "off + 1" Bs] skip_whitespace_le [of "off + 1" Bs] Suc.prems by auto
  show ?case
  proof (cases "pv ?o")
    case (Parsed c off')
    let ?q = "buffer_skip_whitespace Bs off'"
    have p: "?o < off'" "off' \<le> length Bs" using value_well_behaved [OF o(2)] Parsed by simp_all
    have q: "off < ?q" "?q \<le> length Bs" using skip_whitespace_bounds(1) [of off' Bs] skip_whitespace_le [OF p(2)] o p by linarith+
    show ?thesis
    proof (cases "peek Bs ?q = Some (CHR '','')")
      case True
      then have "?q < length Bs" by (simp add: peek_Some)
      then have "well_behaved Bs ?q (array_loop fuel pv alloc_ok Bs ?q (cs @ [c]))" using Suc q(1) by simp
      then have "well_behaved Bs off (array_loop fuel pv alloc_ok Bs ?q (cs @ [c]))"
        using q(1) by (auto simp: well_behaved_def split: parsed.splits)
      then show ?thesis using True Parsed by (simp add: Let_def)
    qed (use Parsed q in \<open>simp add: Let_def\<close>)
  qed (use value_well_behaved [OF o(2)] in simp_all)
qed simp

lemma object_loop_well_behaved:
  assumes "off < length Bs" "length Bs - off \<le> fuel"
  shows "well_behaved Bs off (object_loop fuel pv alloc_ok Bs off cs)"
  using assms
proof (induction fuel arbitrary: off cs)
  case (Suc fuel)
  show ?case
  proof (cases "alloc_ok off \<and> off + 1 < length Bs")
    case True
    let ?o = "buffer_skip_whitespace Bs (off + 1)"
    have o: "off < ?o" "?o < length Bs" using skip_whitespace_bounds(1,2) [of "off + 1" Bs] True by auto
    note s = parse_string_well_behaved [OF o(2), of alloc_ok]
    show ?thesis
    proof (cases "parse_string alloc_ok Bs ?o")
      case (Parsed nm o2)
      let ?p = "buffer_skip_whitespace Bs o2"
      have "o2 \<le> ?p" "?o < o2" using skip_whitespace_bounds(1) s Parsed by simp_all
      show ?thesis
      proof (cases "peek Bs ?p = Some (CHR '':'')")
        case True
        let ?v = "buffer_skip_whitespace Bs (?p + 1)"
        have v: "?p < ?v" "?v \<le> length Bs"
          using skip_whitespace_bounds(1) [of "?p + 1" Bs] skip_whitespace_le [of "?p + 1" Bs] True by (auto simp: peek_Some)
        show ?thesis
        proof (cases "pv ?v")
          case (Parsed c o3)
          let ?q = "buffer_skip_whitespace Bs o3"
          have p: "?v < o3" "o3 \<le> length Bs" using value_well_behaved [OF v(2)] Parsed by simp_all
          have q: "off < ?q" "?q \<le> length Bs"
            using skip_whitespace_bounds(1) [of o3 Bs] skip_whitespace_le [OF p(2)] o p v \<open>o2 \<le> ?p\<close> \<open>?o < o2\<close> by linarith+
          let ?cs = "cs @ [set_key (valuestring nm) c]"
          show ?thesis
          proof (cases "peek Bs ?q = Some (CHR '','')")
            case comma: True
            then have "?q < length Bs" by (simp add: peek_Some)
            then have "well_behaved Bs ?q (object_loop fuel pv alloc_ok Bs ?q ?cs)" using Suc q(1) by simp
            then have "well_behaved Bs off (object_loop fuel pv alloc_ok Bs ?q ?cs)"
              using q(1) by (auto simp: well_behaved_def split: parsed.splits)
            then show ?thesis
              using True comma \<open>parse_string alloc_ok Bs ?o = Parsed nm o2\<close> Parsed \<open>alloc_ok off \<and> off + 1 < length Bs\<close>
              by (simp add: Let_def)
          qed (use True \<open>parse_string alloc_ok Bs ?o = Parsed nm o2\<close> Parsed q \<open>alloc_ok off \<and> off + 1 < length Bs\<close>
              in \<open>simp add: Let_def\<close>)
        qed (use value_well_behaved [OF v(2)] True Parsed \<open>alloc_ok off \<and> off + 1 < length Bs\<close> in \<open>simp_all add: Let_def\<close>)
      qed (use Parsed \<open>alloc_ok off \<and> off + 1 < length Bs\<close> in \<open>simp add: Let_def\<close>)
    qed (use s True in simp_all)
  qed auto
qed simp

lemma parse_array_well_behaved:
  assumes "off < length Bs"
  shows "well_behaved Bs off (parse_array (Some pv) alloc_ok Bs off)"
proof -
  let ?o = "buffer_skip_whitespace Bs (off + 1)"
  have o: "off < ?o" "?o \<le> length Bs"
    using skip_whitespace_bounds(1) [of "off + 1" Bs] skip_whitespace_le [of "off + 1" Bs] assms by auto
  show ?thesis
  proof (cases "?o < length Bs")
    case True
    then have "well_behaved Bs (?o - 1) (array_loop (length Bs) pv alloc_ok Bs (?o - 1) [])"
      using o by (intro array_loop_well_behaved) auto
    then show ?thesis
      using assms o True by (auto simp: parse_array_def peek_def Let_def split: parsed.splits)
  qed (use assms o in \<open>auto simp: parse_array_def peek_def Let_def\<close>)
qed

lemma parse_object_well_behaved:
  assumes "off < length Bs"
  shows "well_behaved Bs off (parse_object (Some pv) alloc_ok Bs off)"
proof -
  let ?o = "buffer_skip_whitespace Bs (off + 1)"
  have o: "off < ?o" "?o \<le> length Bs"
    using skip_whitespace_bounds(1) [of "off + 1" Bs] skip_whitespace_le [of "off + 1" Bs] assms by auto
  show ?thesis
  proof (cases "?o < length Bs")
    case True
    then have "well_behaved Bs (?o - 1) (object_loop (length Bs) pv alloc_ok Bs (?o - 1) [])"
      using o by (intro object_loop_well_behaved) auto
    then show ?thesis
      using assms o True by (auto simp: parse_object_def peek_def Let_def split: parsed.splits)
  qed (use assms o in \<open>auto simp: parse_object_def peek_def Let_def\<close>)
qed

end

text \<open>A value given well-behaved arrays and objects.\<close>

lemma value_step_well_behaved:
  assumes "off \<le> length Bs"
    "off < length Bs \<Longrightarrow> well_behaved Bs off (parse_array pvo alloc_ok Bs off) \<and> well_behaved Bs off (parse_object pvo alloc_ok Bs off)"
  shows "well_behaved Bs off (value_step pvo alloc_ok Bs off)"
proof (cases "off < length Bs")
  case True
  then show ?thesis
    using assms(2) parse_string_well_behaved [OF True] parse_number_well_behaved
    by (auto simp: value_step_def starts_with_def peek_def)
next
  case False
  then show ?thesis by (simp add: value_step_def starts_with_def peek_def)
qed

lemma parse_value_well_behaved:
  "off \<le> length Bs \<Longrightarrow> well_behaved Bs off (parse_value left alloc_ok Bs off)"
proof (induction left arbitrary: off)
  case 0
  then show ?case by (auto intro!: value_step_well_behaved simp: parse_array_def parse_object_def)
next
  case (Suc left)
  have "value_parser (parse_value left alloc_ok Bs) Bs" by (unfold_locales) (rule Suc.IH)
  then show ?case
    using Suc.prems value_parser.parse_array_well_behaved value_parser.parse_object_well_behaved
    by (auto intro!: value_step_well_behaved)
qed

interpretation pv: value_parser "parse_value left alloc_ok Bs" Bs for left alloc_ok Bs
  by unfold_locales (rule parse_value_well_behaved)

section \<open>The parser\<close>

lemma skip_utf8_bom_le: "skip_utf8_bom Bs \<le> length Bs"
  by (simp add: skip_utf8_bom_def)

text \<open>
  C9. Every text is either parsed, up to an offset in the buffer, or rejected at a position in the buffer: no read goes
  outside it, and the fuel of the loops is never used up.
\<close>

theorem cjson_parse_ends:
  "(\<exists>c off. cJSON_ParseWithLengthOpts root_ok alloc_ok Bs nul = Parsed c off \<and> off \<le> length Bs) \<or>
    (\<exists>off. cJSON_ParseWithLengthOpts root_ok alloc_ok Bs nul = Rejected off \<and> off \<le> length Bs - 1)"
proof -
  let ?o = "buffer_skip_whitespace Bs (skip_utf8_bom Bs)"
  have "?o \<le> length Bs" by (intro skip_whitespace_le skip_utf8_bom_le)
  from pv.value_well_behaved [OF this, of CJSON_NESTING_LIMIT alloc_ok] show ?thesis
    using skip_whitespace_le
    by (cases "parse_value CJSON_NESTING_LIMIT alloc_ok Bs ?o")
      (auto simp: cJSON_ParseWithLengthOpts_def Let_def)
qed

end
