(* ===== verification/Cjson_Grammar.thy ===== *)
theory Cjson_Grammar
  imports Cjson_Safe
begin

text \<open>
  JSON texts as a grammar, and the parser's agreement with it: every text of the grammar is read as the value it
  is a text of. The grammar has the productions of RFC 8259, with white space and escapes of
  every kind.
\<close>

section \<open>The grammar\<close>

text \<open>A number is kept as it is written.\<close>

datatype json = JNull | JBool bool | JNum string | JStr string | JArr "json list" | JObj "(string \<times> json) list"

definition ws_text :: "string \<Rightarrow> bool" where
  "ws_text w \<longleftrightarrow> set w \<subseteq> {CHR '' '', CHR 0x09, CHR 0x0A, CHR 0x0D}"

definition digits_text :: "string \<Rightarrow> bool" where
  "digits_text ds \<longleftrightarrow> ds \<noteq> [] \<and> (\<forall>c\<in>set ds. isdigit c)"

definition fraction_text :: "string \<Rightarrow> bool" where
  "fraction_text f \<longleftrightarrow> f = [] \<or> (\<exists>ds. f = CHR ''.'' # ds \<and> digits_text ds)"

definition exponent_text :: "string \<Rightarrow> bool" where
  "exponent_text x \<longleftrightarrow> x = [] \<or>
     (\<exists>e sg ds. x = e # sg @ ds \<and> e \<in> {CHR ''e'', CHR ''E''} \<and> sg \<in> {[], ''+'', ''-''} \<and> digits_text ds)"

definition number_text :: "string \<Rightarrow> bool" where
  "number_text t \<longleftrightarrow> (\<exists>sg ds f x. t = sg @ ds @ f @ x \<and> sg \<in> {[], ''-''} \<and> digits_text ds \<and>
     (hd ds = CHR ''0'' \<longrightarrow> ds = ''0'') \<and> fraction_text f \<and> exponent_text x)"

text \<open>The UTF-8 bytes of a code point, and the number four hexadecimal digits stand for.\<close>

definition utf8 :: "nat \<Rightarrow> string" where
  "utf8 cp =
     (if cp < 0x80 then [char_of cp]
      else if cp < 0x800 then [char_of (0xC0 + cp div 64), char_of (0x80 + cp mod 64)]
      else if cp < 0x10000 then [char_of (0xE0 + cp div 4096), char_of (0x80 + cp div 64 mod 64), char_of (0x80 + cp mod 64)]
      else [char_of (0xF0 + cp div 262144), char_of (0x80 + cp div 4096 mod 64), char_of (0x80 + cp div 64 mod 64),
            char_of (0x80 + cp mod 64)])"

definition hex4_text :: "nat \<Rightarrow> string \<Rightarrow> bool" where
  "hex4_text n h \<longleftrightarrow> (\<exists>c1 c2 c3 c4 d1 d2 d3 d4. h = [c1, c2, c3, c4] \<and>
     hex_digit c1 = Some d1 \<and> hex_digit c2 = Some d2 \<and> hex_digit c3 = Some d3 \<and> hex_digit c4 = Some d4 \<and>
     n = d1 * 4096 + d2 * 256 + d3 * 16 + d4)"

text \<open>The characters of a string and the text between its quotes. NUL is left out: a C string cannot hold it.\<close>

inductive str_text :: "string \<Rightarrow> string \<Rightarrow> bool" where
  str_nil: "str_text [] []"
| str_plain: "\<lbrakk>c \<notin> {CHR 0x00, CHR 0x22, CHR 0x5C}; str_text s t\<rbrakk> \<Longrightarrow> str_text (c # s) (c # t)"
| str_escape: "\<lbrakk>escape_char d = Some x; str_text s t\<rbrakk> \<Longrightarrow> str_text (x # s) (CHR 0x5C # d # t)"
| str_unicode: "\<lbrakk>hex4_text n h; 0 < n; n < 0xD800 \<or> 0xE000 \<le> n; str_text s t\<rbrakk> \<Longrightarrow>
    str_text (utf8 n @ s) (CHR 0x5C # CHR ''u'' # h @ t)"
| str_surrogates: "\<lbrakk>hex4_text n h; hex4_text k l; 0xD800 \<le> n; n < 0xDC00; 0xDC00 \<le> k; k < 0xE000; str_text s t\<rbrakk> \<Longrightarrow>
    str_text (utf8 (0x10000 + (n - 0xD800) * 1024 + (k - 0xDC00)) @ s)
      (CHR 0x5C # CHR ''u'' # h @ CHR 0x5C # CHR ''u'' # l @ t)"

inductive json_text :: "json \<Rightarrow> string \<Rightarrow> bool" and elements_text :: "json list \<Rightarrow> string \<Rightarrow> bool" and
    members_text :: "(string \<times> json) list \<Rightarrow> string \<Rightarrow> bool" where
  t_null: "json_text JNull ''null''"
| t_false: "json_text (JBool False) ''false''"
| t_true: "json_text (JBool True) ''true''"
| t_number: "\<lbrakk>number_text t; length t \<le> 63\<rbrakk> \<Longrightarrow> json_text (JNum t) t"
| t_string: "str_text s t \<Longrightarrow> json_text (JStr s) (CHR 0x22 # t @ [CHR 0x22])"
| t_empty_array: "ws_text w \<Longrightarrow> json_text (JArr []) (CHR ''['' # w @ [CHR '']''])"
| t_array: "elements_text vs t \<Longrightarrow> json_text (JArr vs) (CHR ''['' # t @ [CHR '']''])"
| t_empty_object: "ws_text w \<Longrightarrow> json_text (JObj []) (CHR 0x7B # w @ [CHR 0x7D])"
| t_object: "members_text ms t \<Longrightarrow> json_text (JObj ms) (CHR 0x7B # t @ [CHR 0x7D])"
| t_element: "\<lbrakk>ws_text w; json_text v t; ws_text w'\<rbrakk> \<Longrightarrow> elements_text [v] (w @ t @ w')"
| t_elements: "\<lbrakk>ws_text w; json_text v t; ws_text w'; elements_text vs ts\<rbrakk> \<Longrightarrow>
    elements_text (v # vs) (w @ t @ w' @ CHR '','' # ts)"
| t_member: "\<lbrakk>ws_text w; str_text k kt; ws_text w1; ws_text w2; json_text v t; ws_text w3\<rbrakk> \<Longrightarrow>
    members_text [(k, v)] (w @ CHR 0x22 # kt @ CHR 0x22 # w1 @ CHR '':'' # w2 @ t @ w3)"
| t_members: "\<lbrakk>ws_text w; str_text k kt; ws_text w1; ws_text w2; json_text v t; ws_text w3; members_text ms ts\<rbrakk> \<Longrightarrow>
    members_text ((k, v) # ms) (w @ CHR 0x22 # kt @ CHR 0x22 # w1 @ CHR '':'' # w2 @ t @ w3 @ CHR '','' # ts)"

text \<open>The items of a value, and how deep arrays and objects are nested.\<close>

fun item_of :: "json \<Rightarrow> cjson" where
  "item_of JNull = plain_item cJSON_NULL 0"
| "item_of (JBool b) = (if b then plain_item cJSON_True 1 else plain_item cJSON_False 0)"
| "item_of (JNum t) = Cjson cJSON_Number [] None (saturated_int (fst (strtod t))) (fst (strtod t)) None"
| "item_of (JStr s) = Cjson cJSON_String [] (Some s) 0 (Finite False 0 0) None"
| "item_of (JArr vs) = list_item cJSON_Array (map item_of vs)"
| "item_of (JObj ms) = list_item cJSON_Object (map (\<lambda>(k, v). set_key (Some k) (item_of v)) ms)"

fun fits :: "nat \<Rightarrow> json \<Rightarrow> bool" where
  "fits left (JArr vs) = (case left of 0 \<Rightarrow> False | Suc l \<Rightarrow> \<forall>v\<in>set vs. fits l v)"
| "fits left (JObj ms) = (case left of 0 \<Rightarrow> False | Suc l \<Rightarrow> \<forall>(k, v)\<in>set ms. fits l v)"
| "fits left v = True"

section \<open>White space and numbers\<close>

lemma ws_text_is_ws: "ws_text w \<Longrightarrow> c \<in> set w \<Longrightarrow> is_ws c"
  by (auto simp: ws_text_def is_ws_def)

lemma skip_ws_text:
  assumes "ws_text w" "\<not> is_ws c"
  shows "buffer_skip_whitespace (pre @ w @ c # rest) (length pre) = length pre + length w"
proof -
  have "takeWhile is_ws (w @ c # rest) = w"
    using assms ws_text_is_ws by (subst takeWhile_append2) auto
  then show ?thesis by (simp add: buffer_skip_whitespace_def Let_def)
qed

lemma digits_stop:
  assumes "digits_text ds" "rest = [] \<or> \<not> isdigit (hd rest)"
  shows "takeWhile isdigit (ds @ rest) = ds" "dropWhile isdigit (ds @ rest) = rest"
  using takeWhile_all_append [of ds isdigit rest] assms by (auto simp: digits_text_def)

lemma digits_hd: "digits_text ds \<Longrightarrow> \<exists>c cs. ds = c # cs \<and> isdigit c"
  by (cases ds) (auto simp: digits_text_def)

lemma not_digits [simp]: "\<not> isdigit (CHR ''e'')" "\<not> isdigit (CHR ''E'')" "\<not> isdigit (CHR ''.'')"
    "\<not> isdigit (CHR ''+'')" "\<not> isdigit (CHR ''-'')"
  by (simp_all add: isdigit_def)

lemma strip_sign_text:
  assumes "digits_text ds" "sg \<in> {[], ''+'', ''-''}"
  shows "strip_sign (sg @ ds @ r) = (sg = ''-'', ds @ r)"
  using assms digits_hd [OF assms(1)] by (auto simp: strip_sign_def)

lemma strtod_exponent_text:
  assumes "exponent_text x"
  shows "snd (strtod_exponent x) = []"
proof (cases "x = []")
  case False
  then obtain e sg ds where x: "x = e # sg @ ds" "e \<in> {CHR ''e'', CHR ''E''}" "sg \<in> {[], ''+'', ''-''}" "digits_text ds"
    using assms by (auto simp: exponent_text_def)
  have d: "takeWhile isdigit ds = ds" "dropWhile isdigit ds = []" "ds \<noteq> []"
    using digits_stop [OF x(4), of "[]"] x(4) by (simp_all add: digits_text_def)
  have "strip_sign (sg @ ds) = (sg = ''-'', ds)" using strip_sign_text [OF x(4,3), of "[]"] by simp
  then show ?thesis using x(2) d(3) by (auto simp: x(1) strtod_exponent_def Let_def d(1,2))
qed (simp add: strtod_exponent_def)

text \<open>All of a number is read.\<close>

lemma strtod_number_text:
  assumes "number_text t"
  shows "snd (strtod t) = length t"
proof -
  obtain sg ds f x where t: "t = sg @ ds @ f @ x" "sg \<in> {[], ''-''}" "digits_text ds" "fraction_text f" "exponent_text x"
    using assms by (auto simp: number_text_def)
  have x_hd: "x = [] \<or> \<not> isdigit (hd x) \<and> hd x \<noteq> CHR ''.''" using t(5) by (auto simp: exponent_text_def)
  have fx_hd: "f @ x = [] \<or> \<not> isdigit (hd (f @ x))"
    using t(4) x_hd by (auto simp: fraction_text_def)
  obtain neg where s: "strip_sign t = (neg, ds @ f @ x)"
    using t(1,2) strip_sign_text [OF t(3), of sg "f @ x"] by auto
  have d: "takeWhile isdigit (ds @ f @ x) = ds" "dropWhile isdigit (ds @ f @ x) = f @ x"
    using digits_stop [OF t(3) fx_hd] by simp_all
  have ne: "ds \<noteq> []" using t(3) by (simp add: digits_text_def)
  define fs where "fs = (case f of [] \<Rightarrow> [] | c # r \<Rightarrow> r)"
  have fr: "(case f @ x of [] \<Rightarrow> ([], f @ x) | c # r \<Rightarrow>
      if c = CHR ''.'' \<and> (ds \<noteq> [] \<or> takeWhile isdigit r \<noteq> []) then (takeWhile isdigit r, dropWhile isdigit r)
      else ([], f @ x)) = (fs, x)"
  proof (cases "f = []")
    case True
    then show ?thesis using x_hd by (cases x) (auto simp: fs_def)
  next
    case False
    then obtain gs where gs: "f = CHR ''.'' # gs" "digits_text gs" using t(4) by (auto simp: fraction_text_def)
    then show ?thesis using digits_stop [OF gs(2), of x] x_hd ne by (auto simp: fs_def)
  qed
  obtain e where e: "strtod_exponent x = (e, [])" using strtod_exponent_text [OF t(5)] by (metis prod.collapse)
  show ?thesis unfolding strtod_def s prod.case Let_def d fr e using ne by simp
qed

lemma number_text_chars:
  assumes "number_text t"
  shows "\<forall>c\<in>set t. number_char c" "t \<noteq> []" "hd t = CHR ''-'' \<or> isdigit (hd t)"
proof -
  obtain sg ds f x where t: "t = sg @ ds @ f @ x" "sg \<in> {[], ''-''}" "digits_text ds" "fraction_text f" "exponent_text x"
    using assms by (auto simp: number_text_def)
  have d: "digits_text us \<Longrightarrow> \<forall>c\<in>set us. number_char c" for us by (auto simp: digits_text_def number_char_def)
  have p: "number_char (CHR ''e'')" "number_char (CHR ''E'')" "number_char (CHR ''.'')" "number_char (CHR ''+'')"
    "number_char (CHR ''-'')"
    by (simp_all add: number_char_def)
  have "\<forall>c\<in>set f. number_char c" using t(4) d p by (auto simp: fraction_text_def)
  moreover have "\<forall>c\<in>set x. number_char c" using t(5) d p by (auto simp: exponent_text_def)
  ultimately show "\<forall>c\<in>set t. number_char c" using t(1,2) d [OF t(3)] by (auto simp: number_char_def)
  show "t \<noteq> []" "hd t = CHR ''-'' \<or> isdigit (hd t)" using t(1,2) digits_hd [OF t(3)] by auto
qed

lemma parse_number_text:
  assumes "number_text t" "length t \<le> 63" "rest \<noteq> []" "\<not> number_char (hd rest)"
  shows "parse_number (pre @ t @ rest) (length pre) = Parsed (item_of (JNum t)) (length pre + length t)"
proof -
  have "take 63 (t @ rest) = t @ take (63 - length t) rest" using assms(2) by simp
  moreover have "takeWhile number_char (t @ take (63 - length t) rest) = t"
    using number_text_chars(1) [OF assms(1)] assms(3,4)
    by (subst takeWhile_append2) (auto simp: takeWhile_eq_Nil_iff)
  ultimately have "takeWhile number_char (take 63 (drop (length pre) (pre @ t @ rest))) = t" by simp
  moreover obtain v where "strtod t = (v, length t)" by (metis assms(1) prod.collapse strtod_number_text)
  ultimately show ?thesis
    using number_text_chars(2) [OF assms(1)] by (simp add: parse_number_def Let_def)
qed

section \<open>Decimal numerals\<close>

text \<open>Below \<open>2^53\<close> they are exact.\<close>

lemma bitlen_1: "bitlen (Suc 0) = 1" "bitlen 1 = 1"
  by (simp_all add: bitlen.simps [of 1] bitlen.simps [of "Suc 0"])

lemma rne_1 [simp]: "rne p (Suc 0) = p"
  by (simp add: rne_def)

lemma double_of_nat:
  assumes "n < 2 ^ 53"
  shows "d_trunc (double_of_ratio neg n 1) = Some (if neg then - int n else int n)"
proof (cases "n = 0")
  case False
  define b where "b = bitlen n"
  have l: "2 ^ (b - 1) \<le> n" "n < 2 ^ b" using bitlen_lower [of n] bitlen_bound [of n] False by (simp_all add: b_def)
  have "(2 :: nat) ^ (b - 1) < 2 ^ 53" using l(1) assms by linarith
  then have "b - 1 < 53" by (rule power_less_imp_less_exp [rotated]) simp
  moreover have "b \<noteq> 0" using l(2) False by (cases b) simp_all
  ultimately have b: "1 \<le> b" "b \<le> 53" by simp_all
  have "(2 :: nat) ^ 53 = 2 ^ (b - 1) * 2 ^ (54 - b)" using b by (simp flip: power_add)
  also have "\<dots> \<le> n * 2 ^ (54 - b)" using l(1) by (rule mult_right_mono) simp
  finally have p1: "2 ^ 53 \<le> n * 2 ^ (54 - b)" .
  have "n * 2 ^ (53 - b) < 2 ^ b * 2 ^ (53 - b)" using l(2) by simp
  also have "\<dots> = (2 :: nat) ^ 53" using b by (simp flip: power_add)
  finally have p2: "n * 2 ^ (53 - b) \<noteq> 2 ^ 53" by simp
  have e: "nat (- (int b - 1 - 53)) = 54 - b" "nat (int b - 1 - 53) = 0" "nat (- (int b - 53)) = 53 - b" "nat (int b - 53) = 0"
    using b by simp_all
  have s: "scaled n 1 (int b - 1 - 53) = (n * 2 ^ (54 - b), 1)" "scaled n 1 (int b - 53) = (n * 2 ^ (53 - b), 1)"
    by (simp_all only: scaled_def e power_0 mult_1_right)
  have x: "max (- 1074) (int b - 1 - 53 + 1) = int b - 53" "\<not> 971 < int b - 53" using b by auto
  have d: "double_of_ratio neg n 1 = Finite neg (n * 2 ^ (53 - b)) (int b - 53)"
    unfolding double_of_ratio_def Let_def b_def [symmetric] bitlen_1 of_nat_1 s prod.case div_by_1 if_P [OF p1] x(1)
    using False p2 x(2) by simp
  show ?thesis
  proof (cases "b = 53")
    case True
    then show ?thesis unfolding d d_trunc_def by simp
  next
    case False
    then show ?thesis using b e(3) unfolding d d_trunc_def by (simp add: Let_def nat_diff_distrib)
  qed
qed (simp add: double_of_ratio_def d_trunc_def)

lemma strtod_decimal:
  assumes "n < 2 ^ 53"
  shows "d_to_u64 (fst (strtod (decimal n))) = Some (of_nat n)"
proof -
  have d: "digits_text (decimal n)" using decimal_digits [of n] decimal_nonempty by (simp add: digits_text_def)
  have s: "strip_sign (decimal n) = (False, decimal n)" using strip_sign_text [OF d, of "[]" "[]"] by simp
  have t: "takeWhile isdigit (decimal n) = decimal n" "dropWhile isdigit (decimal n) = []"
    using digits_stop [OF d, of "[]"] by simp_all
  have "fst (strtod (decimal n)) = double_of_ratio False n 1"
    by (simp add: strtod_def s t strtod_exponent_def decimal_nonempty decimal_value Let_def del: takeWhile_eq_all_conv)
  then show ?thesis using double_of_nat [OF assms, of False] assms by (simp add: d_to_u64_def)
qed

end
