(* ===== verification/Cjson_Complete.thy ===== *)
theory Cjson_Complete
  imports Cjson_Grammar
begin

text \<open>The parser reads every text of the grammar: strings with their escapes, then values by induction on the text.\<close>

section \<open>UTF-8\<close>

lemma or_high:
  fixes c :: nat
  assumes "c < 2 ^ k"
  shows "c OR (2 ^ k * m) = c + 2 ^ k * m"
proof -
  have "take_bit k c AND push_bit k m = 0" by (rule bit_eqI) (auto simp: bit_and_iff bit_take_bit_iff bit_push_bit_iff)
  then have "c AND 2 ^ k * m = 0" using assms by (simp add: take_bit_nat_eq_self push_bit_eq_mult mult.commute)
  then show ?thesis by (simp add: disjunctive_add_eq_or)
qed

lemma continuation_byte: "(n OR 0x80) AND 0xBF = 0x80 + n mod (64 :: nat)"
proof -
  have "(n OR 0x80) AND 0xBF = take_bit 6 n OR 0x80"
  proof (rule bit_eqI)
    fix i :: nat
    have "i \<in> {0, 1, 2, 3, 4, 5, 6, 7} \<or> 8 \<le> i" by auto
    then show "bit ((n OR 0x80) AND 0xBF) i = bit (take_bit 6 n OR 0x80 :: nat) i"
    proof
      assume "8 \<le> i"
      then have "(2 :: nat) ^ 8 \<le> 2 ^ i" by (intro power_increasing) simp_all
      then have "\<not> bit (0xBF :: nat) i" "\<not> bit (0x80 :: nat) i" by (simp_all add: bit_iff_odd)
      then show ?thesis using \<open>8 \<le> i\<close> by (simp add: bit_and_iff bit_or_iff bit_take_bit_iff)
    next
      assume i: "i \<in> {0, 1, 2, 3, 4, 5, 6, 7}"
      have b: "bit (0xBF :: nat) i \<longleftrightarrow> i \<noteq> 6" "bit (0x80 :: nat) i \<longleftrightarrow> i = 7"
        using i by (elim insertE emptyE; simp add: bit_iff_odd)+
      show ?thesis unfolding bit_and_iff bit_or_iff bit_take_bit_iff b using i by auto
    qed
  qed
  also have "\<dots> = take_bit 6 n + 2 ^ 6 * 2"
    using or_high [of "take_bit 6 n" 6 2] by (simp add: take_bit_eq_mod)
  finally show ?thesis by (simp add: take_bit_eq_mod)
qed

lemma first_byte:
  "c < 32 \<Longrightarrow> (c OR 0xC0) AND 0xFF = 0xC0 + (c :: nat)" "c < 16 \<Longrightarrow> (c OR 0xE0) AND 0xFF = 0xE0 + c"
  "c < 8 \<Longrightarrow> (c OR 0xF0) AND 0xFF = 0xF0 + c" "c < 128 \<Longrightarrow> c AND 0x7F = c"
proof -
  have m: "k AND 0xFF = k mod 256" "k AND 0x7F = k mod 128" for k :: nat
    using take_bit_eq_mask [of 8 k] take_bit_eq_mask [of 7 k] by (simp_all add: take_bit_eq_mod mask_eq_exp_minus_1)
  show "c < 32 \<Longrightarrow> (c OR 0xC0) AND 0xFF = 0xC0 + (c :: nat)" "c < 16 \<Longrightarrow> (c OR 0xE0) AND 0xFF = 0xE0 + c"
    "c < 8 \<Longrightarrow> (c OR 0xF0) AND 0xFF = 0xF0 + c" "c < 128 \<Longrightarrow> c AND 0x7F = c"
    using or_high [of c 6 3] or_high [of c 5 7] or_high [of c 4 15] by (simp_all add: m)
qed

text \<open>The encoder with its shifts and masks is UTF-8.\<close>

lemma utf8_encode_eq:
  assumes "cp < 0x110000"
  shows "utf8_encode cp = utf8 cp"
proof -
  have d: "drop_bit 6 n = n div 64" for n :: nat by (simp add: drop_bit_eq_div)
  have dd: "cp div 64 div 64 = cp div 4096" "cp div 4096 div 64 = cp div 262144" by (simp_all add: div_mult2_eq [symmetric])
  have b: "cp < 0x800 \<Longrightarrow> cp div 64 < 32" "cp < 0x10000 \<Longrightarrow> cp div 4096 < 16" "cp div 262144 < 8"
    using assms by (auto simp: less_mult_imp_div_less)
  have tails: "utf8_tail 1 n = (let (bs, r) = utf8_tail 0 (drop_bit 6 n) in (bs @ [char_of ((n OR 0x80) AND 0xBF)], r))"
    "utf8_tail 2 n = (let (bs, r) = utf8_tail 1 (drop_bit 6 n) in (bs @ [char_of ((n OR 0x80) AND 0xBF)], r))"
    "utf8_tail 3 n = (let (bs, r) = utf8_tail 2 (drop_bit 6 n) in (bs @ [char_of ((n OR 0x80) AND 0xBF)], r))" for n
    by (simp_all only: One_nat_def numeral_2_eq_2 numeral_3_eq_3 utf8_tail.simps)
  consider "cp < 0x80" | "\<not> cp < 0x80" "cp < 0x800" | "\<not> cp < 0x800" "cp < 0x10000" | "\<not> cp < 0x10000" by linarith
  then show ?thesis
  proof cases
    case 1
    then show ?thesis by (simp add: utf8_encode_def utf8_def first_byte)
  next
    case 2
    then show ?thesis using b(1) by (simp add: utf8_encode_def utf8_def first_byte continuation_byte d tails)
  next
    case 3
    then show ?thesis using b(2) by (simp add: utf8_encode_def utf8_def first_byte continuation_byte d dd tails)
  next
    case 4
    then show ?thesis using b(3) by (simp add: utf8_encode_def utf8_def first_byte continuation_byte d dd tails)
  qed
qed

section \<open>Strings\<close>

lemma hex_digit_bound: "hex_digit c = Some d \<Longrightarrow> d < 16"
  by (auto simp: hex_digit_def Let_def split: if_splits)

lemma hex_digit_not_special: "hex_digit c = Some d \<Longrightarrow> c \<noteq> CHR 0x22 \<and> c \<noteq> CHR 0x5C"
  by (auto simp: hex_digit_def)

lemma hex4_text_facts:
  assumes "hex4_text n h"
  shows "length h = 4" "parse_hex4 (h @ r) = n" "n < 0x10000" "\<forall>c\<in>set h. c \<noteq> CHR 0x22 \<and> c \<noteq> CHR 0x5C"
proof -
  obtain c1 c2 c3 c4 d1 d2 d3 d4 where h: "h = [c1, c2, c3, c4]" "hex_digit c1 = Some d1" "hex_digit c2 = Some d2"
    "hex_digit c3 = Some d3" "hex_digit c4 = Some d4" "n = d1 * 4096 + d2 * 256 + d3 * 16 + d4"
    using assms by (auto simp: hex4_text_def)
  note b = h(2-5) [THEN hex_digit_bound]
  show "length h = 4" "n < 0x10000" using h b by simp_all
  show "parse_hex4 (h @ r) = n" using h by (simp add: parse_hex4_def push_bit_eq_mult)
  show "\<forall>c\<in>set h. c \<noteq> CHR 0x22 \<and> c \<noteq> CHR 0x5C" using h(1) h(2-5) [THEN hex_digit_not_special] by simp
qed

lemma string_end_plain: "\<forall>c\<in>set h. c \<noteq> CHR 0x22 \<and> c \<noteq> CHR 0x5C \<Longrightarrow> string_end (h @ r) p = string_end r (p + length h)"
  by (induction h arbitrary: p) simp_all

lemma string_end_text: "str_text s t \<Longrightarrow> string_end (t @ CHR 0x22 # rest) p = Some (p + length t)"
proof (induction arbitrary: p rule: str_text.induct)
  case (str_unicode n h s t)
  then show ?case using hex4_text_facts(1,4) [OF str_unicode(1)] by (simp add: string_end_plain)
next
  case (str_surrogates n h k l s t)
  then show ?case
    using hex4_text_facts(1,4) [OF str_surrogates(1)] hex4_text_facts(1,4) [OF str_surrogates(2)]
    by (simp add: string_end_plain)
qed simp_all

lemma utf16_unicode:
  assumes "hex4_text n h" "n < 0xD800 \<or> 0xE000 \<le> n"
  shows "utf16_literal_to_utf8 (CHR 0x5C # CHR ''u'' # h @ r) = (utf8 n, 6)"
proof -
  note h = hex4_text_facts(1-3) [OF assms(1)]
  have e: "utf8_encode n = utf8 n" using h(3) by (intro utf8_encode_eq) simp
  have "\<not> (0xDC00 \<le> n \<and> n \<le> 0xDFFF)" "\<not> (0xD800 \<le> n \<and> n \<le> 0xDBFF)" using assms(2) by auto
  then show ?thesis using h(1,2) e by (simp add: utf16_literal_to_utf8_def Let_def del: not_le not_less)
qed

lemma surrogate_codepoint:
  assumes "0xD800 \<le> n" "n < 0xDC00" "0xDC00 \<le> k" "k < (0xE000 :: nat)"
  shows "push_bit 10 (n AND 0x3FF) OR (k AND 0x3FF) = (n - 0xD800) * 1024 + (k - 0xDC00)"
proof -
  have m: "i AND 0x3FF = i mod 1024" for i :: nat
    using take_bit_eq_mask [of 10 i] by (simp add: take_bit_eq_mod mask_eq_exp_minus_1)
  obtain i j where ij: "n = i + 54 * 1024" "i < 1024" "k = j + 55 * 1024" "j < 1024"
    proof
    show "n = (n - 0xD800) + 54 * 1024" "n - 0xD800 < 1024" "k = (k - 0xDC00) + 55 * 1024" "k - 0xDC00 < 1024"
      using assms by simp_all
  qed
  have "n mod 1024 = i" "k mod 1024 = j" unfolding ij(1,3) using ij(2,4) by (simp_all only: mod_mult_self1 mod_less)
  moreover have "n - 0xD800 = i" "k - 0xDC00 = j" using ij by simp_all
  ultimately show ?thesis using or_high [of j 10 i] ij(4)
    by (simp add: m push_bit_eq_mult or.commute mult.commute)
qed

lemma utf16_surrogates:
  assumes "hex4_text n h" "hex4_text k l" "0xD800 \<le> n" "n < 0xDC00" "0xDC00 \<le> k" "k < 0xE000"
  shows "utf16_literal_to_utf8 (CHR 0x5C # CHR ''u'' # h @ CHR 0x5C # CHR ''u'' # l @ r) =
    (utf8 (0x10000 + (n - 0xD800) * 1024 + (k - 0xDC00)), 12)"
proof -
  let ?cp = "0x10000 + ((n - 0xD800) * 1024 + (k - 0xDC00))"
  have cp: "?cp \<le> 0x10FFFF" using assms(3-6) by linarith
  then have e: "utf8_encode ?cp = utf8 ?cp" by (intro utf8_encode_eq) simp
  show ?thesis
    using assms cp e hex4_text_facts(1,2) [OF assms(1)] hex4_text_facts(1,2) [OF assms(2)] surrogate_codepoint [OF assms(3-6)]
    by (simp add: utf16_literal_to_utf8_def Let_def add.assoc)
qed

lemma escape_not_u: "escape_char (CHR ''u'') = None"
  by (simp add: escape_char_def)

lemma string_loop_utf16:
  assumes "utf16_literal_to_utf8 t = (bs, n)" "n \<noteq> 0" "1 < length t" "t ! 0 = CHR 0x5C" "t ! 1 = CHR ''u''"
  shows "string_loop (pre @ t @ r) (length pre + length t) (length pre) out =
    string_loop (pre @ t @ r) (length pre + length t) (length pre + n) (out @ bs)"
  using assms by (cases "t = []") (simp, subst string_loop.simps, simp add: peek_def nth_append escape_not_u)

text \<open>The second pass, from any point of the literal.\<close>

lemma string_loop_text:
  assumes "str_text s t"
  shows "string_loop (pre @ t @ CHR 0x22 # rest) (length pre + length t) (length pre) out =
    Parsed (out @ s) (length pre + length t)"
  using assms
proof (induction arbitrary: pre out rule: str_text.induct)
  case str_nil
  then show ?case by (subst string_loop.simps) simp
next
  case (str_plain c s t)
  then show ?case using str_plain(3) [of "pre @ [c]" "out @ [c]"] by (subst string_loop.simps) (simp add: peek_def nth_append)
next
  case (str_escape d x s t)
  then show ?case
    using str_escape(3) [of "pre @ [CHR 0x5C, d]" "out @ [x]"] by (subst string_loop.simps) (simp add: peek_def nth_append)
next
  case (str_unicode n h s t)
  have "length h = 4" using hex4_text_facts(1) [OF str_unicode(1)] .
  then show ?case
    using str_unicode(5) [of "pre @ CHR 0x5C # CHR ''u'' # h" "out @ utf8 n"]
      string_loop_utf16 [OF utf16_unicode [OF str_unicode(1,3), of t], of pre "CHR 0x22 # rest" out]
    by (simp add: add.assoc)
next
  case (str_surrogates n h k l s t)
  have "length h = 4" "length l = 4" using hex4_text_facts(1) str_surrogates(1,2) by blast+
  then show ?case
    using str_surrogates(8) [of "pre @ CHR 0x5C # CHR ''u'' # h @ CHR 0x5C # CHR ''u'' # l"
        "out @ utf8 (0x10000 + (n - 0xD800) * 1024 + (k - 0xDC00))"]
      string_loop_utf16 [OF utf16_surrogates [OF str_surrogates(1-6), of t], of pre "CHR 0x22 # rest" out]
    by (simp add: add.assoc)
qed

lemma char_of_nonzero: "0 < (n :: nat) \<Longrightarrow> n < 256 \<Longrightarrow> char_of n \<noteq> CHR 0x00"
proof
  assume "char_of n = CHR 0x00" and n: "0 < n" "n < 256"
  then have "of_char (char_of n) = (of_char (CHR 0x00) :: nat)" by simp
  then show False using n by simp
qed

lemma utf8_no_nul: "0 < n \<Longrightarrow> n < 0x110000 \<Longrightarrow> CHR 0x00 \<notin> set (utf8 n)"
proof -
  assume n: "0 < n" "n < 0x110000"
  have m: "k mod 64 + 128 < 256" "0x80 + k mod 64 < 256" for k :: nat using mod_less_divisor [of 64 k] by linarith+
  have d: "n < 0x800 \<Longrightarrow> n div 64 < 32" "n < 0x10000 \<Longrightarrow> n div 4096 < 16" "n div 262144 < 8"
    using n by (auto simp: less_mult_imp_div_less)
  show ?thesis using n d m by (auto simp: utf8_def dest!: sym [of "CHR 0x00"] simp: char_of_nonzero)
qed

lemma str_text_no_nul: "str_text s t \<Longrightarrow> CHR 0x00 \<notin> set s"
proof (induction rule: str_text.induct)
  case (str_escape d x s t)
  then show ?case by (auto simp: escape_char_def split: if_splits)
next
  case (str_unicode n h s t)
  then show ?case using utf8_no_nul [of n] hex4_text_facts(3) [OF str_unicode(1)] by auto
next
  case (str_surrogates n h k l s t)
  then show ?case using utf8_no_nul [of "0x10000 + (n - 0xD800) * 1024 + (k - 0xDC00)"] by auto
qed auto

lemma parse_string_text:
  assumes "str_text s t"
  shows "parse_string (\<lambda>_. True) (pre @ CHR 0x22 # t @ CHR 0x22 # rest) (length pre) =
    Parsed (item_of (JStr s)) (length pre + length t + 2)"
proof -
  have "until_nul s = s" using str_text_no_nul [OF assms] by (auto simp: until_nul_def takeWhile_eq_all_conv)
  then show ?thesis
    using string_end_text [OF assms, of rest "length pre + 1"] string_loop_text [OF assms, of "pre @ [CHR 0x22]" rest "[]"]
    by (simp add: parse_string_def peek_def nth_append)
qed

end
