(* ===== verification/Cjson_Reads.thy ===== *)
theory Cjson_Reads
  imports Cjson_Complete
begin

text \<open>Every text of the grammar is read as its value, by induction on the text.\<close>

abbreviation always :: "nat \<Rightarrow> bool" where "always \<equiv> \<lambda>_. True"

section \<open>First characters\<close>

lemma parse_value_step:
  "parse_value left alloc_ok Bs off =
    value_step (case left of 0 \<Rightarrow> None | Suc l \<Rightarrow> Some (parse_value l alloc_ok Bs)) alloc_ok Bs off"
  by (cases left) simp_all

lemma starts_with_append [simp]: "starts_with (pre @ w @ rest) (length pre) w"
  by (simp add: starts_with_def)

lemma starts_with_other: "c \<noteq> d \<Longrightarrow> \<not> starts_with (pre @ c # rest) (length pre) (d # w)"
  by (auto simp: starts_with_def)

lemma value_step_head:
  assumes "c \<notin> {CHR ''n'', CHR ''f'', CHR ''t''}"
  shows "value_step pvo alloc_ok (pre @ c # rest) (length pre) =
    (if c = CHR 0x22 then parse_string alloc_ok (pre @ c # rest) (length pre)
     else if c = CHR ''-'' \<or> isdigit c then parse_number (pre @ c # rest) (length pre)
     else if c = CHR ''['' then parse_array pvo alloc_ok (pre @ c # rest) (length pre)
     else if c = CHR 0x7B then parse_object pvo alloc_ok (pre @ c # rest) (length pre)
     else Rejected (length pre))"
proof -
  have "\<not> starts_with (pre @ c # rest) (length pre) ''null''" "\<not> starts_with (pre @ c # rest) (length pre) ''false''"
    "\<not> starts_with (pre @ c # rest) (length pre) ''true''"
    using assms by (auto intro!: starts_with_other)
  then show ?thesis by (simp add: value_step_def peek_def)
qed

lemma keyword_heads:
  "\<not> starts_with (pre @ ''false'' @ rest) (length pre) ''null''" "\<not> starts_with (pre @ ''true'' @ rest) (length pre) ''null''"
  "\<not> starts_with (pre @ ''true'' @ rest) (length pre) ''false''"
  by (simp_all add: starts_with_other)

lemma isdigit_not_ws: "isdigit c \<Longrightarrow> \<not> is_ws c \<and> c \<noteq> CHR '']'' \<and> c \<notin> {CHR ''n'', CHR ''f'', CHR ''t'', CHR 0x22}"
  by (auto simp: isdigit_def is_ws_def)

lemma number_head: "number_text t \<Longrightarrow> \<exists>c u. t = c # u \<and> (c = CHR ''-'' \<or> isdigit c)"
  using number_text_chars(2,3) [of t] by (cases t) auto

lemma specials_not_ws [simp]: "\<not> is_ws (CHR '']'')" "\<not> is_ws (CHR 0x7D)" "\<not> is_ws (CHR '','')" "\<not> is_ws (CHR '':'')"
    "\<not> is_ws (CHR 0x22)"
  by (simp_all add: is_ws_def)

lemma json_text_hd:
  assumes "json_text v t"
  shows "\<exists>c u. t = c # u \<and> \<not> is_ws c \<and> c \<noteq> CHR '']'' \<and> c \<noteq> CHR 0x7D"
  using assms
proof (cases rule: json_text.cases)
  case t_number
  then show ?thesis using number_head isdigit_not_ws by (fastforce simp: is_ws_def isdigit_def)
qed (auto simp: is_ws_def)

text \<open>Elements and members begin with white space, which may be left away, and a character that closes nothing.\<close>

definition begins :: "(string \<Rightarrow> bool) \<Rightarrow> string \<Rightarrow> bool" where
  "begins P t \<longleftrightarrow> (\<exists>w c u. t = w @ c # u \<and> ws_text w \<and> \<not> is_ws c \<and> c \<noteq> CHR '']'' \<and> c \<noteq> CHR 0x7D \<and> P (c # u))"

lemma begins_value: "ws_text w \<Longrightarrow> json_text v t \<Longrightarrow> P (t @ r) \<Longrightarrow> begins P (w @ t @ r)"
  using json_text_hd [of v t] unfolding begins_def by fastforce

lemma begins_name: "ws_text w \<Longrightarrow> P (CHR 0x22 # r) \<Longrightarrow> begins P (w @ CHR 0x22 # r)"
  unfolding begins_def by fastforce

lemma ws_text_Nil [simp]: "ws_text []"
  by (simp add: ws_text_def)

lemma elements_begin:
  assumes "elements_text vs t"
  shows "begins (elements_text vs) t"
  using assms
proof (cases rule: elements_text.cases)
  case (t_element w v u w')
  then show ?thesis using json_text_elements_text_members_text.t_element [of "[]" v u w'] by (simp add: begins_value)
next
  case (t_elements w v u w' vs' ts)
  then show ?thesis
    using json_text_elements_text_members_text.t_elements [of "[]" v u w' vs' ts] by (simp add: begins_value)
qed

lemma members_begin:
  assumes "members_text ms t"
  shows "begins (members_text ms) t"
  using assms
proof (cases rule: members_text.cases)
  case (t_member w k kt w1 w2 v u w3)
  then show ?thesis
    using json_text_elements_text_members_text.t_member [of "[]" k kt w1 w2 v u w3] by (simp add: begins_name)
next
  case (t_members w k kt w1 w2 v u w3 ms' ts)
  then show ?thesis
    using json_text_elements_text_members_text.t_members [of "[]" k kt w1 w2 v u w3 ms' ts] by (simp add: begins_name)
qed

lemma elements_length: "elements_text vs t \<Longrightarrow> length vs \<le> length t"
proof (induction vs arbitrary: t)
  case (Cons v vs)
  from Cons.prems show ?case
  proof (cases rule: elements_text.cases)
    case (t_element w u w')
    then show ?thesis using json_text_hd [of v u] by auto
  next
    case (t_elements w u w' ts)
    then show ?thesis using Cons.IH [of ts] by simp
  qed
qed simp

lemma members_length: "members_text ms t \<Longrightarrow> length ms \<le> length t"
proof (induction ms arbitrary: t)
  case (Cons m ms)
  from Cons.prems show ?case
  proof (cases rule: members_text.cases)
    case (t_members w k kt w1 w2 v u w3 ts)
    then show ?thesis using Cons.IH [of ts] by simp
  qed simp
qed simp

section \<open>Elements and members\<close>

text \<open>What is read at the values of a text by the parser with \<open>left\<close> levels, which is the induction hypothesis.\<close>

definition reads :: "nat \<Rightarrow> json \<Rightarrow> string \<Rightarrow> bool" where
  "reads left v t \<longleftrightarrow> (\<forall>pre rest. rest \<noteq> [] \<and> \<not> number_char (hd rest) \<longrightarrow>
     parse_value left always (pre @ t @ rest) (length pre) = Parsed (item_of v) (length pre + length t))"

lemma readsD:
  "reads left v t \<Longrightarrow> \<not> number_char c \<Longrightarrow>
    parse_value left always (pre @ t @ c # rest) (length pre) = Parsed (item_of v) (length pre + length t)"
  by (simp add: reads_def)

lemma ws_hd_not_number:
  assumes "ws_text w" "\<not> number_char c"
  shows "\<exists>d r'. w @ c # r = d # r' \<and> \<not> number_char d"
  using assms by (cases w) (auto simp: ws_text_def number_char_def isdigit_def)

lemma specials_not_number [simp]: "\<not> number_char (CHR '','')" "\<not> number_char (CHR '']'')" "\<not> number_char (CHR 0x7D)"
    "\<not> number_char (CHR 0x00)"
  by (simp_all add: number_char_def isdigit_def)

text \<open>A value with white space around it, as the loops read it: before it, itself, after it.\<close>

lemma read_spaced:
  fixes pre rest :: string
  assumes "reads left v t" "json_text v t" "ws_text w" "ws_text w'" "\<not> number_char c" "\<not> is_ws c"
  defines "Bs \<equiv> pre @ w @ t @ w' @ c # rest"
  shows "buffer_skip_whitespace Bs (length pre) = length pre + length w"
    "parse_value left always Bs (length pre + length w) = Parsed (item_of v) (length pre + length w + length t)"
    "buffer_skip_whitespace Bs (length pre + length w + length t) = length pre + length w + length t + length w'"
    "Bs ! (length pre + length w + length t + length w') = c"
proof -
  obtain x u where x: "t = x # u" "\<not> is_ws x" using json_text_hd [OF assms(2)] by blast
  show "buffer_skip_whitespace Bs (length pre) = length pre + length w"
    using skip_ws_text [OF assms(3) x(2), of pre "u @ w' @ c # rest"] by (simp add: Bs_def x(1))
  obtain d r' where "w' @ c # rest = d # r'" "\<not> number_char d" using ws_hd_not_number [OF assms(4,5)] by blast
  then show "parse_value left always Bs (length pre + length w) = Parsed (item_of v) (length pre + length w + length t)"
    using readsD [OF assms(1), of d "pre @ w" r'] by (simp add: Bs_def)
  show "buffer_skip_whitespace Bs (length pre + length w + length t) = length pre + length w + length t + length w'"
    using skip_ws_text [OF assms(4,6), of "pre @ w @ t" rest] by (simp add: Bs_def add.assoc)
  show "Bs ! (length pre + length w + length t + length w') = c"
    by (simp add: Bs_def nth_append)
qed

lemma array_loop_text:
  fixes pre rest :: string and x :: char
  assumes "elements_text vs t" "\<And>v u. v \<in> set vs \<Longrightarrow> json_text v u \<Longrightarrow> reads left v u" "length vs \<le> fuel"
  defines "Bs \<equiv> pre @ x # t @ CHR '']'' # rest"
  shows "array_loop fuel (parse_value left always Bs) always Bs (length pre) cs =
    Parsed (cs @ map item_of vs) (length pre + 1 + length t)"
  using assms(1-3) unfolding Bs_def
proof (induction vs arbitrary: t fuel pre x cs)
  case (Cons v vs)
  then obtain f where f: "fuel = Suc f" "length vs \<le> f" by (cases fuel) auto
  from Cons.prems(1) show ?case
  proof (cases rule: elements_text.cases)
    case (t_element w u w')
    note r = read_spaced [OF _ t_element(4,3,5), of left "CHR '']''" "pre @ [x]" rest]
    have "reads left v u" using Cons.prems(2) t_element(4) by simp
    from r [OF this] show ?thesis
      by (simp add: f(1) t_element(1,2) Let_def peek_def)
  next
    case (t_elements w u w' ts)
    have "reads left v u" using Cons.prems(2) t_elements(3) by simp
    note r = read_spaced [OF this t_elements(3,2,4), of "CHR '',''" "pre @ [x]" "ts @ CHR '']'' # rest"]
    have "array_loop f (parse_value left always ((pre @ x # w @ u @ w') @ CHR '','' # ts @ CHR '']'' # rest)) always
        ((pre @ x # w @ u @ w') @ CHR '','' # ts @ CHR '']'' # rest) (length (pre @ x # w @ u @ w')) (cs @ [item_of v]) =
      Parsed ((cs @ [item_of v]) @ map item_of vs) (length (pre @ x # w @ u @ w') + 1 + length ts)"
      using Cons.prems(2) t_elements(5) f(2) by (intro Cons.IH) auto
    then show ?thesis using r by (simp add: f(1) t_elements(1) Let_def peek_def add.assoc)
  qed
qed (auto elim: elements_text.cases)

text \<open>A member of an object: the name, the colon, the value.\<close>

lemma read_name:
  fixes pre rest :: string
  assumes "ws_text w" "str_text k kt" "ws_text w1"
  defines "Bs \<equiv> pre @ w @ CHR 0x22 # kt @ CHR 0x22 # w1 @ CHR '':'' # rest"
  shows "buffer_skip_whitespace Bs (length pre) = length pre + length w"
    "parse_string always Bs (length pre + length w) = Parsed (item_of (JStr k)) (length pre + length w + length kt + 2)"
    "buffer_skip_whitespace Bs (length pre + length w + length kt + 2) = length pre + length w + length kt + 2 + length w1"
    "Bs ! (length pre + length w + length kt + 2 + length w1) = CHR '':''"
proof -
  show "buffer_skip_whitespace Bs (length pre) = length pre + length w"
    using skip_ws_text [OF assms(1), of "CHR 0x22" pre] by (simp add: Bs_def)
  show "parse_string always Bs (length pre + length w) = Parsed (item_of (JStr k)) (length pre + length w + length kt + 2)"
    using parse_string_text [OF assms(2), of "pre @ w"] by (simp add: Bs_def)
  show "buffer_skip_whitespace Bs (length pre + length w + length kt + 2) = length pre + length w + length kt + 2 + length w1"
    using skip_ws_text [OF assms(3), of "CHR '':''" "pre @ w @ CHR 0x22 # kt @ [CHR 0x22]" rest] by (simp add: Bs_def add.assoc)
  show "Bs ! (length pre + length w + length kt + 2 + length w1) = CHR '':''"
    by (simp add: Bs_def nth_append)
qed

lemma object_step_text:
  fixes pre rest :: string and x :: char
  assumes "ws_text w" "str_text k kt" "ws_text w1" "ws_text w2" "json_text v t" "ws_text w3" "reads left v t"
    "\<not> number_char c" "\<not> is_ws c"
  defines "m \<equiv> w @ CHR 0x22 # kt @ CHR 0x22 # w1 @ CHR '':'' # w2 @ t @ w3"
  defines "Bs \<equiv> pre @ x # m @ c # rest"
  shows "object_loop (Suc f) (parse_value left always Bs) always Bs (length pre) cs =
    (let off = length pre + 1 + length m; cs = cs @ [set_key (Some k) (item_of v)]
     in if c = CHR '','' then object_loop f (parse_value left always Bs) always Bs off cs else Parsed cs off)"
proof -
  note n = read_name [OF assms(1-3), of "pre @ [x]" "w2 @ t @ w3 @ c # rest"]
  note v = read_spaced [OF assms(7,5,4,6,8,9), of "pre @ x # w @ CHR 0x22 # kt @ CHR 0x22 # w1 @ [CHR '':'']" rest]
  have "Bs = (pre @ [x]) @ w @ CHR 0x22 # kt @ CHR 0x22 # w1 @ CHR '':'' # w2 @ t @ w3 @ c # rest"
    "Bs = (pre @ x # w @ CHR 0x22 # kt @ CHR 0x22 # w1 @ [CHR '':'']) @ w2 @ t @ w3 @ c # rest"
    by (simp_all add: Bs_def m_def)
  note n = n [folded this(1)] and v = v [folded this(2)]
  have l: "length Bs = length pre + 1 + length m + 1 + length rest" by (simp add: Bs_def)
  have lm: "length m = length w + length kt + 2 + length w1 + 1 + length w2 + length t + length w3" by (simp add: m_def)
  show ?thesis
    using n v by (simp add: Let_def peek_def l lm add.assoc)
qed

lemma object_loop_text:
  fixes pre rest :: string and x :: char
  assumes "members_text ms t" "\<And>k v u. (k, v) \<in> set ms \<Longrightarrow> json_text v u \<Longrightarrow> reads left v u" "length ms \<le> fuel"
  defines "Bs \<equiv> pre @ x # t @ CHR 0x7D # rest"
  shows "object_loop fuel (parse_value left always Bs) always Bs (length pre) cs =
    Parsed (cs @ map (\<lambda>(k, v). set_key (Some k) (item_of v)) ms) (length pre + 1 + length t)"
  using assms(1-3) unfolding Bs_def
proof (induction ms arbitrary: t fuel pre x cs)
  case (Cons m ms)
  then obtain f where f: "fuel = Suc f" "length ms \<le> f" by (cases fuel) auto
  from Cons.prems(1) show ?case
  proof (cases rule: members_text.cases)
    case (t_member w k kt w1 w2 v u w3)
    have "reads left v u" using Cons.prems(2) t_member by auto
    then show ?thesis
      using object_step_text [of w k kt w1 w2 v u w3 left "CHR 0x7D" f pre x rest cs] t_member f(1)
      by (simp add: Let_def del: object_loop.simps)
  next
    case (t_members w k kt w1 w2 v u w3 ts)
    have "reads left v u" using Cons.prems(2) t_members by auto
    note step = object_step_text [OF t_members(3-8) this, of "CHR '',''" f pre x "ts @ CHR 0x7D # rest" cs]
    let ?pre = "pre @ x # w @ CHR 0x22 # kt @ CHR 0x22 # w1 @ CHR '':'' # w2 @ u @ w3"
    have "object_loop f (parse_value left always (?pre @ CHR '','' # ts @ CHR 0x7D # rest)) always
        (?pre @ CHR '','' # ts @ CHR 0x7D # rest) (length ?pre) (cs @ [set_key (Some k) (item_of v)]) =
      Parsed ((cs @ [set_key (Some k) (item_of v)]) @ map (\<lambda>(k, v). set_key (Some k) (item_of v)) ms)
        (length ?pre + 1 + length ts)"
      using Cons.prems(2) t_members(9) f(2) by (intro Cons.IH) auto
    then show ?thesis
      using step by (simp add: f(1) t_members(1,2) Let_def add.assoc del: object_loop.simps)
  qed
qed (auto elim: members_text.cases)

section \<open>Values\<close>

lemma parse_array_empty:
  assumes "ws_text w"
  shows "parse_array (Some pv) always (pre @ CHR ''['' # w @ CHR '']'' # rest) (length pre) =
    Parsed (list_item cJSON_Array []) (length pre + length w + 2)"
  using skip_ws_text [OF assms, of "CHR '']''" "pre @ [CHR ''['']" rest]
  by (simp add: parse_array_def peek_def nth_append Let_def)

lemma parse_object_empty:
  assumes "ws_text w"
  shows "parse_object (Some pv) always (pre @ CHR 0x7B # w @ CHR 0x7D # rest) (length pre) =
    Parsed (list_item cJSON_Object []) (length pre + length w + 2)"
  using skip_ws_text [OF assms, of "CHR 0x7D" "pre @ [CHR 0x7B]" rest]
  by (simp add: parse_object_def peek_def nth_append Let_def)

text \<open>
  The loop starts one character before the first element, so that the white space in front of it is not read
  again.
\<close>

lemma snoc_split: "\<exists>pre' x. pre @ b # w = pre' @ [x] \<and> length pre' = length pre + length w"
  using rev_exhaust [of "pre @ b # w"] by (metis Nil_is_append_conv length_append length_append_singleton list.distinct(1)
      list.size(4) add_Suc_right nat.inject One_nat_def add.right_neutral)

lemma parse_array_text:
  fixes pre rest :: string
  assumes "elements_text vs t" "\<And>v u. v \<in> set vs \<Longrightarrow> json_text v u \<Longrightarrow> reads left v u"
  defines "Bs \<equiv> pre @ CHR ''['' # t @ CHR '']'' # rest"
  shows "parse_array (Some (parse_value left always Bs)) always Bs (length pre) =
    Parsed (list_item cJSON_Array (map item_of vs)) (length pre + length t + 2)"
proof -
  obtain w c u where t: "t = w @ c # u" "ws_text w" "\<not> is_ws c" "c \<noteq> CHR '']''" "elements_text vs (c # u)"
    using elements_begin [OF assms(1)] by (auto simp: begins_def)
  obtain pre' x where p: "pre @ CHR ''['' # w = pre' @ [x]" "length pre' = length pre + length w"
    using snoc_split [of pre "CHR ''[''" w] by auto
  have b: "Bs = pre' @ x # (c # u) @ CHR '']'' # rest"
  proof -
    have "Bs = (pre @ CHR ''['' # w) @ (c # u) @ CHR '']'' # rest" by (simp add: Bs_def t(1))
    then show ?thesis unfolding p(1) by simp
  qed
  have l: "array_loop (length Bs) (parse_value left always Bs) always Bs (length pre') [] =
      Parsed (map item_of vs) (length pre' + 1 + length (c # u))"
  proof -
    have n: "length vs \<le> length Bs" using elements_length [OF t(5)] by (simp add: b)
    have "array_loop n (parse_value left always Bs) always Bs (length pre') [] =
        Parsed ([] @ map item_of vs) (length pre' + 1 + length (c # u))" if "length vs \<le> n" for n
      unfolding b by (rule array_loop_text [OF t(5) _ that]) (rule assms(2))
    from this [OF n] show ?thesis by (simp only: append_Nil)
  qed
  have s: "buffer_skip_whitespace Bs (length pre + 1) = length pre' + 1"
    using skip_ws_text [OF t(2,3), of "pre @ [CHR ''['']" "u @ CHR '']'' # rest"] by (simp add: Bs_def t(1) p(2))
  have q: "peek Bs (length pre) = Some (CHR ''['')" by (simp add: Bs_def peek_def nth_append)
  have q': "peek Bs (length pre' + 1) = Some c" "length pre' + 1 < length Bs"
    "peek Bs (length pre' + 1 + length (c # u)) = Some (CHR '']'')"
    by (simp_all add: b peek_def nth_append)
  show ?thesis
    using l s q q' t(4) by (simp add: parse_array_def Let_def t(1) p(2))
qed

lemma parse_object_text:
  fixes pre rest :: string
  assumes "members_text ms t" "\<And>k v u. (k, v) \<in> set ms \<Longrightarrow> json_text v u \<Longrightarrow> reads left v u"
  defines "Bs \<equiv> pre @ CHR 0x7B # t @ CHR 0x7D # rest"
  shows "parse_object (Some (parse_value left always Bs)) always Bs (length pre) =
    Parsed (item_of (JObj ms)) (length pre + length t + 2)"
proof -
  obtain w c u where t: "t = w @ c # u" "ws_text w" "\<not> is_ws c" "c \<noteq> CHR 0x7D" "members_text ms (c # u)"
    using members_begin [OF assms(1)] by (auto simp: begins_def)
  obtain pre' x where p: "pre @ CHR 0x7B # w = pre' @ [x]" "length pre' = length pre + length w"
    using snoc_split [of pre "CHR 0x7B" w] by auto
  have b: "Bs = pre' @ x # (c # u) @ CHR 0x7D # rest"
  proof -
    have "Bs = (pre @ CHR 0x7B # w) @ (c # u) @ CHR 0x7D # rest" by (simp add: Bs_def t(1))
    then show ?thesis unfolding p(1) by simp
  qed
  have l: "object_loop (length Bs) (parse_value left always Bs) always Bs (length pre') [] =
      Parsed (map (\<lambda>(k, v). set_key (Some k) (item_of v)) ms) (length pre' + 1 + length (c # u))"
  proof -
    have n: "length ms \<le> length Bs" using members_length [OF t(5)] by (simp add: b)
    have "object_loop n (parse_value left always Bs) always Bs (length pre') [] =
        Parsed ([] @ map (\<lambda>(k, v). set_key (Some k) (item_of v)) ms) (length pre' + 1 + length (c # u))"
      if "length ms \<le> n" for n
      unfolding b by (rule object_loop_text [OF t(5) _ that]) (rule assms(2))
    from this [OF n] show ?thesis by (simp only: append_Nil)
  qed
  have s: "buffer_skip_whitespace Bs (length pre + 1) = length pre' + 1"
    using skip_ws_text [OF t(2,3), of "pre @ [CHR 0x7B]" "u @ CHR 0x7D # rest"] by (simp add: Bs_def t(1) p(2))
  have q: "peek Bs (length pre) = Some (CHR 0x7B)" by (simp add: Bs_def peek_def nth_append)
  have q': "peek Bs (length pre' + 1) = Some c" "length pre' + 1 < length Bs"
    "peek Bs (length pre' + 1 + length (c # u)) = Some (CHR 0x7D)"
    by (simp_all add: b peek_def nth_append)
  show ?thesis
    using l s q q' t(4) by (simp add: parse_object_def Let_def t(1) p(2))
qed

lemma json_text_reads:
  "json_text v t \<Longrightarrow> fits left v \<Longrightarrow> reads left v t"
proof (induction v arbitrary: t left)
  case JNull
  then have "t = ''null''" by (auto elim: json_text.cases)
  then show ?case using starts_with_append [of _ "''null''"]
    by (simp add: reads_def parse_value_step value_step_def del: append_Cons)
next
  case (JBool b)
  then have "t = (if b then ''true'' else ''false'')" by (auto elim: json_text.cases)
  then show ?case using starts_with_append [of _ "''true''"] starts_with_append [of _ "''false''"] keyword_heads
    by (cases b) (simp_all add: reads_def parse_value_step value_step_def del: append_Cons)
next
  case (JNum n)
  then have t: "t = n" "number_text n" "length n \<le> 63" by (auto elim: json_text.cases)
  obtain c u where c: "n = c # u" "c = CHR ''-'' \<or> isdigit c" using number_head [OF t(2)] by blast
  then have "c \<notin> {CHR ''n'', CHR ''f'', CHR ''t''}" "c \<noteq> CHR 0x22" using isdigit_not_ws [of c] by auto
  then show ?case
    using value_step_head [of c] parse_number_text [OF t(2,3)] c(2)
    by (simp add: reads_def t(1) parse_value_step c(1))
next
  case (JStr s)
  then obtain u where u: "t = CHR 0x22 # u @ [CHR 0x22]" "str_text s u" by (auto elim: json_text.cases)
  then show ?case
    using value_step_head [of "CHR 0x22"] parse_string_text [OF u(2)] by (simp add: reads_def parse_value_step)
next
  case (JArr vs)
  then obtain l where l: "left = Suc l" "\<forall>v\<in>set vs. fits l v" by (cases left) auto
  have r: "v \<in> set vs \<Longrightarrow> json_text v u \<Longrightarrow> reads l v u" for v u using JArr(1) l(2) by blast
  have st: "parse_value left always (pre @ CHR ''['' # u) (length pre) =
      parse_array (Some (parse_value l always (pre @ CHR ''['' # u))) always (pre @ CHR ''['' # u) (length pre)" for pre u
    using value_step_head [of "CHR ''[''"] by (simp add: parse_value_step [of left] l(1) isdigit_def)
  from JArr(2) show ?case
  proof (cases rule: json_text.cases)
    case (t_empty_array w)
    then show ?thesis using parse_array_empty [OF t_empty_array(3)] by (simp add: reads_def st)
  next
    case (t_array u)
    then show ?thesis using parse_array_text [OF t_array(2) r] by (simp add: reads_def st)
  qed
next
  case (JObj ms)
  then obtain l where l: "left = Suc l" "\<forall>(k, v)\<in>set ms. fits l v" by (cases left) auto
  have r: "(k, v) \<in> set ms \<Longrightarrow> json_text v u \<Longrightarrow> reads l v u" for k v u using JObj(1) l(2) by fastforce
  have st: "parse_value left always (pre @ CHR 0x7B # u) (length pre) =
      parse_object (Some (parse_value l always (pre @ CHR 0x7B # u))) always (pre @ CHR 0x7B # u) (length pre)" for pre u
    using value_step_head [of "CHR 0x7B"] by (simp add: parse_value_step [of left] l(1) isdigit_def)
  from JObj(2) show ?case
  proof (cases rule: json_text.cases)
    case (t_empty_object w)
    then show ?thesis using parse_object_empty [OF t_empty_object(3)] by (simp add: reads_def st)
  next
    case (t_object u)
    then show ?thesis using parse_object_text [OF t_object(2) r] by (simp add: reads_def st)
  qed
qed

section \<open>Texts\<close>

lemma skip_bom_or_not:
  assumes "json_text v t" "ws_text w"
  shows "skip_utf8_bom (w @ t @ r) = 0" "skip_utf8_bom (utf8_bom @ w @ t @ r @ [c]) = 3"
proof -
  have h: "\<exists>c u. t = c # u \<and> c \<noteq> CHR 0xEF"
    using assms(1)
  proof (cases rule: json_text.cases)
    case t_number
    then show ?thesis using number_head by (fastforce simp: isdigit_def)
  qed auto
  then show "skip_utf8_bom (w @ t @ r) = 0"
    using assms(2) by (cases w) (auto simp: skip_utf8_bom_def utf8_bom_def ws_text_def)
  show "skip_utf8_bom (utf8_bom @ w @ t @ r @ [c]) = 3"
    using h by (auto simp: skip_utf8_bom_def utf8_bom_def)
qed

lemma cjson_reads_text:
  assumes "json_text v t" "fits CJSON_NESTING_LIMIT v" "ws_text w" "bom \<in> {[], utf8_bom}" "rest = [] \<or> \<not> number_char (hd rest)"
  shows "cJSON_Parse True always (Some (bom @ w @ t @ rest)) = Some (item_of v)"
proof -
  let ?Bs = "bom @ w @ t @ rest @ [CHR 0x00]"
  obtain c u where c: "t = c # u" "\<not> is_ws c" using json_text_hd [OF assms(1)] by blast
  have "skip_utf8_bom ?Bs = length bom"
    using assms(4) skip_bom_or_not [OF assms(1,3)] by (auto simp: utf8_bom_def)
  moreover have "buffer_skip_whitespace ?Bs (length bom) = length (bom @ w)"
    using skip_ws_text [OF assms(3) c(2), of bom] by (simp add: c(1))
  moreover have "parse_value CJSON_NESTING_LIMIT always ((bom @ w) @ t @ rest @ [CHR 0x00]) (length (bom @ w)) =
      Parsed (item_of v) (length (bom @ w) + length t)"
  proof -
    have "rest @ [CHR 0x00] \<noteq> [] \<and> \<not> number_char (hd (rest @ [CHR 0x00]))" using assms(5) by (cases rest) simp_all
    then show ?thesis using json_text_reads [OF assms(1,2)] unfolding reads_def by blast
  qed
  ultimately show ?thesis
    using c(1) by (simp add: cJSON_Parse_def cJSON_ParseWithOpts_def cJSON_ParseWithLengthOpts_def Let_def)
qed

text \<open>
  C8. Every JSON text, with white space or a byte order mark in front, nested at most 1000 deep, is read as the value
  it stands for. What follows it is not looked at, unless it continues a number.
\<close>

theorem cjson_parse_reads:
  assumes "json_text v t" "fits CJSON_NESTING_LIMIT v" "ws_text w" "bom \<in> {[], utf8_bom}" "rest = [] \<or> \<not> number_char (hd rest)"
  shows "cJSON_Parse True always (Some (bom @ w @ t @ rest)) = Some (item_of v)"
  using assms by (rule cjson_reads_text)

theorem cjson_parse_reads_witness:
  "cJSON_Parse True always (Some (CHR 0x7B # CHR 0x22 # ''a'' @ CHR 0x22 # '': [1, true]'' @ CHR 0x7D # '' junk'')) =
    Some (item_of (JObj [(''a'', JArr [JNum ''1'', JBool True])]))"
proof -
  have "number_text ''1''"
    unfolding number_text_def
    by (intro exI [of _ "[]"] exI [of _ "''1''"]) (simp add: digits_text_def fraction_text_def exponent_text_def isdigit_def)
  then have n: "json_text (JNum ''1'') ''1''" by (intro t_number) simp_all
  have w: "ws_text []" "ws_text '' ''" by (simp_all add: ws_text_def)
  have "elements_text [JNum ''1'', JBool True] ([] @ ''1'' @ [] @ CHR '','' # '' '' @ ''true'' @ [])"
    by (intro t_elements t_element n t_true w)
  then have "json_text (JArr [JNum ''1'', JBool True]) (CHR ''['' # ([] @ ''1'' @ [] @ CHR '','' # '' '' @ ''true'' @ []) @ [CHR '']''])"
    by (rule t_array)
  then have m: "members_text [(''a'', JArr [JNum ''1'', JBool True])]
      ([] @ CHR 0x22 # ''a'' @ CHR 0x22 # [] @ CHR '':'' # '' '' @
       (CHR ''['' # ([] @ ''1'' @ [] @ CHR '','' # '' '' @ ''true'' @ []) @ [CHR '']'']) @ [])"
    by (intro t_member w str_plain str_nil) simp_all
  have f: "fits CJSON_NESTING_LIMIT (JObj [(''a'', JArr [JNum ''1'', JBool True])])"
    unfolding CJSON_NESTING_LIMIT_def by (simp add: eval_nat_numeral split: nat.split)
  from cjson_parse_reads [OF t_object [OF m] f w(1), of "[]" "'' junk''"] show ?thesis
    by (simp add: number_char_def isdigit_def)
qed

section \<open>Writing values\<close>

text \<open>One text of a value, without white space, for values whose strings need no escapes.\<close>

fun render :: "json \<Rightarrow> string" and render_elements :: "json list \<Rightarrow> string" and
    render_members :: "(string \<times> json) list \<Rightarrow> string" where
  "render JNull = ''null''"
| "render (JBool b) = (if b then ''true'' else ''false'')"
| "render (JNum n) = n"
| "render (JStr s) = CHR 0x22 # s @ [CHR 0x22]"
| "render (JArr vs) = CHR ''['' # render_elements vs @ [CHR '']'']"
| "render (JObj ms) = CHR 0x7B # render_members ms @ [CHR 0x7D]"
| "render_elements [] = []"
| "render_elements (v # vs) = render v @ (if vs = [] then [] else CHR '','' # render_elements vs)"
| "render_members [] = []"
| "render_members (m # ms) = CHR 0x22 # fst m @ CHR 0x22 # CHR '':'' # render (snd m) @
     (if ms = [] then [] else CHR '','' # render_members ms)"

definition plain_string :: "string \<Rightarrow> bool" where
  "plain_string s \<longleftrightarrow> (\<forall>c\<in>set s. c \<notin> {CHR 0x00, CHR 0x22, CHR 0x5C})"

fun plain :: "json \<Rightarrow> bool" where
  "plain (JNum n) = (number_text n \<and> length n \<le> 63)"
| "plain (JStr s) = plain_string s"
| "plain (JArr vs) = (\<forall>v\<in>set vs. plain v)"
| "plain (JObj ms) = (\<forall>(k, v)\<in>set ms. plain_string k \<and> plain v)"
| "plain v = True"

lemma plain_string_text: "plain_string s \<Longrightarrow> str_text s s"
  by (induction s) (auto simp: plain_string_def intro: str_nil str_plain)

lemma number_text_digits: "digits_text ds \<Longrightarrow> (hd ds = CHR ''0'' \<longrightarrow> ds = ''0'') \<Longrightarrow> number_text ds"
  unfolding number_text_def
  by (intro exI [of _ "[]"] exI [of _ ds]) (simp add: fraction_text_def exponent_text_def)

lemma render_text:
  "plain v \<Longrightarrow> json_text v (render v)"
  "(\<forall>v\<in>set vs. plain v) \<Longrightarrow> vs \<noteq> [] \<Longrightarrow> elements_text vs (render_elements vs)"
  "(\<forall>(k, v)\<in>set ms. plain_string k \<and> plain v) \<Longrightarrow> ms \<noteq> [] \<Longrightarrow> members_text ms (render_members ms)"
proof (induction v and vs and ms rule: render_render_elements_render_members.induct)
  case (5 vs)
  then show ?case using t_array t_empty_array [of "[]"] by (cases "vs = []") auto
next
  case (6 ms)
  then show ?case using t_object t_empty_object [of "[]"] by (cases "ms = []") auto
next
  case (8 v vs)
  then show ?case using t_element [of "[]" v "render v" "[]"] t_elements [of "[]" v "render v" "[]"] by auto
next
  case (10 m ms)
  then show ?case
    using t_member [of "[]" "fst m" "fst m" "[]" "[]" "snd m" "render (snd m)" "[]"]
      t_members [of "[]" "fst m" "fst m" "[]" "[]" "snd m" "render (snd m)" "[]"] plain_string_text
    by (cases m) auto
qed (auto intro: t_null t_true t_false t_number t_string plain_string_text)

end
