(* ===== verification/Thread_Group.thy ===== *)
theory Thread_Group
  imports Thread_Sync
begin

text \<open>
  Thread groups and their manager, \<^verbatim>\<open>src/Common/ThreadGroup.c\<close>: creation and starting as functions, the
  monitors of the groups and the thread that waits for them as a system of threads.
\<close>

section \<open>Creation\<close>

record tg_group =
  GroupId :: u64
  ThreadCount :: u64
  Completed :: bool
  SharedData :: addr
  HasCleanup :: bool
  Tasks :: "nat list"

record tg_manager =
  Groups :: "tg_group option list"
  GroupCount :: u64
  CompletedCount :: u64
  MMutex :: sdb_mutex
  MCond :: sdb_cond

definition sizeof_tg_manager :: u64 where "sizeof_tg_manager = 112"
definition sizeof_tg_group :: u64 where "sizeof_tg_group = 64"
definition sizeof_pointer :: u64 where "sizeof_pointer = 8"

text \<open>
  With an arena the manager is written to before it is compared with NULL; without one, \<open>malloc\<close> says whether
  the memory is there. The arena is returned.
\<close>

definition TgCreateManager ::
  "tg_group list \<Rightarrow> u64 \<Rightarrow> sdb_arena option \<Rightarrow> bool \<Rightarrow> (tg_manager option \<times> sdb_arena option) res" where
  "TgCreateManager Gs Count A malloc_ok =
     (let M = \<lparr>Groups = map Some (take (unat Count) Gs), GroupCount = Count, CompletedCount = 0, MMutex = None, MCond = []\<rparr>
      in case A of
           Some A \<Rightarrow>
             (let (Manager, A) = SdbArenaPush A sizeof_tg_manager;
                  (GroupsPtr, A) = SdbArenaPush A (Count * sizeof_pointer)
              in if Manager = NULL then Inl NullDeref
                 else if GroupsPtr = NULL then Inr (None, Some A)
                 else Inr (Some M, Some A))
         | None \<Rightarrow> if \<not> malloc_ok then Inr (None, None) else Inr (Some M, None))"

definition TgCreateGroup ::
  "u64 \<Rightarrow> u64 \<Rightarrow> addr \<Rightarrow> addr option \<Rightarrow> nat list \<Rightarrow> bool \<Rightarrow> sdb_arena option \<Rightarrow> bool \<Rightarrow> tg_group option \<times> sdb_arena option" where
  "TgCreateGroup Ident Count Shared Init TaskList Cleanup A malloc_ok =
     (let G = \<lparr>GroupId = Ident, ThreadCount = Count, Completed = False,
               SharedData = (case Init of Some d \<Rightarrow> (if Shared = NULL then d else Shared) | None \<Rightarrow> Shared),
               HasCleanup = Cleanup, Tasks = take (unat Count) TaskList\<rparr>
      in case A of
           Some A \<Rightarrow>
             (let (Group, A) = SdbArenaPush A sizeof_tg_group
              in if Group = NULL then (None, Some A)
                 else (let (Threads, A) = SdbArenaPush A (Count * sizeof_pointer)
                       in if Threads = NULL then (None, Some A)
                          else (let (TasksPtr, A) = SdbArenaPush A (Count * sizeof_pointer)
                                in if TasksPtr = NULL then (None, Some A) else (Some G, Some A))))
         | None \<Rightarrow> if \<not> malloc_ok then (None, None) else (Some G, None))"

definition TgDestroyManager :: "addr \<Rightarrow> addr list" where
  "TgDestroyManager M = (if M \<noteq> NULL then [M] else [])"

section \<open>Starting\<close>

text \<open>
  What starting a group does, in order, the answers of \<^verbatim>\<open>pthread_create\<close> being given: threads created, joined, the
  cleanup, the monitor.
\<close>

datatype tg_action = Create nat | Join nat | RunCleanup | StartMonitor

fun start_threads :: "nat \<Rightarrow> nat \<Rightarrow> bool \<Rightarrow> (nat \<Rightarrow> int) \<Rightarrow> int \<times> tg_action list" where
  "start_threads 0 i cleanup create = (0, [])"
| "start_threads (Suc k) i cleanup create =
     (if create i \<noteq> 0
      then (- create i, map Join [0..<i] @ (if cleanup then [RunCleanup] else []))
      else (let (r, as) = start_threads k (Suc i) cleanup create in (r, Create i # as)))"

definition TgStartGroup :: "tg_group \<Rightarrow> (nat \<Rightarrow> int) \<Rightarrow> int \<Rightarrow> int \<times> tg_action list" where
  "TgStartGroup Group create monitor =
     (let (Ret, as) = start_threads (unat (ThreadCount Group)) 0 (HasCleanup Group) create
      in if Ret \<noteq> 0 then (Ret, as)
         else if monitor \<noteq> 0 then (- monitor, as) else (0, as @ [StartMonitor]))"

text \<open>Starting all groups stops at the first that fails; the others stay as they are.\<close>

fun TgManagerStartAll :: "tg_group list \<Rightarrow> (nat \<Rightarrow> nat \<Rightarrow> int) \<Rightarrow> (nat \<Rightarrow> int) \<Rightarrow> nat \<Rightarrow> int \<times> tg_action list list" where
  "TgManagerStartAll [] create monitor g = (0, [])"
| "TgManagerStartAll (G # Gs) create monitor g =
     (let (Ret, as) = TgStartGroup G (create g) (monitor g)
      in if Ret \<noteq> 0 then (Ret, [as])
         else (let (Ret, ass) = TgManagerStartAll Gs create monitor (Suc g) in (Ret, as # ass)))"

lemma start_threads_all:
  assumes "\<forall>j<k. create (i + j) = 0"
  shows "start_threads k i c create = (0, map Create [i..<i + k])"
  using assms
proof (induction k arbitrary: i)
  case (Suc k)
  have "\<forall>j<k. create (Suc i + j) = 0" using Suc.prems by (metis Suc_less_eq add_Suc_shift)
  moreover have "create i = 0" using Suc.prems by (metis add.right_neutral zero_less_Suc)
  moreover have "[i..<i + Suc k] = i # [Suc i..<Suc i + k]" by (simp add: upt_rec)
  ultimately show ?case using Suc.IH [of "Suc i"] by simp
qed simp

lemma start_threads_fail:
  assumes "f < k" "\<forall>j<f. create (i + j) = 0" "create (i + f) \<noteq> 0"
  shows "start_threads k i c create =
    (- create (i + f), map Create [i..<i + f] @ map Join [0..<i + f] @ (if c then [RunCleanup] else []))"
  using assms
proof (induction k arbitrary: i f)
  case (Suc k)
  show ?case
  proof (cases f)
    case 0
    then show ?thesis using Suc.prems by simp
  next
    case (Suc f')
    then have "\<forall>j<f'. create (Suc i + j) = 0" using Suc.prems(2) by (metis Suc_less_eq add_Suc_shift)
    moreover have "create i = 0" using Suc.prems(2) Suc by (metis add.right_neutral zero_less_Suc)
    moreover have "[i..<i + f] = i # [Suc i..<Suc i + f']" using Suc by (simp add: upt_rec)
    moreover have "create (Suc i + f') \<noteq> 0" "f' < k" using Suc.prems Suc by simp_all
    ultimately show ?thesis using Suc.IH [of f' "Suc i"] Suc by simp
  qed
qed simp

text \<open>
  Starting a group either creates all its threads in order and then the monitor, or, when the thread
  \<open>f\<close> is the first that cannot be created, creates those before it, joins exactly these and
  cleans up.
\<close>

theorem tg_start_group:
  assumes "unat (ThreadCount G) = k"
  shows "((\<forall>j<k. create j = 0) \<longrightarrow> TgStartGroup G create 0 = (0, map Create [0..<k] @ [StartMonitor])) \<and>
    (f < k \<and> (\<forall>j<f. create j = 0) \<and> create f \<noteq> 0 \<longrightarrow>
      TgStartGroup G create mon =
        (- create f, map Create [0..<f] @ map Join [0..<f] @ (if HasCleanup G then [RunCleanup] else [])))"
  using assms start_threads_all [of k create 0] start_threads_fail [of f k create 0]
  by (auto simp: TgStartGroup_def)

definition example_group :: tg_group where
  "example_group = \<lparr>GroupId = 0, ThreadCount = 3, Completed = False, SharedData = 8, HasCleanup = True, Tasks = [0, 1, 2]\<rparr>"

theorem tg_start_group_witness:
  "TgStartGroup example_group (\<lambda>i. if i = 2 then 11 else 0) 0 = (- 11, [Create 0, Create 1, Join 0, Join 1, RunCleanup])"
proof -
  have "unat (ThreadCount example_group) = 3" "HasCleanup example_group" by (simp_all add: example_group_def)
  moreover have "[0..<2] = [0, 1]" by (simp add: upt_rec)
  ultimately show ?thesis using tg_start_group [of example_group 3 "\<lambda>i. if i = 2 then 11 else 0" 2 0] by simp
qed

section \<open>The monitors and the waiting thread\<close>

text \<open>
  Where a monitor is (\<^verbatim>\<open>TgMonitor\<close>: joining thread \<open>k\<close>, cleaning up, before the mutex, counting, signalling,
  unlocking) and where the thread in \<^verbatim>\<open>TgManagerWaitForAll\<close> is.
\<close>

datatype mon_pc = MJoin nat | MClean | MLock | MBody | MSignal | MUnlock | MDone
datatype wait_pc = WLock | WTest | WQueue | WWoken | WScan | WFinish | WReturned

text \<open>
  \<open>Owner\<close> is 0 for the waiting thread and \<open>Suc g\<close> for the monitor of group \<open>g\<close>; \<open>Forced\<close> records that the
  count was set because of a shutdown; \<open>Ended\<close> and \<open>Cleaned\<close> are the threads that have ended and
  the groups whose cleanup has run.
\<close>

record tg_sys =
  Count :: nat
  Done :: "nat set"
  Slots :: "nat set"
  Mon :: "nat \<Rightarrow> mon_pc"
  WPc :: wait_pc
  Owner :: "nat option"
  Shut :: bool
  Forced :: bool
  Ended :: "(nat \<times> nat) set"
  Cleaned :: "nat set"

datatype tg_act = ThreadEnds nat nat | RunMonitor nat | RunWaiter | WakeUp | RequestShutdown

fun monitor_step :: "(nat \<Rightarrow> nat) \<Rightarrow> nat \<Rightarrow> tg_sys \<Rightarrow> tg_sys option" where
  "monitor_step threads g s =
     (case Mon s g of
        MJoin k \<Rightarrow>
          if k < threads g then (if (g, k) \<in> Ended s then Some (s\<lparr>Mon := (Mon s)(g := MJoin (Suc k))\<rparr>) else None)
          else Some (s\<lparr>Mon := (Mon s)(g := MClean)\<rparr>)
      | MClean \<Rightarrow> Some (s\<lparr>Cleaned := insert g (Cleaned s), Mon := (Mon s)(g := MLock)\<rparr>)
      | MLock \<Rightarrow> if Owner s = None then Some (s\<lparr>Owner := Some (Suc g), Mon := (Mon s)(g := MBody)\<rparr>) else None
      | MBody \<Rightarrow> Some (s\<lparr>Done := insert g (Done s), Count := Suc (Count s), Mon := (Mon s)(g := MSignal)\<rparr>)
      | MSignal \<Rightarrow> Some (s\<lparr>WPc := (if WPc s = WQueue then WWoken else WPc s), Mon := (Mon s)(g := MUnlock)\<rparr>)
      | MUnlock \<Rightarrow> Some (s\<lparr>Owner := None, Mon := (Mon s)(g := MDone)\<rparr>)
      | MDone \<Rightarrow> None)"

fun waiter_step :: "nat \<Rightarrow> tg_sys \<Rightarrow> tg_sys option" where
  "waiter_step n s =
     (case WPc s of
        WLock \<Rightarrow> if Owner s = None then Some (s\<lparr>Owner := Some 0, WPc := WTest\<rparr>) else None
      | WTest \<Rightarrow> if Count s < n \<and> \<not> Shut s then Some (s\<lparr>Owner := None, WPc := WQueue\<rparr>) else Some (s\<lparr>WPc := WFinish\<rparr>)
      | WQueue \<Rightarrow> None
      | WWoken \<Rightarrow> if Owner s = None then Some (s\<lparr>Owner := Some 0, WPc := WScan\<rparr>) else None
      | WScan \<Rightarrow> Some (s\<lparr>Slots := Slots s - Done s, WPc := WTest\<rparr>)
      | WFinish \<Rightarrow>
          Some (s\<lparr>Count := (if Shut s then n else Count s), Forced := (Forced s \<or> Shut s), Owner := None, WPc := WReturned\<rparr>)
      | WReturned \<Rightarrow> None)"

text \<open>The timed wait may end at any time, with the deadline or without a reason.\<close>

fun tg_next :: "nat \<Rightarrow> (nat \<Rightarrow> nat) \<Rightarrow> tg_act \<Rightarrow> tg_sys \<Rightarrow> tg_sys option" where
  "tg_next n threads (ThreadEnds g t) s = Some (s\<lparr>Ended := insert (g, t) (Ended s)\<rparr>)"
| "tg_next n threads (RunMonitor g) s = (if g < n then monitor_step threads g s else None)"
| "tg_next n threads RunWaiter s = waiter_step n s"
| "tg_next n threads WakeUp s = (if WPc s = WQueue then Some (s\<lparr>WPc := WWoken\<rparr>) else None)"
| "tg_next n threads RequestShutdown s = Some (s\<lparr>Shut := True\<rparr>)"

definition tg_start :: "nat \<Rightarrow> tg_sys" where
  "tg_start n = \<lparr>Count = 0, Done = {}, Slots = {..<n}, Mon = (\<lambda>_. MJoin 0), WPc = WLock, Owner = None, Shut = False,
     Forced = False, Ended = {}, Cleaned = {}\<rparr>"

fun tg_run :: "nat \<Rightarrow> (nat \<Rightarrow> nat) \<Rightarrow> tg_act list \<Rightarrow> tg_sys \<Rightarrow> tg_sys option" where
  "tg_run n threads [] s = Some s"
| "tg_run n threads (a # as) s = (case tg_next n threads a s of None \<Rightarrow> None | Some s \<Rightarrow> tg_run n threads as s)"

inductive tg_reach :: "nat \<Rightarrow> (nat \<Rightarrow> nat) \<Rightarrow> tg_sys \<Rightarrow> bool" for n threads where
  start: "tg_reach n threads (tg_start n)"
| step: "\<lbrakk>tg_reach n threads s; tg_next n threads a s = Some t\<rbrakk> \<Longrightarrow> tg_reach n threads t"

lemma tg_reach_run: "tg_reach n threads s \<Longrightarrow> tg_run n threads as s = Some t \<Longrightarrow> tg_reach n threads t"
  by (induction as arbitrary: s) (auto split: option.splits intro: tg_reach.step)

section \<open>Invariants\<close>

text \<open>What a monitor has done by the point it is at: threads joined, cleanup, counting.\<close>

fun joined :: "nat \<Rightarrow> mon_pc \<Rightarrow> nat" where
  "joined k (MJoin j) = j"
| "joined k _ = k"

fun has_cleaned :: "mon_pc \<Rightarrow> bool" where
  "has_cleaned (MJoin _) = False"
| "has_cleaned MClean = False"
| "has_cleaned _ = True"

fun counted :: "mon_pc \<Rightarrow> bool" where
  "counted MSignal = True"
| "counted MUnlock = True"
| "counted MDone = True"
| "counted _ = False"

definition mon_inv :: "nat \<Rightarrow> (nat \<Rightarrow> nat) \<Rightarrow> tg_sys \<Rightarrow> bool" where
  "mon_inv n threads s \<longleftrightarrow>
     (\<forall>g t. t < joined (threads g) (Mon s g) \<longrightarrow> (g, t) \<in> Ended s) \<and>
     (\<forall>g. has_cleaned (Mon s g) \<longrightarrow> g \<in> Cleaned s) \<and>
     (\<forall>g. counted (Mon s g) \<longleftrightarrow> g \<in> Done s) \<and> Done s \<subseteq> {..<n}"

definition wait_inv :: "nat \<Rightarrow> tg_sys \<Rightarrow> bool" where
  "wait_inv n s \<longleftrightarrow> (\<not> Forced s \<longrightarrow> Count s = card (Done s)) \<and> (Forced s \<longrightarrow> Shut s) \<and>
     (WPc s = WFinish \<longrightarrow> n \<le> Count s \<or> Shut s) \<and>
     (WPc s = WReturned \<longrightarrow> Forced s \<or> n \<le> Count s)"

text \<open>Monitors that have not started keep the facts of the start: \<open>threads\<close> of a group without monitor is 0 joined.\<close>

lemma tg_start_inv: "mon_inv n threads (tg_start n)" "wait_inv n (tg_start n)"
  by (simp_all add: mon_inv_def wait_inv_def tg_start_def)

lemma monitor_step_mon_inv:
  assumes "mon_inv n threads s" "g < n" "monitor_step threads g s = Some s'"
  shows "mon_inv n threads s'"
proof -
  have "counted (Mon s g) \<longleftrightarrow> g \<in> Done s" using assms(1) by (simp add: mon_inv_def)
  then show ?thesis
    using assms by (cases "Mon s g") (auto simp: mon_inv_def less_Suc_eq split: if_splits)
qed

lemma tg_next_mon_inv:
  assumes "mon_inv n threads s" "tg_next n threads a s = Some s'"
  shows "mon_inv n threads s'"
proof (cases a)
  case (RunMonitor g)
  then show ?thesis using assms monitor_step_mon_inv by (auto split: if_splits)
next
  case RunWaiter
  then show ?thesis using assms by (auto simp: mon_inv_def split: wait_pc.splits if_splits)
qed (use assms in \<open>auto simp: mon_inv_def split: if_splits\<close>)

lemma monitor_step_wait_inv:
  assumes "mon_inv n threads s" "wait_inv n s" "g < n" "monitor_step threads g s = Some s'"
  shows "wait_inv n s'"
proof -
  have f: "finite (Done s)" using assms(1) by (auto simp: mon_inv_def intro: finite_subset)
  have "counted (Mon s g) \<longleftrightarrow> g \<in> Done s" using assms(1) by (simp add: mon_inv_def)
  then have "Mon s g = MBody \<Longrightarrow> g \<notin> Done s" by auto
  then have b: "Mon s g = MBody \<Longrightarrow> card (insert g (Done s)) = Suc (card (Done s))" using f by simp
  have w: "\<not> Forced s \<Longrightarrow> Count s = card (Done s)" "Forced s \<Longrightarrow> Shut s" "WPc s = WFinish \<Longrightarrow> n \<le> Count s \<or> Shut s"
    "WPc s = WReturned \<Longrightarrow> Forced s \<or> n \<le> Count s"
    using assms(2) by (simp_all add: wait_inv_def)
  show ?thesis
  proof (cases "Mon s g")
    case MBody
    then show ?thesis using assms(3,4) b w unfolding wait_inv_def by (auto simp: le_SucI)
  qed (use assms(3,4) w in \<open>auto simp: wait_inv_def split: if_splits\<close>)
qed

lemma tg_next_wait_inv:
  assumes "mon_inv n threads s" "wait_inv n s" "tg_next n threads a s = Some s'"
  shows "wait_inv n s'"
proof (cases a)
  case (RunMonitor g)
  then show ?thesis using assms monitor_step_wait_inv by (auto split: if_splits)
next
  case RunWaiter
  then show ?thesis using assms(2,3) by (auto simp: wait_inv_def split: wait_pc.splits if_splits)
qed (use assms(2,3) in \<open>auto simp: wait_inv_def split: if_splits\<close>)

lemma tg_reach_inv:
  assumes "tg_reach n threads s"
  shows "mon_inv n threads s" "wait_inv n s"
  using assms
  by (induction rule: tg_reach.induct) (auto intro: tg_start_inv tg_next_mon_inv tg_next_wait_inv)

section \<open>Waiting for the groups\<close>

text \<open>
  C15. When \<^verbatim>\<open>TgManagerWaitForAll\<close> has returned and no shutdown was requested, every group is complete: all its
  threads have ended, its cleanup has run and it has been counted.
\<close>

theorem tg_wait_complete:
  assumes "tg_reach n threads s" "WPc s = WReturned" "\<not> Shut s" "g < n"
  shows "g \<in> Done s \<and> g \<in> Cleaned s \<and> {g} \<times> {..<threads g} \<subseteq> Ended s"
proof -
  note i = tg_reach_inv [OF assms(1)]
  have "n \<le> card (Done s)" using i(2) assms(2,3) by (auto simp: wait_inv_def)
  moreover have "Done s \<subseteq> {..<n}" using i(1) by (simp add: mon_inv_def)
  ultimately have "Done s = {..<n}" by (metis card_lessThan card_seteq finite_lessThan)
  then have "counted (Mon s g)" using i(1) assms(4) by (auto simp: mon_inv_def)
  then have "has_cleaned (Mon s g)" "joined (threads g) (Mon s g) = threads g" by (cases "Mon s g"; simp)+
  then show ?thesis using i(1) \<open>Done s = {..<n}\<close> assms(4) unfolding mon_inv_def by auto
qed

text \<open>
  With a shutdown it returns at once: a state is reachable in which the waiting thread has returned, so that
  \<^verbatim>\<open>main\<close> frees the manager, while a monitor whose threads ended is about to lock the manager's mutex.
\<close>

theorem tg_shutdown_leaves_monitor:
  assumes "g < n"
  shows "\<exists>s. tg_reach n (\<lambda>_. 0) s \<and> WPc s = WReturned \<and> Mon s g = MLock"
proof -
  have "\<exists>s. tg_run n (\<lambda>_. 0) [RunMonitor g, RunMonitor g, RequestShutdown, RunWaiter, RunWaiter, RunWaiter] (tg_start n) = Some s \<and>
      WPc s = WReturned \<and> Mon s g = MLock"
    using assms by (simp add: tg_start_def)
  then show ?thesis using tg_reach_run [OF tg_reach.start] by blast
qed

theorem tg_shutdown_leaves_monitor_witness: "\<exists>s. tg_reach 1 (\<lambda>_. 0) s \<and> WPc s = WReturned \<and> Mon s 0 = MLock"
  by (rule tg_shutdown_leaves_monitor) simp

text \<open>A group of one thread that ends.\<close>

definition one_group :: "tg_act list" where
  "one_group = [ThreadEnds 0 0] @ replicate 7 (RunMonitor 0) @ replicate 3 RunWaiter"

theorem tg_wait_complete_witness:
  "\<exists>s. tg_run 1 (\<lambda>_. 1) one_group (tg_start 1) = Some s \<and> 0 \<in> Done s \<and> 0 \<in> Cleaned s \<and> {0} \<times> {..<1} \<subseteq> Ended s"
proof -
  have "\<exists>s. tg_run 1 (\<lambda>_. 1) one_group (tg_start 1) = Some s \<and> WPc s = WReturned \<and> \<not> Shut s"
    by (simp add: one_group_def tg_start_def numeral_eq_Suc)
  then obtain s where s: "tg_run 1 (\<lambda>_. 1) one_group (tg_start 1) = Some s" "WPc s = WReturned" "\<not> Shut s" by blast
  then show ?thesis using tg_wait_complete [OF tg_reach_run [OF tg_reach.start s(1)] s(2,3), of 0] by auto
qed

end
