(* ===== verification/App_Setup.thy ===== *)
theory App_Setup
  imports Cjson_Reads Sensor_Pipe_Refine Thread_Group Sdb_FileIO
begin

text \<open>
  From the configuration file to running thread groups: \<^verbatim>\<open>src/Main.c\<close>, \<^verbatim>\<open>src/DataHandlers/DataHandlers.c\<close>,
  \<^verbatim>\<open>src/DataHandlers/ModbusWithPostgres/ModbusWithPostgres.c\<close> and
  \<^verbatim>\<open>src/DatabaseSystems/DatabaseInitializer.c\<close>. What the memory allocator and the operating system answer is
  a parameter; memory that was not written holds \<open>junk\<close>.
\<close>

section \<open>Handlers\<close>

definition AvailableHandlers :: "string list" where "AvailableHandlers = [''modbus_with_postgres'']"
definition Mb_With_Postgres :: int where "Mb_With_Postgres = 0"

fun handler_loop :: "string \<Rightarrow> int \<Rightarrow> string list \<Rightarrow> int" where
  "handler_loop nm i [] = - 1"
| "handler_loop nm i (h # hs) = (if nm = h then i else handler_loop nm (i + 1) hs)"

text \<open>A name that is not there is a NULL for \<^verbatim>\<open>strcmp\<close>.\<close>

definition GetHandlerIdFromName :: "string option \<Rightarrow> int res" where
  "GetHandlerIdFromName Name = (case Name of None \<Rightarrow> Inl NullDeref | Some nm \<Rightarrow> Inr (handler_loop nm 0 AvailableHandlers))"

definition DhsGetMemAndScratchSize :: "bool \<Rightarrow> cjson option \<Rightarrow> u64 \<times> u64 \<Rightarrow> (u64 \<times> u64) res" where
  "DhsGetMemAndScratchSize asserts Conf Sizes =
     (let MemSizeObj = cJSON_GetObjectItem Conf ''mem'';
          ScratchSizeObj = cJSON_GetObjectItem Conf ''scratch_size''
      in if \<not> cJSON_IsString MemSizeObj \<or> \<not> cJSON_IsString ScratchSizeObj
         then (if asserts then Inl AssertFail else Inr Sizes)
         else Inr (SdbMemSizeFromString (cJSON_GetStringValue MemSizeObj),
                   SdbMemSizeFromString (cJSON_GetStringValue ScratchSizeObj)))"

text \<open>Its unused sibling tests the object instead of its members.\<close>

definition GetMemAndScratchSize :: "cjson option \<Rightarrow> u64 \<times> u64 \<Rightarrow> u64 \<times> u64" where
  "GetMemAndScratchSize Conf Sizes =
     (let MemSizeObj = cJSON_GetObjectItem Conf ''mem''
      in if \<not> cJSON_IsString Conf then Sizes
         else
           (let ScratchSizeObj = cJSON_GetObjectItem Conf ''scratch_size''
            in if \<not> cJSON_IsString Conf then Sizes
               else (SdbMemSizeFromString (cJSON_GetStringValue MemSizeObj),
                     SdbMemSizeFromString (cJSON_GetStringValue ScratchSizeObj))))"

record mbpg_ctx =
  ModbusMemSize :: u64
  ModbusScratchSize :: u64
  PgMemSize :: u64
  PgScratchSize :: u64
  SdPipe :: "(addr \<times> sensor_data_pipe) option"
  CtxBarrier :: sdb_barrier

definition PgThread :: nat where "PgThread = 0"
definition MbPgTestServer :: nat where "MbPgTestServer = 1"
definition MbThread :: nat where "MbThread = 2"

definition MbPgTestTasks :: "nat list" where
  "MbPgTestTasks = [PgThread, MbPgTestServer, MbThread]"

text \<open>
  What a call to create a group finds: where its context and pipe are allocated, what they hold before, and
  which of the system's calls succeed.
\<close>

record group_env =
  CtxAddr :: addr
  CtxJunk :: mbpg_ctx
  PipeMem :: addr
  FdsOk :: bool
  BarrierErr :: int
  GroupOk :: bool

text \<open>
  The result is the group, the context when it is still allocated, and the pipe the signal handlers are told
  of. A number outside the range of \<^verbatim>\<open>u64\<close> has no defined conversion.
\<close>

definition MbPgCreateTg ::
  "bool \<Rightarrow> group_env \<Rightarrow> arena_store \<Rightarrow> cjson option \<Rightarrow> u64 \<Rightarrow> sdb_arena option \<Rightarrow>
     (tg_group option \<times> mbpg_ctx option \<times> addr option) res" where
  "MbPgCreateTg asserts E st Conf GroupIdent A =
     (let ModbusConf = cJSON_GetObjectItem Conf ''modbus'';
          PostgresConf = cJSON_GetObjectItem Conf ''postgres'';
          PipeConf = cJSON_GetObjectItem Conf ''pipe'';
          TestConf = cJSON_GetObjectItem Conf ''testing'';
          Ctx = CtxJunk E
      in if CtxAddr E = NULL then Inr (None, None, None)
         else
           (let PipeBufCountObj = cJSON_GetObjectItem PipeConf ''buf_count'';
                PipeBufSizeObj = cJSON_GetObjectItem PipeConf ''buf_size''
            in case DhsGetMemAndScratchSize asserts ModbusConf (ModbusMemSize Ctx, ModbusScratchSize Ctx) of
                 Inl f \<Rightarrow> Inl f
               | Inr (mm, ms) \<Rightarrow>
                   (case DhsGetMemAndScratchSize asserts PostgresConf (PgMemSize Ctx, PgScratchSize Ctx) of
                      Inl f \<Rightarrow> Inl f
                    | Inr (pm, ps) \<Rightarrow>
                        (case d_to_u64 (cJSON_GetNumberValue PipeBufCountObj) of
                           None \<Rightarrow> Inl OutOfBounds
                         | Some PipeBufCount \<Rightarrow>
                             (let PipeBufSize = SdbMemSizeFromString (cJSON_GetStringValue PipeBufSizeObj)
                              in case SdpCreate (FdsOk E) (PipeMem E) PipeBufCount PipeBufSize None st of
                                   Inl f \<Rightarrow> Inl f
                                 | Inr (None, _, _) \<Rightarrow> Inr (None, None, None)
                                 | Inr (Some P, _, _) \<Rightarrow>
                                     (let Ctx = Ctx\<lparr>ModbusMemSize := mm, ModbusScratchSize := ms, PgMemSize := pm,
                                            PgScratchSize := ps, SdPipe := Some P\<rparr>;
                                          TestingEnabled = cJSON_GetObjectItem TestConf ''enabled''
                                      in if cJSON_IsTrue TestingEnabled
                                         then
                                           (let Ctx = Ctx\<lparr>CtxBarrier := snd (SdbBarrierInit (BarrierErr E) 3 (CtxBarrier Ctx))\<rparr>;
                                                Group = fst (TgCreateGroup GroupIdent 3 (CtxAddr E) None MbPgTestTasks True A (GroupOk E))
                                            in Inr (Group, Some Ctx, Some (fst P)))
                                         else Inr (None, Some Ctx, None)))))))"

definition DhsCreateTg ::
  "bool \<Rightarrow> group_env \<Rightarrow> arena_store \<Rightarrow> cjson option \<Rightarrow> u64 \<Rightarrow> sdb_arena option \<Rightarrow>
     (tg_group option \<times> mbpg_ctx option \<times> addr option) res" where
  "DhsCreateTg asserts E st Conf GroupIdent A =
     (let Enabled = cJSON_GetObjectItem Conf ''enabled''
      in if \<not> (cJSON_IsBool Enabled \<and> cJSON_IsTrue Enabled) then Inr (None, None, None)
         else
           (let HandlerNameObj = cJSON_GetObjectItem Conf ''name'';
                HandlerName = cJSON_GetStringValue HandlerNameObj
            in case GetHandlerIdFromName HandlerName of
                 Inl f \<Rightarrow> Inl f
               | Inr HandlerId \<Rightarrow>
                   if HandlerId = Mb_With_Postgres then MbPgCreateTg asserts E st Conf GroupIdent A
                   else Inr (None, None, None)))"

text \<open>The clean-up of a group: its result, and what it frees: the pipe's descriptors and memory, the context.\<close>

definition MbPgCleanup :: "addr \<Rightarrow> mbpg_ctx option \<Rightarrow> nat \<times> nat \<Rightarrow> nat list \<Rightarrow> addr list \<Rightarrow> int \<times> nat list \<times> addr list" where
  "MbPgCleanup CtxPtr Ctx evs fds heap =
     (case Ctx of
        None \<Rightarrow> (- sdbe_code SDBE_PTR_WAS_NULL, fds, heap)
      | Some Ctx \<Rightarrow>
          (case SdPipe Ctx of
             None \<Rightarrow> (- sdbe_code SDBE_PTR_WAS_NULL, fds, heap)
           | Some P \<Rightarrow>
               (let (fds, heap) = SdpDestroy (fst P) False fds heap evs in (0, fds, removeAll CtxPtr heap))))"

section \<open>The set-up\<close>

text \<open>
  The result of the set-up: the return value, what the caller's pointer to the manager holds and whether that manager was
  destroyed, the groups made on the way with the
  contexts that are still allocated.
\<close>

record set_up =
  SRet :: int
  SManager :: "tg_manager option"
  SDestroyed :: bool
  SGroups :: "tg_group list"
  SCtxs :: "mbpg_ctx list"

text \<open>The loop over the handlers; \<open>None\<close> in the place of the groups is the first failure.\<close>

fun create_groups ::
  "bool \<Rightarrow> (u64 \<Rightarrow> group_env) \<Rightarrow> arena_store \<Rightarrow> cjson list \<Rightarrow> u64 \<Rightarrow> (bool \<times> tg_group list \<times> mbpg_ctx list) res" where
  "create_groups asserts Env st [] tg = Inr (True, [], [])"
| "create_groups asserts Env st (c # cs) tg =
     (case DhsCreateTg asserts (Env tg) st (Some c) tg None of
        Inl f \<Rightarrow> Inl f
      | Inr (None, ctx, _) \<Rightarrow> Inr (False, [], case ctx of None \<Rightarrow> [] | Some x \<Rightarrow> [x])
      | Inr (Some G, ctx, _) \<Rightarrow>
          (case create_groups asserts Env st cs (tg + 1) of
             Inl f \<Rightarrow> Inl f
           | Inr (ok, Gs, xs) \<Rightarrow> Inr (ok, G # Gs, (case ctx of None \<Rightarrow> xs | Some x \<Rightarrow> x # xs))))"

text \<open>
  \<open>File\<close> is the text of the file if it can be loaded; without an arena its memory is zeroed, so that it ends with
  NUL. \<open>Manager\<close> is what the caller's pointer held.
\<close>

definition SetUpFromConf ::
  "bool \<Rightarrow> (u64 \<Rightarrow> group_env) \<Rightarrow> arena_store \<Rightarrow> bool \<Rightarrow> (nat \<Rightarrow> bool) \<Rightarrow> bool \<Rightarrow> bool \<Rightarrow> string option \<Rightarrow> tg_manager option \<Rightarrow> set_up res" where
  "SetUpFromConf asserts Env st root_ok alloc_ok tgs_ok manager_ok File Manager =
     (let failed = (\<lambda>ret Gs xs. Inr \<lparr>SRet = ret, SManager = Manager, SDestroyed = (Manager \<noteq> None), SGroups = Gs, SCtxs = xs\<rparr>)
      in case File of
           None \<Rightarrow> Inr \<lparr>SRet = - ENOMEM, SManager = Manager, SDestroyed = False, SGroups = [], SCtxs = []\<rparr>
         | Some Data \<Rightarrow>
             (case cJSON_Parse root_ok alloc_ok (Some (until_nul Data)) of
                None \<Rightarrow> failed (- sdbe_code SDBE_JSON_ERR) [] []
              | Some Conf \<Rightarrow>
                  (let DataHandlersConfs = cJSON_GetObjectItem (Some Conf) ''data_handlers''
                   in if DataHandlersConfs = None \<or> \<not> cJSON_IsArray DataHandlersConfs
                      then failed (- sdbe_code SDBE_JSON_ERR) [] []
                      else
                        (let HandlerCount = scast (cJSON_GetArraySize DataHandlersConfs) :: u64
                         in if HandlerCount = 0 then failed (- EINVAL) [] []
                            else if \<not> tgs_ok then failed (- ENOMEM) [] []
                            else
                              (case create_groups asserts Env st (cJSON_ArrayForEach DataHandlersConfs) 0 of
                                 Inl f \<Rightarrow> Inl f
                               | Inr (False, Gs, xs) \<Rightarrow> failed (- 1) Gs xs
                               | Inr (True, Gs, xs) \<Rightarrow>
                                   (case TgCreateManager Gs HandlerCount None manager_ok of
                                      Inl f \<Rightarrow> Inl f
                                    | Inr (None, _) \<Rightarrow> Inr \<lparr>SRet = - 1, SManager = None, SDestroyed = False, SGroups = Gs, SCtxs = xs\<rparr>
                                    | Inr (Some M, _) \<Rightarrow> Inr \<lparr>SRet = 0, SManager = Some M, SDestroyed = False, SGroups = Gs, SCtxs = xs\<rparr>))))))"

text \<open>The main program: its exit status and what it did.\<close>

datatype main_action = InstallSignals | StartAll | WaitForAll | DestroyManager

definition sdb_main :: "set_up \<Rightarrow> bool \<Rightarrow> int \<Rightarrow> int \<times> main_action list" where
  "sdb_main S signals_ok start =
     (case SManager S of
        None \<Rightarrow> (1, [])
      | Some M \<Rightarrow>
          if \<not> signals_ok then (1, [InstallSignals, DestroyManager])
          else if start \<noteq> 0 then (1, [InstallSignals, StartAll])
          else (0, [InstallSignals, StartAll, WaitForAll, DestroyManager]))"

section \<open>The database's configuration\<close>

text \<open>
  With an arena the file is loaded into it and the arena set back afterwards; the text runs on into what the memory
  behind it holds. Without one the file's memory is zeroed and freed. The arena comes back.
\<close>

definition DbInitGetConfFromFile ::
  "bool \<Rightarrow> (nat \<Rightarrow> bool) \<Rightarrow> string option \<Rightarrow> addr \<Rightarrow> string \<Rightarrow> mem \<Rightarrow> sdb_arena option \<Rightarrow> cjson option \<times> mem \<times> sdb_arena option" where
  "DbInitGetConfFromFile root_ok alloc_ok File heap behind m A =
     (let F5 = (case A of None \<Rightarrow> 0 | Some A \<Rightarrow> SdbArenaGetPos A);
          content = (case File of None \<Rightarrow> [] | Some f \<Rightarrow> f);
          (SchemaFile, m, A) = SdbLoadFileIntoMemory (map_option (map of_char) File) True (length content) heap m A
      in if SchemaFile = NULL then (None, m, A)
         else
           (let Schema = cJSON_Parse root_ok alloc_ok
                  (Some (until_nul (content @ (case A of None \<Rightarrow> [] | Some _ \<Rightarrow> behind))))
            in (Schema, m, map_option (\<lambda>A. snd (SdbArenaSeek A F5)) A)))"

section \<open>Configurations\<close>

text \<open>A handler as the configuration file writes it; the number of buffers is the text of a number.\<close>

record handler_conf =
  HName :: string
  HEnabled :: bool
  HMem :: string
  HScratch :: string
  HPgMem :: string
  HPgScratch :: string
  HBufCount :: string
  HBufSize :: string
  HTesting :: bool

definition sizes_json :: "string \<Rightarrow> string \<Rightarrow> json" where
  "sizes_json m s = JObj [(''mem'', JStr m), (''scratch_size'', JStr s)]"

definition handler_json :: "handler_conf \<Rightarrow> json" where
  "handler_json c = JObj [(''name'', JStr (HName c)), (''enabled'', JBool (HEnabled c)),
     (''modbus'', sizes_json (HMem c) (HScratch c)), (''postgres'', sizes_json (HPgMem c) (HPgScratch c)),
     (''pipe'', JObj [(''buf_count'', JNum (HBufCount c)), (''buf_size'', JStr (HBufSize c))]),
     (''testing'', JObj [(''enabled'', JBool (HTesting c))])]"

definition conf_json :: "handler_conf list \<Rightarrow> json" where
  "conf_json cs = JObj [(''data_handlers'', JArr (map handler_json cs))]"

text \<open>Looking up a member of an object that was read.\<close>

fun member :: "string \<Rightarrow> (string \<times> json) list \<Rightarrow> cjson option" where
  "member nm [] = None"
| "member nm ((k, v) # ms) = (if ci_loop nm k = 0 then Some (set_key (Some k) (item_of v)) else member nm ms)"

lemma set_key_simps [simp]:
  "type_of (set_key k c) = type_of c" "children (set_key k c) = children c" "valuestring (set_key k c) = valuestring c"
  "valuedouble (set_key k c) = valuedouble c" "key (set_key k c) = k" "set_key k (set_key k' c) = set_key k c"
  by (cases c; simp)+

lemma get_member:
  "cJSON_GetObjectItem (Some (set_key k (item_of (JObj ms)))) nm = member nm ms"
  "cJSON_GetObjectItem (Some (item_of (JObj ms))) nm = member nm ms"
proof -
  have l: "object_item_loop (map (\<lambda>(k, v). set_key (Some k) (item_of v)) ms) nm False = member nm ms"
    by (induction ms) (auto simp: case_insensitive_strcmp_def)
  have k: "member nm ms = Some c \<Longrightarrow> key c \<noteq> None" for c by (induction ms) (auto split: if_splits)
  show "cJSON_GetObjectItem (Some (set_key k (item_of (JObj ms)))) nm = member nm ms"
    "cJSON_GetObjectItem (Some (item_of (JObj ms))) nm = member nm ms"
    using l k by (auto simp: cJSON_GetObjectItem_def get_object_item_def list_item_def split: option.splits)
qed

lemma item_values [simp]:
  "cJSON_IsString (Some (set_key k (item_of (JStr s))))" "cJSON_GetStringValue (Some (set_key k (item_of (JStr s)))) = Some s"
  "cJSON_IsTrue (Some (set_key k (item_of (JBool b)))) = b" "cJSON_IsBool (Some (set_key k (item_of (JBool b))))"
  "cJSON_GetNumberValue (Some (set_key k (item_of (JNum n)))) = fst (strtod n)"
  "cJSON_IsArray (Some (set_key k (item_of (JArr vs))))" "cJSON_ArrayForEach (Some (set_key k (item_of (JArr vs)))) = map item_of vs"
  by (simp_all add: cJSON_Is cJSON_GetStringValue_def cJSON_GetNumberValue_def cJSON_ArrayForEach_def list_item_def plain_item_def)

lemma handler_members:
  "cJSON_GetObjectItem (Some (item_of (handler_json c))) ''name'' = Some (set_key (Some ''name'') (item_of (JStr (HName c))))"
  "cJSON_GetObjectItem (Some (item_of (handler_json c))) ''enabled'' =
     Some (set_key (Some ''enabled'') (item_of (JBool (HEnabled c))))"
  "cJSON_GetObjectItem (Some (item_of (handler_json c))) ''modbus'' =
     Some (set_key (Some ''modbus'') (item_of (sizes_json (HMem c) (HScratch c))))"
  "cJSON_GetObjectItem (Some (item_of (handler_json c))) ''postgres'' =
     Some (set_key (Some ''postgres'') (item_of (sizes_json (HPgMem c) (HPgScratch c))))"
  "cJSON_GetObjectItem (Some (item_of (handler_json c))) ''pipe'' =
     Some (set_key (Some ''pipe'') (item_of (JObj [(''buf_count'', JNum (HBufCount c)), (''buf_size'', JStr (HBufSize c))])))"
  "cJSON_GetObjectItem (Some (item_of (handler_json c))) ''testing'' =
     Some (set_key (Some ''testing'') (item_of (JObj [(''enabled'', JBool (HTesting c))])))"
  unfolding handler_json_def get_member by (simp_all add: tolower_def Let_def)

lemma sizes_members:
  "cJSON_GetObjectItem (Some (set_key k (item_of (sizes_json m s)))) ''mem'' = Some (set_key (Some ''mem'') (item_of (JStr m)))"
  "cJSON_GetObjectItem (Some (set_key k (item_of (sizes_json m s)))) ''scratch_size'' =
     Some (set_key (Some ''scratch_size'') (item_of (JStr s)))"
  unfolding sizes_json_def get_member by (simp_all add: tolower_def Let_def)

lemma pipe_members:
  "cJSON_GetObjectItem (Some (set_key k (item_of (JObj [(''buf_count'', JNum n), (''buf_size'', JStr s)])))) ''buf_count'' =
     Some (set_key (Some ''buf_count'') (item_of (JNum n)))"
  "cJSON_GetObjectItem (Some (set_key k (item_of (JObj [(''buf_count'', JNum n), (''buf_size'', JStr s)])))) ''buf_size'' =
     Some (set_key (Some ''buf_size'') (item_of (JStr s)))"
  "cJSON_GetObjectItem (Some (set_key k (item_of (JObj [(''enabled'', JBool b)])))) ''enabled'' =
     Some (set_key (Some ''enabled'') (item_of (JBool b)))"
  unfolding get_member by (simp_all add: tolower_def Let_def)

lemma conf_members:
  "cJSON_GetObjectItem (Some (item_of (conf_json cs))) ''data_handlers'' =
     Some (set_key (Some ''data_handlers'') (item_of (JArr (map handler_json cs))))"
  unfolding conf_json_def get_member by (simp add: tolower_def Let_def)

lemma mem_sizes_read:
  "DhsGetMemAndScratchSize asserts (Some (set_key k (item_of (sizes_json m s)))) old =
    Inr (SdbMemSizeFromString (Some m), SdbMemSizeFromString (Some s))"
  by (simp add: DhsGetMemAndScratchSize_def sizes_members del: item_of.simps)

text \<open>The context and the group a handler gets when everything can be allocated.\<close>

definition handler_ctx :: "group_env \<Rightarrow> handler_conf \<Rightarrow> addr \<times> sensor_data_pipe \<Rightarrow> mbpg_ctx" where
  "handler_ctx E c P = (CtxJunk E)
     \<lparr>ModbusMemSize := SdbMemSizeFromString (Some (HMem c)), ModbusScratchSize := SdbMemSizeFromString (Some (HScratch c)),
       PgMemSize := SdbMemSizeFromString (Some (HPgMem c)), PgScratchSize := SdbMemSizeFromString (Some (HPgScratch c)),
       SdPipe := Some P\<rparr>"

definition handler_group :: "group_env \<Rightarrow> u64 \<Rightarrow> tg_group" where
  "handler_group E i = \<lparr>GroupId = i, ThreadCount = 3, Completed = False, SharedData = CtxAddr E, HasCleanup = True,
     Tasks = MbPgTestTasks\<rparr>"

definition handler_pipe :: "group_env \<Rightarrow> arena_store \<Rightarrow> handler_conf \<Rightarrow> (addr \<times> sensor_data_pipe) option" where
  "handler_pipe E st c =
     (case d_to_u64 (fst (strtod (HBufCount c))) of
        None \<Rightarrow> None
      | Some n \<Rightarrow> (case SdpCreate (FdsOk E) (PipeMem E) n (SdbMemSizeFromString (Some (HBufSize c))) None st of
                     Inr (P, _) \<Rightarrow> P | Inl _ \<Rightarrow> None))"

text \<open>A handler that can be set up.\<close>

definition handler_ok :: "group_env \<Rightarrow> arena_store \<Rightarrow> handler_conf \<Rightarrow> bool" where
  "handler_ok E st c \<longleftrightarrow> HName c = ''modbus_with_postgres'' \<and> HEnabled c \<and> HTesting c \<and>
     CtxAddr E \<noteq> NULL \<and> BarrierErr E = 0 \<and> GroupOk E \<and> handler_pipe E st c \<noteq> None"

lemma MbPgCreateTg_handler:
  assumes "CtxAddr E \<noteq> NULL" "handler_pipe E st c = Some P"
  shows "MbPgCreateTg asserts E st (Some (item_of (handler_json c))) i A =
    (if HTesting c
     then Inr (fst (TgCreateGroup i 3 (CtxAddr E) None MbPgTestTasks True A (GroupOk E)),
       Some ((handler_ctx E c P)\<lparr>CtxBarrier := snd (SdbBarrierInit (BarrierErr E) 3 (CtxBarrier (CtxJunk E)))\<rparr>), Some (fst P))
     else Inr (None, Some (handler_ctx E c P), None))"
proof -
  obtain n where n: "d_to_u64 (fst (strtod (HBufCount c))) = Some n"
    using assms(2) by (auto simp: handler_pipe_def split: option.splits)
  then obtain A' st' where "SdpCreate (FdsOk E) (PipeMem E) n (SdbMemSizeFromString (Some (HBufSize c))) None st = Inr (Some P, A', st')"
    using assms(2) by (auto simp: handler_pipe_def split: sum.splits)
  then show ?thesis
    using assms(1) n
    by (simp add: MbPgCreateTg_def handler_members mem_sizes_read pipe_members handler_ctx_def Let_def del: item_of.simps)
qed

lemma DhsCreateTg_handler:
  assumes "handler_ok E st c"
  shows "\<exists>ctx P. handler_pipe E st c = Some P \<and>
    DhsCreateTg asserts E st (Some (item_of (handler_json c))) i None = Inr (Some (handler_group E i), Some ctx, Some (fst P)) \<and>
    ctx = (handler_ctx E c P)\<lparr>CtxBarrier := \<lparr>Needed = 3, Arrived = []\<rparr>\<rparr>"
proof -
  obtain P where P: "handler_pipe E st c = Some P" using assms by (auto simp: handler_ok_def)
  have t: "take (unat (3 :: u64)) MbPgTestTasks = MbPgTestTasks" by (simp add: MbPgTestTasks_def)
  show ?thesis
    using assms P MbPgCreateTg_handler [of E st c P asserts i None] t
    by (simp add: DhsCreateTg_def handler_ok_def handler_members GetHandlerIdFromName_def AvailableHandlers_def
        Mb_With_Postgres_def SdbBarrierInit_def TgCreateGroup_def handler_group_def Let_def del: item_of.simps)
qed

lemma DhsCreateTg_disabled:
  "\<not> HEnabled c \<Longrightarrow> DhsCreateTg asserts E st (Some (item_of (handler_json c))) i A = Inr (None, None, None)"
  by (simp add: DhsCreateTg_def handler_members del: item_of.simps)

section \<open>Setting up\<close>

text \<open>What the handlers of a list get, the first being number \<open>tg\<close>.\<close>

fun all_ok :: "(u64 \<Rightarrow> group_env) \<Rightarrow> arena_store \<Rightarrow> handler_conf list \<Rightarrow> u64 \<Rightarrow> bool" where
  "all_ok Env st [] tg = True"
| "all_ok Env st (c # cs) tg = (handler_ok (Env tg) st c \<and> all_ok Env st cs (tg + 1))"

fun made :: "(u64 \<Rightarrow> group_env) \<Rightarrow> arena_store \<Rightarrow> handler_conf list \<Rightarrow> u64 \<Rightarrow> (tg_group \<times> mbpg_ctx) list" where
  "made Env st [] tg = []"
| "made Env st (c # cs) tg =
     (handler_group (Env tg) tg,
      (handler_ctx (Env tg) c (the (handler_pipe (Env tg) st c)))\<lparr>CtxBarrier := \<lparr>Needed = 3, Arrived = []\<rparr>\<rparr>) #
     made Env st cs (tg + 1)"

lemma length_made [simp]: "length (made Env st cs tg) = length cs"
  by (induction cs arbitrary: tg) simp_all

lemma create_groups_append:
  assumes "all_ok Env st good tg"
  shows "create_groups asserts Env st (map (\<lambda>c. item_of (handler_json c)) good @ others) tg =
    (case create_groups asserts Env st others (tg + of_nat (length good)) of
       Inl f \<Rightarrow> Inl f
     | Inr (ok, Gs, xs) \<Rightarrow> Inr (ok, map fst (made Env st good tg) @ Gs, map snd (made Env st good tg) @ xs))"
  using assms
proof (induction good arbitrary: tg)
  case Nil
  then show ?case by (simp split: sum.splits prod.splits)
next
  case (Cons c cs)
  then obtain P where "handler_pipe (Env tg) st c = Some P"
    "DhsCreateTg asserts (Env tg) st (Some (item_of (handler_json c))) tg None =
      Inr (Some (handler_group (Env tg) tg), Some ((handler_ctx (Env tg) c P)\<lparr>CtxBarrier := \<lparr>Needed = 3, Arrived = []\<rparr>\<rparr>), Some (fst P))"
    using DhsCreateTg_handler [of "Env tg" st c asserts tg] by auto
  moreover have "tg + of_nat (length (c # cs)) = (tg + 1) + of_nat (length cs)" by simp
  ultimately show ?case
    using Cons.IH [of "tg + 1"] Cons.prems by (simp add: add.assoc split: sum.splits prod.splits)
qed

lemma conf_fits: "fits CJSON_NESTING_LIMIT (conf_json cs)"
proof -
  have d: "CJSON_NESTING_LIMIT = Suc (Suc (Suc (Suc 996)))" by (simp add: CJSON_NESTING_LIMIT_def)
  show ?thesis unfolding d by (simp add: conf_json_def handler_json_def sizes_json_def)
qed

lemma handler_count:
  assumes "cs \<noteq> []" "length cs < 2 ^ 31"
  shows "unat (scast (of_nat (length cs) :: i32) :: u64) = length cs"
proof -
  have "sint (of_nat (length cs) :: i32) = int (length cs)"
    using assms(2) by (simp add: sint_uint uint_nat unat_of_nat_fits signed_take_bit_int_eq_self)
  then have "(scast (of_nat (length cs) :: i32) :: u64) = of_nat (length cs)" by (simp add: scast_eq)
  then show ?thesis using assms(2) by (simp add: unat_of_nat_fits)
qed

text \<open>From a well-formed text to the loop over its handlers.\<close>

lemma SetUpFromConf_reads:
  assumes "json_text (conf_json cs) t" "ws_text w" "CHR 0x00 \<notin> set (w @ t @ rest)" "rest = [] \<or> \<not> number_char (hd rest)"
    "cs \<noteq> []" "length cs < 2 ^ 31"
  shows "SetUpFromConf asserts Env st True always True manager_ok (Some (w @ t @ rest)) None =
    (case create_groups asserts Env st (map (\<lambda>c. item_of (handler_json c)) cs) 0 of
       Inl f \<Rightarrow> Inl f
     | Inr (False, Gs, xs) \<Rightarrow> Inr \<lparr>SRet = - 1, SManager = None, SDestroyed = False, SGroups = Gs, SCtxs = xs\<rparr>
     | Inr (True, Gs, xs) \<Rightarrow>
         (case TgCreateManager Gs (scast (of_nat (length cs) :: i32)) None manager_ok of
            Inl f \<Rightarrow> Inl f
          | Inr (None, _) \<Rightarrow> Inr \<lparr>SRet = - 1, SManager = None, SDestroyed = False, SGroups = Gs, SCtxs = xs\<rparr>
          | Inr (Some M, _) \<Rightarrow> Inr \<lparr>SRet = 0, SManager = Some M, SDestroyed = False, SGroups = Gs, SCtxs = xs\<rparr>))"
proof -
  have u: "until_nul (w @ t @ rest) = w @ t @ rest"
    using assms(3) unfolding until_nul_def by (subst takeWhile_eq_all_conv) blast
  have p: "cJSON_Parse True always (Some (until_nul (w @ t @ rest))) = Some (item_of (conf_json cs))"
    using cjson_reads_text [OF assms(1) conf_fits assms(2) _ assms(4), of "[]"] unfolding u by simp
  have c: "(scast (of_nat (length cs) :: i32) :: u64) \<noteq> 0" using handler_count [OF assms(5,6)] assms(5) by auto
  have n: "cJSON_GetArraySize (Some (set_key k (item_of (JArr (map handler_json cs))))) = of_nat (length cs)" for k
    by (simp add: cJSON_GetArraySize_def list_item_def)
  show ?thesis
    using c by (simp add: SetUpFromConf_def p conf_members n Let_def comp_def del: item_of.simps(5,6))
qed

text \<open>
  C11. A configuration whose handlers can all be set up gives a manager with one group of three threads for each, in
  the order of the file and numbered from 0, with the sizes the file asks for.
\<close>

theorem setup_from_conf:
  assumes "json_text (conf_json cs) t" "ws_text w" "CHR 0x00 \<notin> set (w @ t @ rest)" "rest = [] \<or> \<not> number_char (hd rest)"
    "cs \<noteq> []" "length cs < 2 ^ 31" "all_ok Env st cs 0"
  shows "\<exists>S M. SetUpFromConf asserts Env st True always True True (Some (w @ t @ rest)) None = Inr S \<and>
    SRet S = 0 \<and> SManager S = Some M \<and> Groups M = map (Some \<circ> fst) (made Env st cs 0) \<and>
    unat (GroupCount M) = length cs \<and> CompletedCount M = 0 \<and> SCtxs S = map snd (made Env st cs 0)"
proof -
  have "create_groups asserts Env st (map (\<lambda>c. item_of (handler_json c)) cs) 0 =
      Inr (True, map fst (made Env st cs 0), map snd (made Env st cs 0))"
    using create_groups_append [OF assms(7), of asserts "[]"] by simp
  then show ?thesis
    using SetUpFromConf_reads [OF assms(1-6), of asserts Env st True] handler_count [OF assms(5,6)]
    by (simp add: TgCreateManager_def Let_def)
qed

text \<open>
  A disabled handler aborts the set-up: the handlers after it are not looked at, the contexts and pipes of those
  before it stay allocated, and the program exits with a failure.
\<close>

theorem setup_disabled_handler:
  assumes "json_text (conf_json (good @ c # others)) t" "ws_text w" "CHR 0x00 \<notin> set (w @ t @ rest)"
    "rest = [] \<or> \<not> number_char (hd rest)" "length good + length others + 1 < 2 ^ 31" "all_ok Env st good 0" "\<not> HEnabled c"
  shows "\<exists>S. SetUpFromConf asserts Env st True always True True (Some (w @ t @ rest)) None = Inr S \<and>
    SRet S = - 1 \<and> SManager S = None \<and> SCtxs S = map snd (made Env st good 0) \<and> sdb_main S signals_ok start = (1, [])"
proof -
  have "create_groups asserts Env st (map (\<lambda>c. item_of (handler_json c)) (good @ c # others)) 0 =
      Inr (False, map fst (made Env st good 0), map snd (made Env st good 0))"
    using create_groups_append [OF assms(6), of asserts "map (\<lambda>c. item_of (handler_json c)) (c # others)"]
      DhsCreateTg_disabled [OF assms(7)] by simp
  moreover have "good @ c # others \<noteq> []" "length (good @ c # others) < 2 ^ 31" using assms(5) by simp_all
  ultimately show ?thesis
    using SetUpFromConf_reads [OF assms(1-4), of asserts Env st True] by (simp add: sdb_main_def del: map_append)
qed

text \<open>
  Without testing no group is made, but the context and the pipe stay allocated and no pointer to them is
  kept.
\<close>

theorem setup_without_testing_leaks:
  assumes "CtxAddr E \<noteq> NULL" "handler_pipe E st c = Some P" "\<not> HTesting c"
  shows "\<exists>Ctx. MbPgCreateTg asserts E st (Some (item_of (handler_json c))) i A = Inr (None, Some Ctx, None) \<and> SdPipe Ctx = Some P"
  using assms MbPgCreateTg_handler [OF assms(1,2), of asserts i A] by (simp add: handler_ctx_def)

text \<open>The clean-up of a group gives back all that its creation allocated.\<close>

lemma MbPgCleanup_frees:
  assumes "SdPipe Ctx = Some P"
  shows "MbPgCleanup CtxPtr (Some Ctx) evs fds heap =
    (0, removeAll (snd evs) (removeAll (fst evs) fds), removeAll CtxPtr (removeAll (fst P) heap))"
  using assms by (simp add: MbPgCleanup_def SdpDestroy_def)

section \<open>The shipped configuration\<close>

definition shipped_conf :: handler_conf where
  "shipped_conf = \<lparr>HName = ''modbus_with_postgres'', HEnabled = True, HMem = ''8mB'', HScratch = ''128kB'',
     HPgMem = ''8mB'', HPgScratch = ''128kB'', HBufCount = ''2'', HBufSize = ''32kB'', HTesting = True\<rparr>"

definition example_ctx :: mbpg_ctx where
  "example_ctx = \<lparr>ModbusMemSize = 0, ModbusScratchSize = 0, PgMemSize = 0, PgScratchSize = 0, SdPipe = None,
     CtxBarrier = \<lparr>Needed = 0, Arrived = []\<rparr>\<rparr>"

definition example_env :: "u64 \<Rightarrow> group_env" where
  "example_env i = \<lparr>CtxAddr = 4096, CtxJunk = example_ctx, PipeMem = 65536, FdsOk = True, BarrierErr = 0, GroupOk = True\<rparr>"

lemma shipped_sizes:
  "d_to_u64 (fst (strtod ''2'')) = Some 2" "SdbMemSizeFromString (Some ''32kB'') = 32768"
proof -
  have "decimal 2 = ''2''" by code_simp
  then show "d_to_u64 (fst (strtod ''2'')) = Some 2" using strtod_decimal [of 2] by simp
  show "SdbMemSizeFromString (Some ''32kB'') = 32768"
    by (simp add: SdbMemSizeFromString_def strtoull10_def isspace_def isdigit_def digits_value_def size_multiplier_def char_at_def)
qed

lemma shipped_pipe: "handler_pipe (example_env i) st shipped_conf \<noteq> None"
  by (simp add: handler_pipe_def shipped_conf_def example_env_def shipped_sizes SdpCreate_def SdpPipeSize_def SdbArenaInit_def
      SdbArenaPush_def SdbArenaGetPos_def sizeof_sensor_data_pipe_def sizeof_sdb_arena_def Let_def split: prod.split)

lemma shipped_ok: "handler_ok (example_env i) st shipped_conf"
  using shipped_pipe [of i st] by (simp add: handler_ok_def shipped_conf_def example_env_def)

definition example_store :: arena_store where
  "example_store = (\<lambda>_. \<lparr>Cur = 0, Cap = 0, Mem = 0\<rparr>)"

lemma conf_text_ok:
  assumes "\<forall>c\<in>set cs. c \<in> {shipped_conf, shipped_conf\<lparr>HEnabled := False\<rparr>}"
  shows "json_text (conf_json cs) (render (conf_json cs))"
proof (rule render_text(1))
  have "number_text ''2''" by (rule number_text_digits) (simp_all add: digits_text_def isdigit_def)
  then have p: "plain (handler_json shipped_conf)" "plain (handler_json (shipped_conf\<lparr>HEnabled := False\<rparr>))"
    by (simp_all add: handler_json_def sizes_json_def shipped_conf_def plain_string_def)
  have "plain (handler_json c)" if "c \<in> set cs" for c
    using bspec [OF assms that] p by (elim insertE emptyE) (simp_all only:)
  then show "plain (conf_json cs)" by (simp add: conf_json_def plain_string_def)
qed

theorem setup_from_conf_witness:
  "\<exists>S M. SetUpFromConf True example_env example_store True always True True (Some ([] @ render (conf_json [shipped_conf]) @ [])) None = Inr S \<and>
    SRet S = 0 \<and> SManager S = Some M \<and> Groups M = map (Some \<circ> fst) (made example_env example_store [shipped_conf] 0) \<and>
    unat (GroupCount M) = length [shipped_conf] \<and> CompletedCount M = 0 \<and>
    SCtxs S = map snd (made example_env example_store [shipped_conf] 0)"
proof -
  have j: "json_text (conf_json [shipped_conf]) (render (conf_json [shipped_conf]))" by (rule conf_text_ok) simp
  have w: "ws_text []" by (simp add: ws_text_def)
  have n: "CHR 0x00 \<notin> set ([] @ render (conf_json [shipped_conf]) @ [])" by code_simp
  have l: "[shipped_conf] \<noteq> []" "length [shipped_conf] < 2 ^ 31" by simp_all
  have o: "all_ok example_env example_store [shipped_conf] 0" by (simp add: shipped_ok)
  show ?thesis by (rule setup_from_conf [OF j w n _ l o]) simp
qed

theorem setup_disabled_handler_witness:
  "\<exists>S. SetUpFromConf True example_env example_store True always True True
      (Some ([] @ render (conf_json ([shipped_conf] @ shipped_conf\<lparr>HEnabled := False\<rparr> # [shipped_conf])) @ [])) None = Inr S \<and>
    SRet S = - 1 \<and> SManager S = None \<and> SCtxs S = map snd (made example_env example_store [shipped_conf] 0) \<and> sdb_main S True 0 = (1, [])"
proof (rule setup_disabled_handler)
  let ?cs = "[shipped_conf] @ shipped_conf\<lparr>HEnabled := False\<rparr> # [shipped_conf]"
  show "json_text (conf_json ?cs) (render (conf_json ?cs))" by (rule conf_text_ok) auto
  show "ws_text []" by (simp add: ws_text_def)
  show "CHR 0x00 \<notin> set ([] @ render (conf_json ?cs) @ [])"
    by code_simp
  show "all_ok example_env example_store [shipped_conf] 0" by (simp add: shipped_ok)
qed simp_all

theorem setup_without_testing_leaks_witness:
  "\<exists>P Ctx. MbPgCreateTg True (example_env 0) example_store (Some (item_of (handler_json (shipped_conf\<lparr>HTesting := False\<rparr>)))) 0 None =
    Inr (None, Some Ctx, None) \<and> SdPipe Ctx = Some P"
proof -
  have "handler_pipe (example_env 0) example_store (shipped_conf\<lparr>HTesting := False\<rparr>) = handler_pipe (example_env 0) example_store shipped_conf"
    by (simp add: handler_pipe_def cong: option.case_cong)
  then obtain P where "handler_pipe (example_env 0) example_store (shipped_conf\<lparr>HTesting := False\<rparr>) = Some P"
    using shipped_pipe [of 0 example_store] by auto
  from setup_without_testing_leaks [OF _ this, of True 0 None] show ?thesis by (auto simp: example_env_def)
qed

end
