(* ===== verification/Pg_Schema.thy ===== *)
theory Pg_Schema
  imports App_Setup Pg_Encode Sdb_Strings
begin

text \<open>
  \<^verbatim>\<open>PgPrepareCtx\<close> of \<^verbatim>\<open>src/DatabaseSystems/Postgres.c\<close>: the tables the sensor schemas ask for, the statements sent
  to the server, and the sizes of the pipe. Its strings are the abstract strings of \<^verbatim>\<open>Sdb_Strings\<close>, which the
  operations on \<^verbatim>\<open>sdb_string\<close> refine; an arena is the room it has left. The results of appending are
  ignored, as the code does.
\<close>

section \<open>Building statements\<close>

definition bytes :: "string \<Rightarrow> u8 list" where "bytes s = map of_char s"

definition chars :: "u8 list \<Rightarrow> string" where "chars bs = map (\<lambda>b. char_of (unat b)) bs"

text \<open>A new string: its header, its characters and a NUL are taken from the room; NULL when they do not fit.\<close>

definition string_make :: "nat \<Rightarrow> string \<Rightarrow> abs_string option" where
  "string_make room s =
     (if room < unat HeaderSize + length s + 1 then None
      else Some \<lparr>aval = bytes s, acap = length s, aroom = room - (unat HeaderSize + length s + 1)\<rparr>)"

definition append_c :: "string \<Rightarrow> abs_string \<Rightarrow> abs_string" where
  "append_c s a = (case abs_append a (bytes s) of None \<Rightarrow> a | Some b \<Rightarrow> b)"

definition backspace :: "nat \<Rightarrow> abs_string \<Rightarrow> abs_string" where
  "backspace n a = a\<lparr>aval := take (length (aval a) - n) (aval a)\<rparr>"

text \<open>The columns of a sensor; \<open>None\<close> is a value that is not a string.\<close>

fun column_loop :: "cjson list \<Rightarrow> abs_string \<Rightarrow> abs_string option" where
  "column_loop [] Q = Some Q"
| "column_loop (d # ds) Q =
     (if \<not> cJSON_IsString (Some d) then None
      else column_loop ds (append_c '',\<newline>'' (append_c (the (valuestring d)) (append_c '' '' (append_c (the (key d)) Q)))))"

text \<open>The statement begins before the columns are looked at: the first result is the text so far.\<close>

definition creation_start :: "nat \<Rightarrow> string \<Rightarrow> abs_string res" where
  "creation_start room SensorName =
     (case string_make room ''CREATE TABLE IF NOT EXISTS '' of
        None \<Rightarrow> Inl NullDeref
      | Some Q \<Rightarrow> Inr (append_c ''(\<newline>id SERIAL PRIMARY KEY,\<newline>'' (append_c SensorName Q)))"

definition creation_query :: "cjson list \<Rightarrow> abs_string \<Rightarrow> abs_string option" where
  "creation_query SensorData Q = map_option (\<lambda>Q. append_c '');'' (backspace 2 Q)) (column_loop SensorData Q)"

fun copy_loop :: "pg_col_metadata list \<Rightarrow> abs_string \<Rightarrow> abs_string" where
  "copy_loop [] Q = Q"
| "copy_loop (md # mds) Q =
     copy_loop mds (if \<not> IsAutoIncrement md then append_c '', '' (append_c (ColumnName md) Q) else Q)"

definition copy_command :: "nat \<Rightarrow> string \<Rightarrow> pg_col_metadata list \<Rightarrow> abs_string res" where
  "copy_command room Table mds =
     (case string_make room ''COPY '' of
        None \<Rightarrow> Inl NullDeref
      | Some Q \<Rightarrow>
          Inr (append_c '') FROM STDIN WITH (FORMAT binary)''
            (backspace 2 (copy_loop mds (append_c ''('' (append_c Table Q))))))"

section \<open>The tables\<close>

definition sizeof_postgres_ctx :: nat where "sizeof_postgres_ctx = 16"
definition sizeof_pg_table_info :: nat where "sizeof_pg_table_info = 40"
definition sizeof_pg_col_metadata :: nat where "sizeof_pg_col_metadata = 32"

text \<open>
  What the server answers for a sensor: whether the table could be created, and the columns it then lists.
  \<open>Junk\<close> is what the memory of the table's description holds.
\<close>

record sensor_answers =
  CreateOk :: bool
  Catalog :: "catalog_row list option"
  Junk :: pg_table_info

datatype pg_error = JsonErr | PgErr

record pipe_sizes =
  PsPacketSize :: u64
  PsItemMaxCount :: u64
  PsBufferMaxFill :: u64

text \<open>
  The names of the columns are strings in the thread's arena, made one after the other; the first result says
  which of them are not NULL.
\<close>

fun names_made :: "catalog_row list \<Rightarrow> nat \<Rightarrow> bool list \<times> nat" where
  "names_made [] room = ([], room)"
| "names_made ((name, r) # rows) room =
     (case string_make room name of
        None \<Rightarrow> (let (bs, room) = names_made rows room in (False # bs, room))
      | Some n \<Rightarrow> (let (bs, room) = names_made rows (aroom n) in (True # bs, room)))"

text \<open>The metadata of the table in the room there is: the array, then the names; NULL names are told with the columns.\<close>

definition table_metadata ::
  "catalog_row list option \<Rightarrow> nat \<Rightarrow> pg_table_info \<Rightarrow>
     ((pg_col_metadata \<times> bool) list \<times> nat) option \<times> i16 \<times> i16 \<times> u64" where
  "table_metadata Cat room Ti =
     (let array = (case Cat of None \<Rightarrow> 0 | Some rows \<Rightarrow> length rows * sizeof_pg_col_metadata);
          (mds, n, k, sz) = GetTableMetadata Cat (array \<le> room) (ColCount Ti) (ColCountNoAutoIncrements Ti) (RowSize Ti);
          (made, room) = names_made (case Cat of None \<Rightarrow> [] | Some rows \<Rightarrow> rows) (room - array)
      in (map_option (\<lambda>mds. (zip mds made, room)) mds, n, k, sz))"

text \<open>
  One turn of the loop: room in the scratch and the thread's arena before, the schema, the answers, the
  capacity of the pipe's first buffer. It gives the statements sent, and an error or the table with the sizes
  and the rooms after.
\<close>

definition sensor_named :: "cjson \<Rightarrow> bool" where
  "sensor_named SensorSchema =
     (cJSON_IsObject (Some SensorSchema) \<and> cJSON_GetObjectItem (Some SensorSchema) ''name'' \<noteq> None \<and>
      cJSON_IsString (cJSON_GetObjectItem (Some SensorSchema) ''name''))"

definition prepare_sensor ::
  "nat \<Rightarrow> nat \<Rightarrow> cjson \<Rightarrow> sensor_answers \<Rightarrow> u64 \<Rightarrow>
     (u8 list list \<times> (pg_error + pg_table_info \<times> pipe_sizes \<times> nat \<times> nat)) res" where
  "prepare_sensor scratch room SensorSchema E Cap0 =
     (let SensorName = cJSON_GetObjectItem (Some SensorSchema) ''name'';
          SensorData = cJSON_GetObjectItem (Some SensorSchema) ''data'';
          nm = the (valuestring (the SensorName))
      in if \<not> sensor_named SensorSchema then Inr ([], Inl JsonErr)
         else if room < sizeof_pg_table_info then Inl NullDeref
         else
           (case creation_start scratch nm of
              Inl f \<Rightarrow> Inl f
            | Inr Q \<Rightarrow>
                if SensorData = None \<or> \<not> cJSON_IsObject SensorData then Inr ([], Inl JsonErr)
                else
                  (case creation_query (children (the SensorData)) Q of
                     None \<Rightarrow> Inr ([], Inl JsonErr)
                   | Some Q \<Rightarrow>
                       if \<not> CreateOk E then Inr ([aval Q], Inl PgErr)
                       else
                         (let T = string_make (room - sizeof_pg_table_info) nm;
                              room = (case T of None \<Rightarrow> room - sizeof_pg_table_info | Some T \<Rightarrow> aroom T)
                          in case table_metadata (Catalog E) room (Junk E) of
                                 (None, n, k, sz) \<Rightarrow> Inr ([aval Q], Inl PgErr)
                               | (Some (cols, room), n, k, sz) \<Rightarrow>
                                   if n = 0 then Inr ([aval Q], Inl PgErr)
                                   else if T = None \<or> (\<exists>(md, made)\<in>set cols. \<not> IsAutoIncrement md \<and> \<not> made) then Inl NullDeref
                                   else
                                     (case copy_command room nm (map fst cols) of
                                        Inl f \<Rightarrow> Inl f
                                      | Inr C \<Rightarrow>
                                          if sz = 0 then Inl DivByZero
                                          else
                                            (let Ti = \<lparr>ColCount = n, ColCountNoAutoIncrements = k, RowSize = sz,
                                                  TableName = nm, CopyCommand = chars (aval C), ColMetadata = map fst cols\<rparr>;
                                                 ItemMax = Cap0 div sz
                                             in Inr ([aval Q], Inr (Ti,
                                                  \<lparr>PsPacketSize = sz, PsItemMaxCount = ItemMax, PsBufferMaxFill = sz * ItemMax\<rparr>,
                                                  aroom Q, aroom C))))))))"

text \<open>
  The loop over the sensors: the tables so far are kept, the sizes are those of the last one.
\<close>

fun sensor_loop ::
  "nat \<Rightarrow> nat \<Rightarrow> cjson list \<Rightarrow> sensor_answers list \<Rightarrow> u64 \<Rightarrow> pg_table_info list \<Rightarrow> pipe_sizes option \<Rightarrow>
     (u8 list list \<times> (pg_error + pg_table_info list \<times> pipe_sizes option)) res" where
  "sensor_loop scratch room (s # ss) (E # Es) Cap0 Tis ps =
     (case prepare_sensor scratch room s E Cap0 of
        Inl f \<Rightarrow> Inl f
      | Inr (qs, Inl e) \<Rightarrow> Inr (qs, Inl e)
      | Inr (qs, Inr (Ti, ps, scratch, room)) \<Rightarrow>
          (case sensor_loop scratch room ss Es Cap0 (Tis @ [Ti]) (Some ps) of
             Inl f \<Rightarrow> Inl f
           | Inr (qs', r) \<Rightarrow> Inr (qs @ qs', r)))"
| "sensor_loop scratch room ss Es Cap0 Tis ps = Inr ([], Inr (Tis, ps))"

record pg_prepared =
  PTables :: "(pg_table_info list \<times> pipe_sizes option) option"
  PQueries :: "u8 list list"
  PFinished :: bool

text \<open>
  The whole: the connection's configuration and the schemas are loaded, the connection is made, the sensors are gone
  through. An error before the context is allocated closes the connection of a pointer that was never set;
  the array of the tables is only written to when the first sensor has a name.
\<close>

definition PgPrepareCtx ::
  "bool \<Rightarrow> cjson option \<Rightarrow> nat \<Rightarrow> nat \<Rightarrow> bool \<Rightarrow> sensor_answers list \<Rightarrow> u64 \<Rightarrow> pg_prepared res" where
  "PgPrepareCtx conf_loaded SchemaConf scratch room conn_ok Es Cap0 =
     (let Sensors = cJSON_GetObjectItem SchemaConf ''sensors'';
          SensorCount = unat (scast (cJSON_GetArraySize Sensors) :: u64)
      in if \<not> conf_loaded then Inr \<lparr>PTables = None, PQueries = [], PFinished = False\<rparr>
         else if \<not> cJSON_IsObject SchemaConf \<or> Sensors = None \<or> \<not> cJSON_IsArray Sensors then Inl UseUninit
         else if room < sizeof_postgres_ctx then Inl NullDeref
         else if \<not> conn_ok then Inr \<lparr>PTables = None, PQueries = [], PFinished = True\<rparr>
         else if room - sizeof_postgres_ctx < 8 * SensorCount then
           (if sensor_named (hd (cJSON_ArrayForEach Sensors)) then Inl NullDeref
            else Inr \<lparr>PTables = None, PQueries = [], PFinished = True\<rparr>)
         else
           (case sensor_loop scratch (room - sizeof_postgres_ctx - 8 * SensorCount) (cJSON_ArrayForEach Sensors) Es Cap0 [] None of
              Inl f \<Rightarrow> Inl f
            | Inr (qs, Inl e) \<Rightarrow> Inr \<lparr>PTables = None, PQueries = qs, PFinished = True\<rparr>
            | Inr (qs, Inr r) \<Rightarrow> Inr \<lparr>PTables = Some r, PQueries = qs, PFinished = False\<rparr>))"

section \<open>The statements\<close>

lemma chars_bytes [simp]: "chars (bytes s) = s"
proof -
  have "char_of (unat (of_char c :: u8)) = c" for c
  proof -
    have "unat (of_char c :: u8) = of_char c" by (simp add: of_char_def)
    then show ?thesis by simp
  qed
  then show ?thesis by (simp add: chars_def bytes_def comp_def)
qed

lemma bytes_append: "bytes (s @ t) = bytes s @ bytes t"
  by (simp add: bytes_def)

lemma length_bytes [simp]: "length (bytes s) = length s"
  by (simp add: bytes_def)

text \<open>A string that is full: as long as its capacity. Appending to it takes the room for exactly what is appended.\<close>

definition full :: "nat \<Rightarrow> string \<Rightarrow> abs_string" where
  "full room s = \<lparr>aval = bytes s, acap = length s, aroom = room\<rparr>"

lemma append_c_full:
  assumes "length t \<le> room"
  shows "append_c t (full room s) = full (room - length t) (s @ t)"
  using assms by (cases t) (simp_all add: append_c_def abs_append_def abs_space_def full_def bytes_append bytes_def)

lemma string_make_full: "unat HeaderSize + length s + 1 \<le> room \<Longrightarrow>
    string_make room s = Some (full (room - (unat HeaderSize + length s + 1)) s)"
  by (simp add: string_make_def full_def)

lemma append_c_room: "append_c t (full room s) = (if length t \<le> room then full (room - length t) (s @ t) else full room s)"
proof (cases "length t \<le> room")
  case False
  then have "t \<noteq> []" by auto
  then show ?thesis using False by (auto simp: append_c_def abs_append_def abs_space_def full_def)
qed (simp add: append_c_full)

text \<open>The statements as they are meant to be.\<close>

definition columns_sql :: "(string \<times> string) list \<Rightarrow> string" where
  "columns_sql cols = concat (map (\<lambda>(c, t). c @ '' '' @ t @ '',\<newline>'') cols)"

definition create_sql :: "string \<Rightarrow> (string \<times> string) list \<Rightarrow> string" where
  "create_sql nm cols = ''CREATE TABLE IF NOT EXISTS '' @ nm @ ''(\<newline>id SERIAL PRIMARY KEY'' @
     concat (map (\<lambda>(c, t). '',\<newline>'' @ c @ '' '' @ t) cols) @ '');''"

definition copy_sql :: "string \<Rightarrow> string list \<Rightarrow> string" where
  "copy_sql nm cols = ''COPY '' @ nm @ ''('' @ hd cols @ concat (map (\<lambda>c. '', '' @ c) (tl cols)) @
     '') FROM STDIN WITH (FORMAT binary)''"

text \<open>Separators after every column are those before every column, moved by one.\<close>

lemma separators_shift: "sep @ concat (map (\<lambda>c. f c @ sep) cs) = concat (map (\<lambda>c. sep @ f c) cs) @ sep"
  by (induction cs) simp_all

lemma column_loop_full:
  assumes "length (columns_sql cols) \<le> room"
  shows "column_loop (map (\<lambda>(c, t). set_key (Some c) (item_of (JStr t))) cols) (full room s) =
    Some (full (room - length (columns_sql cols)) (s @ columns_sql cols))"
  using assms
proof (induction cols arbitrary: room s)
  case (Cons ct cols)
  obtain c t where ct: "ct = (c, t)" by (cases ct)
  let ?p = "c @ '' '' @ t @ '',\<newline>''"
  have l: "length (columns_sql (ct # cols)) = length ?p + length (columns_sql cols)" by (simp add: columns_sql_def ct)
  have "append_c '',\<newline>'' (append_c t (append_c '' '' (append_c c (full room s)))) = full (room - length ?p) (s @ ?p)"
    using Cons.prems l by (simp add: append_c_full)
  then show ?case
    using Cons.IH [of "room - length ?p" "s @ ?p"] Cons.prems l
    by (simp add: ct columns_sql_def cJSON_Is diff_diff_left add.assoc)
qed (simp add: columns_sql_def)

lemma backspace_full: "backspace (length t) (full room (s @ t)) = \<lparr>aval = bytes s, acap = length s + length t, aroom = room\<rparr>"
  by (simp add: backspace_def full_def bytes_append)

lemma append_in_room: "length t \<le> k \<Longrightarrow>
    append_c t \<lparr>aval = bytes s, acap = length s + k, aroom = room\<rparr> = \<lparr>aval = bytes (s @ t), acap = length s + k, aroom = room\<rparr>"
  by (auto simp: append_c_def abs_append_def abs_space_def bytes_append)

lemma append_past_room: "k < length t \<Longrightarrow> length t \<le> room \<Longrightarrow>
    append_c t \<lparr>aval = bytes s, acap = length s + k, aroom = room\<rparr> =
      \<lparr>aval = bytes (s @ t), acap = length s + k + length t, aroom = room - length t\<rparr>"
  by (auto simp: append_c_def abs_append_def abs_space_def bytes_append)

text \<open>With enough room the statement that creates the table is the one that is meant.\<close>

lemma creation_query_full:
  assumes "unat HeaderSize + 1 + length (create_sql nm cols) \<le> room"
  shows "\<exists>Q k. creation_start room nm = Inr Q \<and>
    creation_query (map (\<lambda>(c, t). set_key (Some c) (item_of (JStr t))) cols) Q =
      Some \<lparr>aval = bytes (create_sql nm cols), acap = length (create_sql nm cols), aroom = k\<rparr>"
proof -
  let ?a = "''CREATE TABLE IF NOT EXISTS ''" and ?b = "''(\<newline>id SERIAL PRIMARY KEY''" and ?sep = "'',\<newline>''"
  let ?cols = "concat (map (\<lambda>(c, t). ?sep @ c @ '' '' @ t) cols)"
  have sh: "?sep @ columns_sql cols = ?cols @ ?sep"
  proof -
    have "?sep @ concat (map (\<lambda>ct. (fst ct @ '' '' @ snd ct) @ ?sep) cols) =
        concat (map (\<lambda>ct. ?sep @ (fst ct @ '' '' @ snd ct)) cols) @ ?sep"
      by (rule separators_shift)
    then show ?thesis by (simp only: columns_sql_def case_prod_unfold append_assoc)
  qed
  then have ls: "length (columns_sql cols) = length ?cols"
    by (metis add_left_cancel add.commute length_append)
  define r where "r = room - (unat HeaderSize + length ?a + 1)"
  have len: "length (create_sql nm cols) = length ?a + length nm + length ?b + length ?cols + 2"
    by (simp only: create_sql_def length_append) simp
  define r2 where "r2 = r - length nm - length (?b @ ?sep)"
  have fits: "length nm \<le> r" "length (?b @ ?sep) \<le> r - length nm" "length (columns_sql cols) \<le> r2"
    using assms len by (simp_all add: r_def r2_def ls)
  have "creation_start room nm = Inr (append_c (?b @ ?sep) (append_c nm (full r ?a)))"
    using assms len string_make_full [of ?a room] by (simp add: creation_start_def r_def)
  also have "append_c (?b @ ?sep) (append_c nm (full r ?a)) = full r2 (?a @ nm @ ?b @ ?sep)"
    using fits(1,2) by (simp only: append_c_full r2_def append_assoc)
  finally have st: "creation_start room nm = Inr (full r2 (?a @ nm @ ?b @ ?sep))" .
  have "?a @ nm @ ?b @ ?sep @ columns_sql cols = (?a @ nm @ ?b @ ?cols) @ ?sep" by (simp only: sh append_assoc)
  then have cl: "column_loop (map (\<lambda>(c, t). set_key (Some c) (item_of (JStr t))) cols) (full r2 (?a @ nm @ ?b @ ?sep)) =
      Some (full (r2 - length (columns_sql cols)) ((?a @ nm @ ?b @ ?cols) @ ?sep))"
    using column_loop_full [OF fits(3), of "?a @ nm @ ?b @ ?sep"] by (simp only: append_assoc)
  have bs: "backspace 2 (full k (s @ ?sep)) = \<lparr>aval = bytes s, acap = length s + 2, aroom = k\<rparr>" for k s
    using backspace_full [of ?sep k s] by (simp add: numeral_2_eq_2)
  have ap: "append_c '');'' \<lparr>aval = bytes s, acap = length s + 2, aroom = k\<rparr> =
      \<lparr>aval = bytes (s @ '');''), acap = length s + 2, aroom = k\<rparr>" for k s
    by (rule append_in_room) simp
  have "creation_query (map (\<lambda>(c, t). set_key (Some c) (item_of (JStr t))) cols) (full r2 (?a @ nm @ ?b @ ?sep)) =
      Some \<lparr>aval = bytes (create_sql nm cols), acap = length (create_sql nm cols), aroom = r2 - length (columns_sql cols)\<rparr>"
    unfolding creation_query_def cl option.map bs ap by (simp add: create_sql_def)
  then show ?thesis using st by blast
qed


lemma copy_loop_full:
  assumes "length (concat (map (\<lambda>c. c @ '', '') (map ColumnName (filter (\<lambda>c. \<not> IsAutoIncrement c) mds)))) \<le> room"
  shows "copy_loop mds (full room s) =
    full (room - length (concat (map (\<lambda>c. c @ '', '') (map ColumnName (filter (\<lambda>c. \<not> IsAutoIncrement c) mds)))))
      (s @ concat (map (\<lambda>c. c @ '', '') (map ColumnName (filter (\<lambda>c. \<not> IsAutoIncrement c) mds))))"
  using assms
proof (induction mds arbitrary: room s)
  case (Cons c cs)
  show ?case
  proof (cases "IsAutoIncrement c")
    case False
    then have "append_c '', '' (append_c (ColumnName c) (full room s)) =
        full (room - length (ColumnName c) - 2) (s @ ColumnName c @ '', '')"
      using Cons.prems by (simp add: append_c_full)
    then show ?thesis
      using Cons.IH [of "room - length (ColumnName c) - 2" "s @ ColumnName c @ '', ''"] Cons.prems False by simp
  qed (use Cons in simp)
qed simp

text \<open>So is the statement that copies, for the columns that come with the data.\<close>

lemma copy_command_full:
  assumes "filter (\<lambda>c. \<not> IsAutoIncrement c) mds \<noteq> []"
    and "unat HeaderSize + 3 + length (copy_sql nm (map ColumnName (filter (\<lambda>c. \<not> IsAutoIncrement c) mds))) \<le> room"
  shows "\<exists>C. copy_command room nm mds = Inr C \<and>
    aval C = bytes (copy_sql nm (map ColumnName (filter (\<lambda>c. \<not> IsAutoIncrement c) mds)))"
proof -
  let ?ns = "map ColumnName (filter (\<lambda>c. \<not> IsAutoIncrement c) mds)"
  let ?a = "''COPY ''" and ?sep = "'', ''" and ?z = "'') FROM STDIN WITH (FORMAT binary)''"
  obtain c cs where cs: "?ns = c # cs" using assms(1) by (cases "?ns") auto
  define cols where "cols = c @ concat (map (\<lambda>c. ?sep @ c) cs)"
  have sh: "concat (map (\<lambda>c. c @ ?sep) ?ns) = cols @ ?sep"
  proof -
    have "concat (map (\<lambda>c. c @ ?sep) ?ns) = c @ ?sep @ concat (map (\<lambda>c. c @ ?sep) cs)" unfolding cs by simp
    also have "?sep @ concat (map (\<lambda>c. c @ ?sep) cs) = concat (map (\<lambda>c. ?sep @ c) cs) @ ?sep"
      by (rule separators_shift)
    finally show ?thesis by (simp only: cols_def append_assoc)
  qed
  have sql: "copy_sql nm ?ns = ?a @ nm @ ''('' @ cols @ ?z"
    unfolding cs copy_sql_def cols_def by (simp only: list.sel append_assoc)
  have len: "length (copy_sql nm ?ns) = length ?a + length nm + 1 + length cols + length ?z"
    unfolding sql by (simp only: length_append) simp
  define r where "r = room - (unat HeaderSize + length ?a + 1)"
  have mk: "string_make room ?a = Some (full r ?a)" using assms(2) len string_make_full [of ?a room] by (simp add: r_def)
  define z where "z = ?z"
  have lz: "2 < length z" by (simp add: z_def)
  have ap: "append_c ''('' (append_c nm (full r ?a)) = full (r - length nm - 1) (?a @ nm @ ''('')"
    using assms(2) len by (simp add: append_c_full r_def)
  have cl: "copy_loop mds (full (r - length nm - 1) (?a @ nm @ ''('')) =
      full (r - length nm - 1 - length (cols @ ?sep)) ((?a @ nm @ ''('' @ cols) @ ?sep)"
    using copy_loop_full [of mds "r - length nm - 1" "?a @ nm @ ''(''"] assms(2) len unfolding sh by (simp add: r_def)
  define k where "k = r - length nm - 1 - length (cols @ ?sep)"
  have fits: "length z \<le> k" using assms(2) len by (simp add: r_def k_def z_def)
  have bs: "backspace 2 (full k (s @ ?sep)) = \<lparr>aval = bytes s, acap = length s + 2, aroom = k\<rparr>" for s
    using backspace_full [of ?sep k s] by (simp add: numeral_2_eq_2)
  have "copy_command room nm mds = Inr (append_c z (backspace 2 (copy_loop mds (append_c ''('' (append_c nm (full r ?a))))))"
    unfolding copy_command_def mk z_def by simp
  also have "\<dots> = Inr \<lparr>aval = bytes ((?a @ nm @ ''('' @ cols) @ z), acap = length (?a @ nm @ ''('' @ cols) + 2 + length z,
      aroom = k - length z\<rparr>"
    unfolding ap cl k_def [symmetric] bs append_past_room [OF lz fits] ..
  finally show ?thesis unfolding sql z_def [symmetric] by (simp only: append_assoc) simp
qed

definition names_room :: "catalog_row list \<Rightarrow> nat" where
  "names_room rows = sum_list (map (\<lambda>r. unat HeaderSize + length (fst r) + 1) rows)"

lemma names_made_full: "names_room rows \<le> room \<Longrightarrow> names_made rows room = (replicate (length rows) True, room - names_room rows)"
proof (induction rows arbitrary: room)
  case (Cons r rows)
  then have "string_make room (fst r) = Some (full (room - (unat HeaderSize + length (fst r) + 1)) (fst r))"
    by (intro string_make_full) (simp add: names_room_def)
  then show ?case
    using Cons.IH [of "room - (unat HeaderSize + length (fst r) + 1)"] Cons.prems
    by (cases r) (simp add: names_room_def full_def diff_diff_left Let_def)
qed (simp add: names_room_def)

section \<open>A sensor's schema, prepared\<close>

definition sensor_json :: "string \<Rightarrow> (string \<times> string) list \<Rightarrow> json" where
  "sensor_json nm cols = JObj [(''name'', JStr nm), (''data'', JObj (map (\<lambda>(c, t). (c, JStr t)) cols))]"

lemma sensor_members:
  "cJSON_GetObjectItem (Some (item_of (sensor_json nm cols))) ''name'' = Some (set_key (Some ''name'') (item_of (JStr nm)))"
  "cJSON_GetObjectItem (Some (item_of (sensor_json nm cols))) ''data'' =
     Some (set_key (Some ''data'') (item_of (JObj (map (\<lambda>(c, t). (c, JStr t)) cols))))"
  unfolding sensor_json_def get_member by (simp_all add: tolower_def Let_def)

lemma sensor_named_json: "sensor_named (item_of (sensor_json nm cols))"
  unfolding sensor_named_def sensor_members by (simp_all add: sensor_json_def cJSON_Is list_item_def)

lemma sensor_shape:
  "\<exists>N D. cJSON_GetObjectItem (Some (item_of (sensor_json nm cols))) ''name'' = Some N \<and> valuestring N = Some nm \<and>
    cJSON_GetObjectItem (Some (item_of (sensor_json nm cols))) ''data'' = Some D \<and> cJSON_IsObject (Some D) \<and>
    children D = map (\<lambda>(c, t). set_key (Some c) (item_of (JStr t))) cols"
  unfolding sensor_members by (simp add: cJSON_Is list_item_def comp_def split_def)

text \<open>The space the description of a table takes in the thread's arena, up to the copy statement.\<close>

definition table_room :: "string \<Rightarrow> catalog_row list \<Rightarrow> nat" where
  "table_room nm rows = sizeof_pg_table_info + (unat HeaderSize + length nm + 1) +
     length rows * sizeof_pg_col_metadata + names_room rows"

lemma table_metadata_full:
  assumes "GetTableMetadata (Some rows) True (ColCount J) (ColCountNoAutoIncrements J) (RowSize J) = (Some mds, n, k, sz)"
    and "length rows * sizeof_pg_col_metadata + names_room rows \<le> room" "length mds = length rows"
  shows "table_metadata (Some rows) room J =
    (Some (map (\<lambda>md. (md, True)) mds, room - length rows * sizeof_pg_col_metadata - names_room rows), n, k, sz)"
proof -
  have "names_made rows (room - length rows * sizeof_pg_col_metadata) =
      (replicate (length rows) True, room - length rows * sizeof_pg_col_metadata - names_room rows)"
    using assms(2) by (intro names_made_full) simp
  moreover have "zip mds (replicate (length rows) True) = map (\<lambda>md. (md, True)) mds"
    using assms(3) zip_replicate2 [of mds "length rows" True] by (simp only: order_refl take_all)
  ultimately show ?thesis using assms(1,2) by (simp add: table_metadata_def Let_def)
qed

lemma length_metadata_loop: "metadata_loop rows Off = (mds, sz, cnt) \<Longrightarrow> length mds = length rows"
  by (induction rows arbitrary: Off mds sz cnt) (auto simp: Let_def split: prod.splits if_splits)

text \<open>
  A sensor whose schema is well formed, when there is room: the statements are those that are meant, and a buffer of
  the pipe is filled up to a whole number of rows, as many as it holds.
\<close>

lemma sensor_prepared:
  assumes "unat HeaderSize + 1 + length (create_sql nm cols) \<le> scratch"
    and "CreateOk E" "Catalog E = Some rows" "rows \<noteq> []" "length rows < 2 ^ 15"
    and "GetTableMetadata (Some rows) True (ColCount (Junk E)) (ColCountNoAutoIncrements (Junk E)) (RowSize (Junk E)) =
      (Some mds, n, k, sz)"
    and "filter (\<lambda>c. \<not> IsAutoIncrement c) mds \<noteq> []" "sz \<noteq> 0"
  defines "copy \<equiv> copy_sql nm (map ColumnName (filter (\<lambda>c. \<not> IsAutoIncrement c) mds))"
  assumes "table_room nm rows + unat HeaderSize + 3 + length copy \<le> room"
  shows "\<exists>Ti ps scratch' room'.
    prepare_sensor scratch room (item_of (sensor_json nm cols)) E Cap0 = Inr ([bytes (create_sql nm cols)], Inr (Ti, ps, scratch', room')) \<and>
    Ti = \<lparr>ColCount = n, ColCountNoAutoIncrements = k, RowSize = sz, TableName = nm, CopyCommand = copy, ColMetadata = mds\<rparr> \<and>
    unat (PsBufferMaxFill ps) = unat (PsItemMaxCount ps) * unat sz \<and> unat (PsBufferMaxFill ps) \<le> unat Cap0 \<and>
    unat Cap0 < unat (PsBufferMaxFill ps) + unat (PsPacketSize ps) \<and> PsPacketSize ps = sz"
proof -
  obtain Q q where Q: "creation_start scratch nm = Inr Q"
    "creation_query (map (\<lambda>(c, t). set_key (Some c) (item_of (JStr t))) cols) Q =
      Some \<lparr>aval = bytes (create_sql nm cols), acap = length (create_sql nm cols), aroom = q\<rparr>"
    using creation_query_full [OF assms(1)] by blast
  obtain mds' sz' cnt where l: "metadata_loop rows 0 = (mds', sz', cnt)" by (cases "metadata_loop rows 0")
  then have mds: "length mds = length rows" "n = of_nat (length rows)"
    using assms(6) length_metadata_loop [OF l] by (auto simp: GetTableMetadata_def Let_def)
  have "unat (scast n :: u64) = length rows" using unat_scast_of_nat [OF assms(5)] by (simp only: mds(2))
  then have n0: "n \<noteq> 0" using assms(4) by (metis length_0_conv scast_0 unsigned_0)
  define r1 where "r1 = room - sizeof_pg_table_info"
  define r2 where "r2 = r1 - (unat HeaderSize + length nm + 1)"
  define r3 where "r3 = r2 - length rows * sizeof_pg_col_metadata - names_room rows"
  have room: "\<not> room < sizeof_pg_table_info" "unat HeaderSize + length nm + 1 \<le> r1"
    "length rows * sizeof_pg_col_metadata + names_room rows \<le> r2" "unat HeaderSize + 3 + length copy \<le> r3"
    using assms(10) by (simp_all add: table_room_def r1_def r2_def r3_def)
  have T: "string_make r1 nm = Some (full r2 nm)" using string_make_full [OF room(2)] by (simp only: r2_def)
  have md: "table_metadata (Some rows) r2 (Junk E) = (Some (map (\<lambda>md. (md, True)) mds, r3), n, k, sz)"
    unfolding r3_def by (rule table_metadata_full [OF assms(6) room(3) mds(1)])
  obtain C where C: "copy_command r3 nm mds = Inr C" "aval C = bytes copy"
    using copy_command_full [OF assms(7), of nm r3] room(4) by (auto simp: copy_def)
  define s where "s = item_of (sensor_json nm cols)"
  obtain N D where ND: "cJSON_GetObjectItem (Some s) ''name'' = Some N" "valuestring N = Some nm"
    "cJSON_GetObjectItem (Some s) ''data'' = Some D" "cJSON_IsObject (Some D)"
    "children D = map (\<lambda>(c, t). set_key (Some c) (item_of (JStr t))) cols"
    using sensor_shape [of nm cols] unfolding s_def by blast
  have "prepare_sensor scratch room s E Cap0 = Inr ([bytes (create_sql nm cols)],
      Inr (\<lparr>ColCount = n, ColCountNoAutoIncrements = k, RowSize = sz, TableName = nm, CopyCommand = copy, ColMetadata = mds\<rparr>,
        \<lparr>PsPacketSize = sz, PsItemMaxCount = Cap0 div sz, PsBufferMaxFill = sz * (Cap0 div sz)\<rparr>, q, aroom C))"
    using Q T md C room(1) n0 assms(2,3,8)
      sensor_named_json [of nm cols, folded s_def]
    by (simp add: prepare_sensor_def Let_def ND r1_def [symmetric] full_def comp_def del: item_of.simps)
  moreover have le: "unat sz * unat (Cap0 div sz) \<le> unat Cap0" by (simp add: unat_div)
  have "unat (sz * (Cap0 div sz)) = unat sz * unat (Cap0 div sz)"
    using le_less_trans [OF le unsigned_less] by (simp only: unat_mult_lem)
  then have "unat (sz * (Cap0 div sz)) = unat (Cap0 div sz) * unat sz" by (simp only: mult.commute)
  moreover have "unat (Cap0 div sz) * unat sz \<le> unat Cap0" "unat Cap0 < unat (Cap0 div sz) * unat sz + unat sz"
    using assms(8) dividend_less_div_times [of "unat sz" "unat Cap0"] by (simp_all add: unat_div word_unat_eq_iff add.commute)
  ultimately show ?thesis unfolding s_def by simp
qed

definition schema_json :: "string \<Rightarrow> (string \<times> string) list \<Rightarrow> json" where
  "schema_json nm cols = JObj [(''sensors'', JArr [sensor_json nm cols])]"

lemma schema_shape:
  "\<exists>S. cJSON_GetObjectItem (Some (item_of (schema_json nm cols))) ''sensors'' = Some S \<and> cJSON_IsArray (Some S) \<and>
    cJSON_ArrayForEach (Some S) = [item_of (sensor_json nm cols)] \<and> cJSON_GetArraySize (Some S) = 1 \<and>
    cJSON_IsObject (Some (item_of (schema_json nm cols)))"
proof -
  have "cJSON_GetObjectItem (Some (item_of (schema_json nm cols))) ''sensors'' =
      Some (set_key (Some ''sensors'') (item_of (JArr [sensor_json nm cols])))"
    unfolding schema_json_def get_member by (simp add: tolower_def Let_def)
  moreover have "cJSON_IsObject (Some (item_of (schema_json nm cols)))"
    by (simp add: schema_json_def cJSON_Is list_item_def)
  ultimately show ?thesis
    by (simp add: cJSON_Is list_item_def cJSON_ArrayForEach_def cJSON_GetArraySize_def)
qed


definition example_answers :: sensor_answers where
  "example_answers = \<lparr>CreateOk = True, Catalog = Some shaft_catalog,
     Junk = \<lparr>ColCount = 0, ColCountNoAutoIncrements = 0, RowSize = 0, TableName = [], CopyCommand = [], ColMetadata = []\<rparr>\<rparr>"


end
