(* ===== verification/Sdb_Log.thy ===== *)
theory Sdb_Log
  imports Thread_Sync
begin

text \<open>
  The log writer, \<^verbatim>\<open>Sdb__WriteLog__\<close> of \<^verbatim>\<open>src/Sdb.h\<close>: a module's buffer and lock, the line that is
  put together and the early returns. What the clock, the formatting functions and \<^verbatim>\<open>write\<close> answer is a parameter.
\<close>

section \<open>Writing a line\<close>

definition SDB_LOG_BUF_SIZE :: nat where "SDB_LOG_BUF_SIZE = 2048"

text \<open>A module; \<open>LLocked\<close> is its mutex, which is not recursive.\<close>

record log_module =
  LName :: string
  LBufferSize :: nat
  LLocked :: bool

definition SDB_LOG_REGISTER :: "string \<Rightarrow> log_module" where
  "SDB_LOG_REGISTER module_name = \<lparr>LName = module_name, LBufferSize = SDB_LOG_BUF_SIZE, LLocked = False\<rparr>"

text \<open>
  What a call meets: the clock, the time as text (\<^verbatim>\<open>%T: \<close>), whether the prefix can be formatted, the formatted
  message (\<open>None\<close> for an error), whether it can be written, and \<^verbatim>\<open>errno\<close> where one of them fails.
\<close>

record log_env =
  TimeOk :: bool
  LocalTimeOk :: bool
  Stamp :: string
  PrefixOk :: bool
  Message :: "string option"
  WriteOk :: bool
  LErrno :: int

text \<open>A call waits for the lock, or returns with the module after it and what was written, to a descriptor.\<close>

datatype log_end = LogWaits | LogReturns int log_module "(int \<times> string) option"

definition log_prefix :: "log_env \<Rightarrow> string \<Rightarrow> log_module \<Rightarrow> string" where
  "log_prefix E LogLevel M = Stamp E @ LName M @ '': '' @ LogLevel @ '': ''"

definition STDOUT_FILENO :: int where "STDOUT_FILENO = 1"
definition STDERR_FILENO :: int where "STDERR_FILENO = 2"

definition dropped :: string where "dropped = ''Message dropped; too big''"

text \<open>
  \<^verbatim>\<open>strftime\<close> gives 0 when the text and its NUL do not fit; \<^verbatim>\<open>snprintf\<close> gives the length there would be. Only
  \<^verbatim>\<open>strftime\<close>'s zero stops a build with assertions: the other assertions are of a length that is not zero.
  The lock is released at the end only.
\<close>

definition Sdb__WriteLog :: "bool \<Rightarrow> log_env \<Rightarrow> string \<Rightarrow> log_module option \<Rightarrow> log_end res" where
  "Sdb__WriteLog asserts E LogLevel Module =
     (case Module of
        None \<Rightarrow> Inr (LogReturns 0 \<lparr>LName = [], LBufferSize = 0, LLocked = False\<rparr> None)
      | Some M \<Rightarrow>
          if LLocked M then Inr LogWaits
          else
            (let M = M\<lparr>LLocked := True\<rparr>;
                 fails = (\<lambda>e. Inr (LogReturns (- e) M None));
                 Remaining = LBufferSize M;
                 Prefix = log_prefix E LogLevel M
             in if \<not> TimeOk E \<or> \<not> LocalTimeOk E then fails (LErrno E)
                else if length (Stamp E) \<ge> Remaining \<or> Stamp E = []
                then (if asserts then Inl AssertFail else fails ENOMEM)
                else if \<not> PrefixOk E then fails (LErrno E)
                else if length Prefix \<ge> Remaining then fails ENOMEM
                else
                  (case Message E of
                     None \<Rightarrow> fails (LErrno E)
                   | Some Msg \<Rightarrow>
                       (let Text = (if length Prefix + length Msg \<ge> Remaining then dropped else Msg)
                        in if length Prefix + length Text \<ge> Remaining then fails ENOMEM
                           else
                             (let Line = Prefix @ Text @ [CHR 10];
                                  OutFd = (if LogLevel \<noteq> [] \<and> hd LogLevel = CHR ''E'' then STDERR_FILENO else STDOUT_FILENO)
                              in if \<not> WriteOk E then fails (LErrno E)
                                 else Inr (LogReturns 0 (M\<lparr>LLocked := False\<rparr>) (Some (OutFd, Line))))))))"

section \<open>What it guarantees\<close>

definition log_ok :: "log_env \<Rightarrow> bool" where
  "log_ok E \<longleftrightarrow> TimeOk E \<and> LocalTimeOk E \<and> PrefixOk E \<and> Message E \<noteq> None \<and> WriteOk E \<and> Stamp E \<noteq> []"


text \<open>
  A call that returns an error leaves the module locked: every later call for that module, whatever it
  meets, waits for ever.
\<close>

theorem log_error_keeps_lock:
  assumes "Sdb__WriteLog asserts E LogLevel (Some M) = Inr (LogReturns r M' out)" "r \<noteq> 0"
  shows "out = None \<and> LLocked M' \<and> (\<forall>asserts' E' LogLevel'. Sdb__WriteLog asserts' E' LogLevel' (Some M') = Inr LogWaits)"
proof -
  have "LLocked M' \<and> out = None"
    using assms by (auto simp: Sdb__WriteLog_def Let_def split: if_splits option.splits)
  then show ?thesis by (simp add: Sdb__WriteLog_def)
qed

definition example_log_env :: log_env where
  "example_log_env = \<lparr>TimeOk = True, LocalTimeOk = True, Stamp = ''12:00:00: '', PrefixOk = True, Message = Some ''Hello'',
     WriteOk = True, LErrno = 5\<rparr>"


theorem log_error_keeps_lock_witness:
  "\<exists>M'. Sdb__WriteLog True (example_log_env\<lparr>WriteOk := False\<rparr>) ''INF'' (Some (SDB_LOG_REGISTER ''Main'')) =
      Inr (LogReturns (- 5) M' None) \<and>
    Sdb__WriteLog True example_log_env ''ERR'' (Some M') = Inr LogWaits"
proof -
  let ?M = "(SDB_LOG_REGISTER ''Main'')\<lparr>LLocked := True\<rparr>"
  have "Sdb__WriteLog True (example_log_env\<lparr>WriteOk := False\<rparr>) ''INF'' (Some (SDB_LOG_REGISTER ''Main'')) =
      Inr (LogReturns (- 5) ?M None)"
    by (simp add: Sdb__WriteLog_def Let_def example_log_env_def SDB_LOG_REGISTER_def SDB_LOG_BUF_SIZE_def log_prefix_def dropped_def)
  then show ?thesis using log_error_keeps_lock by fastforce
qed

end
