(* ===== verification/Signals.thy ===== *)
theory Signals
  imports Sensor_Pipe_Refine Modbus_Ctx Sdb_Log
begin

text \<open>
  Signals, \<^verbatim>\<open>src/Signals.c\<close>: the shutdown flag, the handler and what it does for each signal, the dump
  of the pipe and its conversion. What the file system and the clock answer is a parameter; a file is the bytes
  written to it. The text of the addresses and of the times is a parameter too.
\<close>

section \<open>The handler\<close>

datatype signal = SIGINT | SIGTERM | SIGSEGV | SIGABRT | SIGFPE | SIGILL | OtherSignal int

text \<open>
  The global context, without the manager it only points to. \<open>SigPipe\<close> is the pipe a data handler has
  registered.
\<close>

record signal_handler_context =
  MemoryDumpPath :: "string option"
  ShutdownFlag :: int
  SigPipe :: "sensor_data_pipe option"

text \<open>
  A process as the signals see it: the shutdown flag, the context, the signals that wait for delivery, and
  what was dumped.
\<close>

datatype dump = MemoryDump signal "u8 list" | PipeDump "u8 list"

record process =
  GShutdownRequested :: int
  GSignalContext :: signal_handler_context
  Pending :: "signal list"
  Dumps :: "dump list"

definition InitiateGracefulShutdown :: "process \<Rightarrow> process" where
  "InitiateGracefulShutdown p = p\<lparr>GShutdownRequested := 1\<rparr>"

definition SdbShouldShutdown :: "process \<Rightarrow> bool" where
  "SdbShouldShutdown p = (GShutdownRequested p \<noteq> 0)"

definition SdbIsShutdownInProgress :: "process \<Rightarrow> bool" where
  "SdbIsShutdownInProgress p = (ShutdownFlag (GSignalContext p) = 1)"

definition SdbSetMemoryDumpPath :: "string \<Rightarrow> process \<Rightarrow> process" where
  "SdbSetMemoryDumpPath Path p = p\<lparr>GSignalContext := (GSignalContext p)\<lparr>MemoryDumpPath := Some Path\<rparr>\<rparr>"

text \<open>The name of a thread, as \<^verbatim>\<open>pthread_getname_np\<close> answers it.\<close>

definition GetThreadName :: "string option \<Rightarrow> nat \<Rightarrow> string" where
  "GetThreadName answer Size = (case answer of Some Name \<Rightarrow> Name | None \<Rightarrow> take (Size - 1) ''Unknown'')"

section \<open>Memory dumps\<close>

definition ascii :: "string \<Rightarrow> u8 list" where "ascii s = map of_char s"

text \<open>
  A line of the process's map: its text, and the start, the end and the permissions when they can be read off it.
  \<open>Readable\<close> gives the memory, or \<open>None\<close> when writing it fails.
\<close>

record map_line =
  LineText :: "u8 list"
  LineRange :: "(u64 \<times> u64 \<times> string) option"

definition region_limit :: u64 where "region_limit = 1024 * 1024"

text \<open>The memory is told apart by its size; \<open>Failure\<close> is the line that says why it could not be written.\<close>

definition dump_region :: "(u64 \<Rightarrow> u64 \<Rightarrow> u8 list option) \<Rightarrow> u8 list \<Rightarrow> map_line \<Rightarrow> u8 list" where
  "dump_region Readable Failure L =
     (case LineRange L of
        None \<Rightarrow> []
      | Some (Start, End, Perms) \<Rightarrow>
          if CHR ''r'' \<in> set Perms
          then take 12 (ascii (CHR 10 # ''--- Region: '')) @ LineText L @
            (if End - Start < region_limit
             then (case Readable Start (End - Start) of Some bs \<Rightarrow> bs | None \<Rightarrow> Failure)
             else ascii (''Region too large to dump'' @ [CHR 10]))
          else [])"

fun signal_number :: "signal \<Rightarrow> int" where
  "signal_number SIGINT = 2" | "signal_number SIGTERM = 15" | "signal_number SIGSEGV = 11" | "signal_number SIGABRT = 6"
| "signal_number SIGFPE = 8" | "signal_number SIGILL = 4" | "signal_number (OtherSignal n) = n"

text \<open>What a dump meets: the directory, the file, the texts of the header, the stack and the map of the memory.\<close>

record dump_env =
  MkdirErrno :: "int option"
  DumpOpens :: bool
  CTime :: string
  ThreadIdText :: string
  ThreadNameAnswer :: "string option"
  FaultAddress :: string
  ProcessIdText :: string
  BacktraceSymbols :: "string list option"
  MapLines :: "map_line list option"
  Readable :: "u64 \<Rightarrow> u64 \<Rightarrow> u8 list option"
  FailureText :: "u8 list"
  PipeFileOpens :: bool
  DumpMemory :: "mem"
  DumpArenas :: "arena_store"

definition dump_header :: "signal \<Rightarrow> dump_env \<Rightarrow> u8 list" where
  "dump_header SignalNum E = take 1023 (ascii (
     ''Memory Dump Information:'' @ [CHR 10] @
     ''Timestamp: '' @ CTime E @
     ''Signal: '' @ decimal (nat (signal_number SignalNum)) @ [CHR 10] @
     ''Thread ID: '' @ ThreadIdText E @ [CHR 10] @
     ''Thread Name: '' @ GetThreadName (ThreadNameAnswer E) 32 @ [CHR 10] @
     ''Fault Address: '' @ FaultAddress E @ [CHR 10] @
     ''Process ID: '' @ ProcessIdText E @ [CHR 10, CHR 10]))"

definition DumpProcessMemory :: "signal \<Rightarrow> dump_env \<Rightarrow> process \<Rightarrow> process" where
  "DumpProcessMemory SignalNum E p =
     (if (case MkdirErrno E of None \<Rightarrow> False | Some e \<Rightarrow> e \<noteq> EEXIST) then p
      else if \<not> DumpOpens E then p
      else
        p\<lparr>Dumps := Dumps p @ [MemoryDump SignalNum (dump_header SignalNum E @
          (case BacktraceSymbols E of None \<Rightarrow> []
           | Some Syms \<Rightarrow> ascii (''Stack Trace:'' @ [CHR 10]) @ concat (map (\<lambda>y. ascii (y @ [CHR 10])) Syms)) @
          (case MapLines E of None \<Rightarrow> []
           | Some Lines \<Rightarrow> ascii ([CHR 10] @ ''Memory Regions:'' @ [CHR 10]) @
               concat (map (dump_region (Readable E) (FailureText E)) Lines)))]\<rparr>)"

section \<open>Dumps of the pipe\<close>

definition dump_buffer :: "mem \<Rightarrow> sdb_arena \<Rightarrow> u8 list" where
  "dump_buffer m Buffer = le_bytes 8 (unat (Cur Buffer)) @ (if Cur Buffer > 0 then rd m (Mem Buffer) (unat (Cur Buffer)) else [])"

text \<open>The four fields, then every buffer with its length; \<open>None\<close> is a file that could not be made.\<close>

definition SdbDumpSensorDataPipe ::
  "mem \<Rightarrow> arena_store \<Rightarrow> bool \<Rightarrow> sensor_data_pipe option \<Rightarrow> bool \<Rightarrow> u8 list option res" where
  "SdbDumpSensorDataPipe m st opens PipePtr Filename =
     (case PipePtr of
        None \<Rightarrow> Inr None
      | Some P \<Rightarrow>
          if \<not> Filename then Inr None
          else if \<not> opens then Inr None
          else if \<exists>i<unat (BufCount P). length (Buffers P) \<le> i then Inl OutOfBounds
          else if \<exists>i<unat (BufCount P). Buffers P ! i = NULL then Inl NullDeref
          else Inr (Some (le_bytes 8 (unat (BufCount P)) @ le_bytes 8 (unat (BufferMaxFill P)) @
            le_bytes 8 (unat (PacketSize P)) @ le_bytes 8 (unat (ItemMaxCount P)) @
            concat (map (\<lambda>i. dump_buffer m (st (Buffers P ! i))) [0..<unat (BufCount P)]))))"

definition HandlePipeDump :: "dump_env \<Rightarrow> process \<Rightarrow> (bool \<times> process) res" where
  "HandlePipeDump E p =
     (if SigPipe (GSignalContext p) = None then Inr (False, p)
      else (case SdbDumpSensorDataPipe (DumpMemory E) (DumpArenas E) (PipeFileOpens E) (SigPipe (GSignalContext p)) True of
              Inl f \<Rightarrow> Inl f
            | Inr None \<Rightarrow> Inr (False, p)
            | Inr (Some bs) \<Rightarrow> Inr (True, p\<lparr>Dumps := Dumps p @ [PipeDump bs]\<rparr>)))"

section \<open>Delivery\<close>

text \<open>A signal raised inside its own handler is blocked until the handler returns; a second one is merged with it.\<close>

definition raise :: "signal \<Rightarrow> process \<Rightarrow> process" where
  "raise sig p = (if sig \<in> set (Pending p) then p else p\<lparr>Pending := Pending p @ [sig]\<rparr>)"

fun SignalHandler :: "signal \<Rightarrow> dump_env \<Rightarrow> process \<Rightarrow> process res" where
  "SignalHandler SIGINT E p = Inr (InitiateGracefulShutdown p)"
| "SignalHandler SIGTERM E p = Inr (InitiateGracefulShutdown p)"
| "SignalHandler SIGSEGV E p =
     (case HandlePipeDump E (DumpProcessMemory SIGSEGV E p) of Inl f \<Rightarrow> Inl f | Inr (_, p) \<Rightarrow> Inr (raise SIGSEGV p))"
| "SignalHandler SIGABRT E p = Inr (raise SIGABRT (DumpProcessMemory SIGABRT E p))"
| "SignalHandler SIGFPE E p =
     (case HandlePipeDump E (DumpProcessMemory SIGFPE E p) of Inl f \<Rightarrow> Inl f | Inr (_, p) \<Rightarrow> Inr (raise SIGFPE p))"
| "SignalHandler SIGILL E p = Inr (raise SIGILL (DumpProcessMemory SIGILL E p))"
| "SignalHandler (OtherSignal n) E p = Inr p"

text \<open>The handler stays installed and its signal is blocked while it runs only; each delivery meets its own answers.\<close>

definition SignalsToHandle :: "signal list" where
  "SignalsToHandle = [SIGINT, SIGTERM, SIGSEGV, SIGABRT, SIGFPE, SIGILL]"

definition SdbSetupSignalHandlers :: "(signal \<Rightarrow> bool) \<Rightarrow> int \<times> signal list" where
  "SdbSetupSignalHandlers sigaction =
     (if \<forall>sig\<in>set SignalsToHandle. sigaction sig then 0 else - 1, takeWhile sigaction SignalsToHandle)"

fun deliver :: "dump_env list \<Rightarrow> process \<Rightarrow> process res" where
  "deliver [] p = Inr p"
| "deliver (E # Es) p =
     (case Pending p of
        [] \<Rightarrow> Inr p
      | sig # rest \<Rightarrow> (case SignalHandler sig E (p\<lparr>Pending := rest\<rparr>) of Inl f \<Rightarrow> Inl f | Inr p \<Rightarrow> deliver Es p))"

section \<open>From a dump to a table\<close>

text \<open>A packet in a file: six values of eight bytes each, two integers and four doubles as they are stored.\<close>

record shaft_power_data =
  SpPacketId :: u64
  SpTime :: u64
  SpRpm :: u64
  SpTorque :: u64
  SpPower :: u64
  SpPeakPeakPfs :: u64

definition read_u64 :: "u8 list \<Rightarrow> nat \<Rightarrow> u64" where
  "read_u64 bs i = of_nat (of_le (take 8 (drop (8 * i) bs)))"

definition read_packet :: "u8 list \<Rightarrow> shaft_power_data" where
  "read_packet bs = \<lparr>SpPacketId = read_u64 bs 0, SpTime = read_u64 bs 1, SpRpm = read_u64 bs 2, SpTorque = read_u64 bs 3,
     SpPower = read_u64 bs 4, SpPeakPeakPfs = read_u64 bs 5\<rparr>"

fun fread_packets :: "u8 list \<Rightarrow> shaft_power_data list" where
  "fread_packets bs = (if length bs < 48 then [] else read_packet (take 48 bs) # fread_packets (drop 48 bs))"

declare fread_packets.simps [simp del]

text \<open>The rows written, from the first byte of the file on; \<open>None\<close> when one of the files cannot be opened.\<close>

definition ConvertDumpToCSV :: "u8 list option \<Rightarrow> bool \<Rightarrow> shaft_power_data list option" where
  "ConvertDumpToCSV DumpFile csv_opens =
     (case DumpFile of None \<Rightarrow> None | Some bs \<Rightarrow> if \<not> csv_opens then None else Some (fread_packets bs))"

section \<open>A dump holds the pipe\<close>

text \<open>Reading a dump back: the fields, then as many buffers as the first says.\<close>

fun read_buffers :: "nat \<Rightarrow> u8 list \<Rightarrow> u8 list list \<times> u8 list" where
  "read_buffers 0 bs = ([], bs)"
| "read_buffers (Suc k) bs =
     (let n = of_le (take 8 bs);
          (ds, rest) = read_buffers k (drop (8 + n) bs)
      in (take n (drop 8 bs) # ds, rest))"

definition read_dump :: "u8 list \<Rightarrow> u64 list \<times> u8 list list \<times> u8 list" where
  "read_dump bs = (let fields = map (read_u64 bs) [0..<4] in (fields, read_buffers (unat (hd fields)) (drop 32 bs)))"

lemma dump_buffer_eq: "dump_buffer m A = le_bytes 8 (unat (Cur A)) @ buf_bytes m A"
  by (cases "Cur A = 0") (simp_all add: dump_buffer_def buf_bytes_def rd_0 word_gt_0)

lemma of_le_field: "of_le (le_bytes 8 (unat (x :: u64))) = unat x"
  using unat_u64_less [of x] by (simp add: of_le_le_bytes)

lemma read_buffers_dump:
  "read_buffers (length As) (concat (map (dump_buffer m) As) @ rest) = (map (buf_bytes m) As, rest)"
proof (induction As)
  case (Cons A As)
  have l: "length (buf_bytes m A) = unat (Cur A)" by (simp add: buf_bytes_def)
  let ?x = "le_bytes 8 (unat (Cur A))"
  have "take 8 (?x @ y) = ?x" "drop (8 + k) (?x @ y) = drop k y" for y k by simp_all
  then show ?case using Cons l of_le_field [of "Cur A"]
    by (simp add: dump_buffer_eq del: le_bytes.simps)
qed simp

lemma SdbDumpSensorDataPipe_eq:
  assumes "pipe_ok n st P"
  shows "SdbDumpSensorDataPipe m st True (Some P) True =
    Inr (Some (le_bytes 8 (unat (BufCount P)) @ le_bytes 8 (unat (BufferMaxFill P)) @ le_bytes 8 (unat (PacketSize P)) @
      le_bytes 8 (unat (ItemMaxCount P)) @ concat (map (dump_buffer m) (map (buf_arena st P) [0..<n]))))"
  using assms pipe_ok_not_null [OF assms]
  by (auto simp: SdbDumpSensorDataPipe_def pipe_ok_def buf_arena_def comp_def)

lemma read_u64_0: "read_u64 (le_bytes 8 (unat x) @ y) 0 = x"
  using of_le_field [of x] by (simp add: read_u64_def)

lemma read_u64_step:
  assumes "length z = 8" "0 < i"
  shows "read_u64 (z @ y) i = read_u64 y (i - 1)"
proof -
  obtain j where "i = Suc j" using assms(2) by (cases i) auto
  then show ?thesis using assms(1) by (simp add: read_u64_def)
qed

lemma read_fields:
  "read_u64 (le_bytes 8 (unat a) @ y) 0 = a"
  "read_u64 (le_bytes 8 (unat a) @ le_bytes 8 (unat b) @ y) 1 = b"
  "read_u64 (le_bytes 8 (unat a) @ le_bytes 8 (unat b) @ le_bytes 8 (unat c) @ y) 2 = c"
  "read_u64 (le_bytes 8 (unat a) @ le_bytes 8 (unat b) @ le_bytes 8 (unat c) @ le_bytes 8 (unat d) @ y) 3 = d"
  "read_u64 (le_bytes 8 (unat a) @ le_bytes 8 (unat b) @ le_bytes 8 (unat c) @ le_bytes 8 (unat d) @ le_bytes 8 (unat e) @ y) 4 = e"
  by (simp_all add: read_u64_step read_u64_0 del: le_bytes.simps)

lemma upt_4: "[0..<4] = [0, 1, 2, 3 :: nat]"
  by code_simp

lemma read_u64_take: "8 * i + 8 \<le> k \<Longrightarrow> read_u64 (take k bs) i = read_u64 bs i"
  by (simp add: read_u64_def drop_take)

text \<open>
  C22. What is dumped of a pipe can be read back: its sizes and the contents of all its buffers, with nothing left over.
\<close>

theorem pipe_dump_roundtrip:
  assumes "pipe_ok n st P"
  shows "\<exists>bs. SdbDumpSensorDataPipe m st True (Some P) True = Inr (Some bs) \<and>
    read_dump bs = ([BufCount P, BufferMaxFill P, PacketSize P, ItemMaxCount P], map (buf_bytes m \<circ> buf_arena st P) [0..<n], [])"
proof -
  let ?w = "\<lambda>x :: u64. le_bytes 8 (unat x)"
  let ?bufs = "concat (map (dump_buffer m) (map (buf_arena st P) [0..<n]))"
  let ?bs = "?w (BufCount P) @ ?w (BufferMaxFill P) @ ?w (PacketSize P) @ ?w (ItemMaxCount P) @ ?bufs"
  have f: "map (read_u64 ?bs) [0..<4] = [BufCount P, BufferMaxFill P, PacketSize P, ItemMaxCount P]"
    by (simp add: upt_4 read_fields del: le_bytes.simps One_nat_def)
  have d: "drop 32 ?bs = ?bufs" by (simp del: le_bytes.simps)
  have n: "unat (hd [BufCount P, BufferMaxFill P, PacketSize P, ItemMaxCount P]) = n" using assms by (simp add: pipe_ok_def)
  have "read_buffers n ?bufs = (map (buf_bytes m) (map (buf_arena st P) [0..<n]), [])"
    using read_buffers_dump [of "map (buf_arena st P) [0..<n]" m "[]"] by simp
  then have "read_dump ?bs = ([BufCount P, BufferMaxFill P, PacketSize P, ItemMaxCount P],
      map (buf_bytes m \<circ> buf_arena st P) [0..<n], [])"
    unfolding read_dump_def Let_def f d n by simp
  then show ?thesis using SdbDumpSensorDataPipe_eq [OF assms] by blast
qed

text \<open>
  The conversion to a table does not know the format: its first row shows the pipe's sizes as a packet, and what
  follows is shifted by the forty bytes before the first buffer's contents.
\<close>

theorem dump_conversion_misreads:
  assumes "pipe_ok n st P" "8 \<le> unat (Cur (buf_arena st P 0))"
  shows "\<exists>bs row rows. SdbDumpSensorDataPipe m st True (Some P) True = Inr (Some bs) \<and>
    ConvertDumpToCSV (Some bs) True = Some (row # rows) \<and>
    SpPacketId row = BufCount P \<and> SpTime row = BufferMaxFill P \<and> SpRpm row = PacketSize P \<and> SpTorque row = ItemMaxCount P \<and>
    SpPower row = Cur (buf_arena st P 0)"
proof -
  let ?w = "\<lambda>x :: u64. le_bytes 8 (unat x)"
  obtain y where y: "concat (map (dump_buffer m) (map (buf_arena st P) [0..<n])) = ?w (Cur (buf_arena st P 0)) @ y" "8 \<le> length y"
  proof
    let ?rest = "concat (map (dump_buffer m) (map (buf_arena st P) [1..<n]))"
    have "[0..<n] = 0 # [1..<n]" using assms(1) by (simp add: pipe_ok_def upt_conv_Cons)
    then show "concat (map (dump_buffer m) (map (buf_arena st P) [0..<n])) =
        ?w (Cur (buf_arena st P 0)) @ (buf_bytes m (buf_arena st P 0) @ ?rest)"
      by (simp add: dump_buffer_eq del: le_bytes.simps)
    show "8 \<le> length (buf_bytes m (buf_arena st P 0) @ ?rest)" using assms(2) by (simp add: buf_bytes_def)
  qed
  define bs where "bs = ?w (BufCount P) @ ?w (BufferMaxFill P) @ ?w (PacketSize P) @ ?w (ItemMaxCount P) @
    ?w (Cur (buf_arena st P 0)) @ y"
  have d: "SdbDumpSensorDataPipe m st True (Some P) True = Inr (Some bs)"
    unfolding SdbDumpSensorDataPipe_eq [OF assms(1)] y(1) bs_def ..
  have "fread_packets bs = read_packet (take 48 bs) # fread_packets (drop 48 bs)"
    using y(2) by (subst fread_packets.simps) (simp add: bs_def del: le_bytes.simps)
  then have c: "ConvertDumpToCSV (Some bs) True = Some (read_packet (take 48 bs) # fread_packets (drop 48 bs))"
    by (simp add: ConvertDumpToCSV_def)
  have "SpPacketId (read_packet (take 48 bs)) = BufCount P" "SpTime (read_packet (take 48 bs)) = BufferMaxFill P"
    "SpRpm (read_packet (take 48 bs)) = PacketSize P" "SpTorque (read_packet (take 48 bs)) = ItemMaxCount P"
    "SpPower (read_packet (take 48 bs)) = Cur (buf_arena st P 0)"
    by (simp_all add: read_packet_def read_u64_take read_fields bs_def del: take_append le_bytes.simps One_nat_def)
  then show ?thesis using d c by blast
qed

section \<open>The crash handler runs for ever\<close>

definition crash_signals :: "signal set" where
  "crash_signals = {SIGSEGV, SIGABRT, SIGFPE, SIGILL}"

definition dump_works :: "dump_env \<Rightarrow> bool" where
  "dump_works E \<longleftrightarrow> DumpOpens E \<and> (MkdirErrno E = None \<or> MkdirErrno E = Some EEXIST)"

definition memory_dumps :: "process \<Rightarrow> nat" where
  "memory_dumps p = length (filter (\<lambda>d. case d of MemoryDump _ _ \<Rightarrow> True | PipeDump _ \<Rightarrow> False) (Dumps p))"

lemma HandlePipeDump_keeps:
  assumes "HandlePipeDump E p = Inr (b, q)"
  shows "Pending q = Pending p \<and> memory_dumps q = memory_dumps p \<and> GSignalContext q = GSignalContext p \<and>
    GShutdownRequested q = GShutdownRequested p"
  using assms by (auto simp: HandlePipeDump_def memory_dumps_def split: if_splits sum.splits option.splits)

lemma DumpProcessMemory_keeps:
  "Pending (DumpProcessMemory sig E p) = Pending p" "GSignalContext (DumpProcessMemory sig E p) = GSignalContext p"
  "GShutdownRequested (DumpProcessMemory sig E p) = GShutdownRequested p"
  "dump_works E \<Longrightarrow> memory_dumps (DumpProcessMemory sig E p) = Suc (memory_dumps p)"
  by (auto simp: DumpProcessMemory_def dump_works_def memory_dumps_def split: option.splits)

lemma SignalHandler_crash:
  assumes "sig \<in> crash_signals" "SignalHandler sig E p = Inr q" "Pending p = []"
  shows "Pending q = [sig] \<and> GShutdownRequested q = GShutdownRequested p \<and> GSignalContext q = GSignalContext p \<and>
    (dump_works E \<longrightarrow> memory_dumps q = Suc (memory_dumps p))"
  using assms
  by (auto simp: crash_signals_def raise_def DumpProcessMemory_keeps memory_dumps_def [of "_\<lparr>Pending := _\<rparr>"]
      memory_dumps_def [symmetric] dest!: HandlePipeDump_keeps split: sum.splits)

lemma HandlePipeDump_ok:
  assumes "case SigPipe (GSignalContext p) of None \<Rightarrow> True | Some P \<Rightarrow> \<exists>n. pipe_ok n (DumpArenas E) P"
  shows "\<exists>b q. HandlePipeDump E p = Inr (b, q)"
proof (cases "SigPipe (GSignalContext p)")
  case (Some P)
  then obtain n where ok: "pipe_ok n (DumpArenas E) P" using assms by auto
  show ?thesis
    using SdbDumpSensorDataPipe_eq [OF ok, of "DumpMemory E"] Some
    by (cases "PipeFileOpens E") (auto simp: HandlePipeDump_def SdbDumpSensorDataPipe_def)
qed (auto simp: HandlePipeDump_def)

text \<open>
  A crash does not end the program: the handler dumps the memory and raises its own signal, which is delivered to the same
  handler when it returns, so however many deliveries there are the process is again about to handle it, with as many
  dumps written; and the threads are never told to stop.
\<close>

theorem crash_handler_repeats:
  assumes "sig \<in> crash_signals" "Pending p = [sig]" "\<forall>E\<in>set Es. dump_works E"
    and "case SigPipe (GSignalContext p) of None \<Rightarrow> True | Some P \<Rightarrow> \<forall>E\<in>set Es. \<exists>n. pipe_ok n (DumpArenas E) P"
  shows "\<exists>q. deliver Es p = Inr q \<and> Pending q = [sig] \<and> memory_dumps q = memory_dumps p + length Es \<and>
    SdbShouldShutdown q = SdbShouldShutdown p"
  using assms
proof (induction Es arbitrary: p)
  case (Cons E Es)
  have "\<exists>r. SignalHandler sig E (p\<lparr>Pending := []\<rparr>) = Inr r"
    using Cons.prems(1,4) HandlePipeDump_ok [where p = "DumpProcessMemory sig E (p\<lparr>Pending := []\<rparr>)" and E = E]
    by (auto simp: crash_signals_def DumpProcessMemory_keeps split: option.splits)
  then obtain r where r: "SignalHandler sig E (p\<lparr>Pending := []\<rparr>) = Inr r" by blast
  have f: "Pending r = [sig]" "GShutdownRequested r = GShutdownRequested p" "memory_dumps r = Suc (memory_dumps p)"
    "GSignalContext r = GSignalContext p"
    using SignalHandler_crash [OF Cons.prems(1) r] Cons.prems(3) by (simp_all add: memory_dumps_def)
  obtain q where "deliver Es r = Inr q \<and> Pending q = [sig] \<and> memory_dumps q = memory_dumps r + length Es \<and>
      SdbShouldShutdown q = SdbShouldShutdown r"
    using Cons.IH [OF Cons.prems(1) f(1)] Cons.prems(3,4) f(4) by (auto split: option.splits)
  then show ?case using r f Cons.prems(2) by (simp add: SdbShouldShutdown_def)
qed simp

lemma SignalHandler_keeps:
  assumes "SignalHandler sig E p = Inr q"
  shows "(SdbShouldShutdown p \<longrightarrow> SdbShouldShutdown q) \<and> SdbIsShutdownInProgress q = SdbIsShutdownInProgress p"
  using assms
  by (cases sig)
     (auto simp: SdbShouldShutdown_def SdbIsShutdownInProgress_def InitiateGracefulShutdown_def raise_def DumpProcessMemory_keeps
      dest!: HandlePipeDump_keeps split: sum.splits if_splits)

lemma deliver_keeps:
  assumes "deliver Es p = Inr q"
  shows "(SdbShouldShutdown p \<longrightarrow> SdbShouldShutdown q) \<and> SdbIsShutdownInProgress q = SdbIsShutdownInProgress p"
  using assms
proof (induction Es arbitrary: p)
  case (Cons E Es)
  show ?case
  proof (cases "Pending p")
    case (Cons sig rest)
    then obtain r where "SignalHandler sig E (p\<lparr>Pending := rest\<rparr>) = Inr r" "deliver Es r = Inr q"
      using Cons.prems by (auto split: sum.splits)
    then show ?thesis using Cons.IH SignalHandler_keeps by (metis (no_types, lifting) SdbIsShutdownInProgress_def
        SdbShouldShutdown_def process.select_convs(1,2) process.surjective process.update_convs(3))
  qed (use Cons.prems in simp)
qed simp

text \<open>
  C38. A termination signal requests the shutdown, and nothing that is delivered afterwards takes the request back; the other
  flag, which \<^verbatim>\<open>SdbIsShutdownInProgress\<close> reads, is never set by any signal.
\<close>

theorem shutdown_request_stays:
  assumes "Pending p = sig # rest" "sig \<in> {SIGINT, SIGTERM}" "deliver (E # Es) p = Inr q"
  shows "SdbShouldShutdown q \<and> SdbIsShutdownInProgress q = SdbIsShutdownInProgress p"
proof -
  have "deliver Es (InitiateGracefulShutdown (p\<lparr>Pending := rest\<rparr>)) = Inr q" using assms by auto
  from deliver_keeps [OF this] show ?thesis
    by (simp add: InitiateGracefulShutdown_def SdbShouldShutdown_def SdbIsShutdownInProgress_def)
qed

section \<open>Examples\<close>

definition example_dump_env :: dump_env where
  "example_dump_env = \<lparr>MkdirErrno = Some EEXIST, DumpOpens = True, CTime = [], ThreadIdText = ''7'', ThreadNameAnswer = None,
     FaultAddress = ''0x0'', ProcessIdText = ''5'', BacktraceSymbols = None, MapLines = None, Readable = (\<lambda>_ _. None),
     FailureText = [], PipeFileOpens = False, DumpMemory = (\<lambda>_. 0), DumpArenas = (\<lambda>_. \<lparr>Cur = 0, Cap = 0, Mem = 0\<rparr>)\<rparr>"

definition example_process :: "signal \<Rightarrow> process" where
  "example_process sig = \<lparr>GShutdownRequested = 0,
     GSignalContext = \<lparr>MemoryDumpPath = None, ShutdownFlag = 0, SigPipe = None\<rparr>, Pending = [sig], Dumps = []\<rparr>"

lemma example_deliver:
  "\<exists>q. deliver [example_dump_env, example_dump_env, example_dump_env] (example_process SIGSEGV) = Inr q"
  "\<exists>q. deliver [example_dump_env] (example_process SIGTERM) = Inr q"
  by (simp_all add: example_process_def HandlePipeDump_def DumpProcessMemory_keeps DumpProcessMemory_def raise_def
      example_dump_env_def EEXIST_def)

theorem crash_handler_repeats_witness:
  "\<exists>q. deliver [example_dump_env, example_dump_env, example_dump_env] (example_process SIGSEGV) = Inr q \<and>
    Pending q = [SIGSEGV] \<and> memory_dumps q = 3 \<and> \<not> SdbShouldShutdown q"
proof -
  have "\<forall>E\<in>set [example_dump_env, example_dump_env, example_dump_env]. dump_works E"
    by (simp add: dump_works_def example_dump_env_def)
  from crash_handler_repeats [of SIGSEGV "example_process SIGSEGV", OF _ _ this] show ?thesis
    by (simp add: crash_signals_def example_process_def memory_dumps_def SdbShouldShutdown_def numeral_3_eq_3 del: deliver.simps)
qed

definition dump_store :: arena_store where
  "dump_store p = \<lparr>Cur = 8, Cap = 16, Mem = 16 * p\<rparr>"

lemma dump_store_ok: "pipe_ok 3 dump_store (example_pipe 3)"
proof -
  have "disjoint_blocks (16 * p) 16 (16 * q) 16" if "(p, q) \<in> {(1, 2), (1, 3), (2, 3)}" for p q :: u64
    using that by (intro disjoint_blocks_linear) auto
  then have d: "disjoint_blocks (16 * p) 16 (16 * q) 16" if "(p, q) \<in> {(1, 2), (1, 3), (2, 3), (2, 1), (3, 1), (3, 2)}" for p q :: u64
    using that disjoint_blocks_sym by fastforce
  show ?thesis
    using d [of 1 2] d [of 1 3] d [of 2 3] d [of 2 1] d [of 3 1] d [of 3 2]
    by (simp add: pipe_ok_def example_pipe_def dump_store_def buf_arena_def arena_ok_def less_3 upt_rec all_conj_distrib)
qed

theorem pipe_dump_roundtrip_witness:
  "\<exists>bs. SdbDumpSensorDataPipe (\<lambda>_. 9) dump_store True (Some (example_pipe 3)) True = Inr (Some bs) \<and>
    fst (read_dump bs) = [3, 4, 2, 2]"
  using pipe_dump_roundtrip [OF dump_store_ok, of "\<lambda>_. 9"] by (auto simp: example_pipe_def)

theorem dump_conversion_misreads_witness:
  "\<exists>bs row rows. SdbDumpSensorDataPipe (\<lambda>_. 9) dump_store True (Some (example_pipe 3)) True = Inr (Some bs) \<and>
    ConvertDumpToCSV (Some bs) True = Some (row # rows) \<and> SpPacketId row = 3 \<and> SpPower row = 8"
proof -
  have "8 \<le> unat (Cur (buf_arena dump_store (example_pipe 3) 0))" "Cur (buf_arena dump_store (example_pipe 3) 0) = 8"
    by (simp_all add: buf_arena_def dump_store_def)
  then show ?thesis using dump_conversion_misreads [OF dump_store_ok, of "\<lambda>_. 9"] by (fastforce simp: example_pipe_def)
qed

theorem shutdown_request_stays_witness:
  "\<exists>q. deliver [example_dump_env] (example_process SIGTERM) = Inr q \<and> SdbShouldShutdown q \<and> \<not> SdbIsShutdownInProgress q"
proof -
  obtain q where q: "deliver [example_dump_env] (example_process SIGTERM) = Inr q" using example_deliver(2) by blast
  from shutdown_request_stays [OF _ _ q, of SIGTERM "[]"] q show ?thesis
    by (simp add: example_process_def SdbIsShutdownInProgress_def)
qed

end
