(* ===== verification/Test_Server.thy ===== *)
theory Test_Server
  imports Modbus_Recv Sdb_Time Thread_Sync
begin

text \<open>
  The test server, \<^verbatim>\<open>RunModbusTestServer\<close> of \<^verbatim>\<open>src/DevUtils/ModbusTestServer.c\<close>: its set-up, the loop that accepts
  clients and the loop that sends to one. The answers of the sockets, the times and the packets are given in the order
  they are asked for; a connection is the bytes put on it.
\<close>

section \<open>The server\<close>

datatype server_call = SocketCall | ReuseAddrCall | NoDelayCall | BindCall | ListenCall

text \<open>The set-up ends with the server listening, or returns, the socket closed if there is one.\<close>

datatype server_setup = Listens | SetupFails bool

definition server_setup :: "(server_call \<Rightarrow> bool) \<Rightarrow> server_setup" where
  "server_setup ok =
     (if \<not> ok SocketCall then SetupFails False
      else if \<not> ok ReuseAddrCall then SetupFails True
      else if \<not> ok NoDelayCall then SetupFails True
      else if \<not> ok BindCall then SetupFails True
      else if \<not> ok ListenCall then SetupFails True
      else Listens)"

text \<open>Division that truncates, as in C, by a positive number.\<close>

definition c_div :: "int \<Rightarrow> int \<Rightarrow> int" where
  "c_div a b = (if a < 0 then - ((- a) div b) else a div b)"

definition elapsed_us :: "timespec \<Rightarrow> timespec \<Rightarrow> int" where
  "elapsed_us Now LastSend = (tv_sec Now - tv_sec LastSend) * 1000000 + c_div (tv_nsec Now - tv_nsec LastSend) 1000"

text \<open>
  One client: the time of the last send, the bytes on the connection and, as history, the packets sent with their
  times. A send accepts some of the frame's bytes or fails.
\<close>

datatype send_answer = Accepts nat | SendFails int

record client =
  LastSend :: timespec
  Wire :: "u8 list"
  SentPackets :: "(timespec \<times> u8 list) list"

datatype client_end = Sending | SeesShutdown | Broken int

type_synonym send_event = "bool \<times> timespec \<times> u8 list \<times> send_answer"

fun send_loop :: "send_event list \<Rightarrow> client \<Rightarrow> (client \<times> client_end) res" where
  "send_loop [] c = Inr (c, Sending)"
| "send_loop ((shutdown, Now, SpData, answer) # es) c =
     (if shutdown then Inr (c, SeesShutdown)
      else if elapsed_us Now (LastSend c) < 100 then send_loop es c
      else
        (case SendModbusData SpData of
           Inl f \<Rightarrow> Inl f
         | Inr Frame \<Rightarrow>
             (case answer of
                SendFails e \<Rightarrow> if e = EAGAIN then send_loop es c else Inr (c, Broken e)
              | Accepts k \<Rightarrow>
                  send_loop es (c\<lparr>Wire := Wire c @ take k Frame, LastSend := Now, SentPackets := SentPackets c @ [(Now, SpData)]\<rparr>))))"

text \<open>
  The outer loop: each turn reads the shutdown flag, accepts a client or not, and serves it to the end; then the flag is read
  again. The results are the connections served and whether the server has stopped (and closed its socket).
\<close>

datatype accept_answer = NoClient int | Client timespec "send_event list" bool

fun accept_loop :: "(bool \<times> accept_answer) list \<Rightarrow> client list \<Rightarrow> (client list \<times> bool) res" where
  "accept_loop [] cs = Inr (cs, False)"
| "accept_loop ((shutdown, a) # es) cs =
     (if shutdown then Inr (cs, True)
      else
        (case a of
           NoClient e \<Rightarrow> accept_loop es cs
         | Client now sends shutdown_after \<Rightarrow>
             (case send_loop sends \<lparr>LastSend = now, Wire = [], SentPackets = []\<rparr> of
                Inl f \<Rightarrow> Inl f
              | Inr (c, Sending) \<Rightarrow> Inr (cs @ [c], False)
              | Inr (c, _) \<Rightarrow> if shutdown_after then Inr (cs @ [c], True) else accept_loop es (cs @ [c]))))"

text \<open>
  The whole thread: a set-up that fails returns before the barrier. The first result is whether the barrier was
  reached, the second whether the function returned.
\<close>

definition RunModbusTestServer ::
  "(server_call \<Rightarrow> bool) \<Rightarrow> (bool \<times> accept_answer) list \<Rightarrow> (bool \<times> client list \<times> bool) res" where
  "RunModbusTestServer ok es =
     (case server_setup ok of
        SetupFails _ \<Rightarrow> Inr (False, [], True)
      | Listens \<Rightarrow> (case accept_loop es [] of Inl f \<Rightarrow> Inl f | Inr (cs, stopped) \<Rightarrow> Inr (True, cs, stopped)))"

section \<open>What a client receives\<close>

definition well_sent :: "send_event \<Rightarrow> bool" where
  "well_sent e \<longleftrightarrow> (case e of (shutdown, Now, SpData, answer) \<Rightarrow>
     length SpData = sizeof_shaft_power_data \<and> (\<forall>k. answer = Accepts k \<longrightarrow> length (sent_frame SpData) \<le> k))"

definition spaced :: "timespec \<Rightarrow> (timespec \<times> u8 list) list \<Rightarrow> bool" where
  "spaced t xs \<longleftrightarrow> (\<forall>i<length xs. 100 \<le> elapsed_us (fst (xs ! i)) (if i = 0 then t else fst (xs ! (i - 1))))"

lemma spaced_snoc: "spaced t (xs @ [x]) \<longleftrightarrow> spaced t xs \<and> 100 \<le> elapsed_us (fst x) (if xs = [] then t else fst (last xs))"
  by (auto simp: spaced_def nth_append last_conv_nth less_Suc_eq_le le_less)

lemma send_loop_inv:
  assumes "\<forall>e\<in>set es. well_sent e" "Wire c = concat (map (sent_frame \<circ> snd) (SentPackets c))"
    and "\<forall>x\<in>set (SentPackets c). length (snd x) = 48" "spaced t (SentPackets c)"
    and "LastSend c = (if SentPackets c = [] then t else fst (last (SentPackets c)))"
  shows "\<exists>d r. send_loop es c = Inr (d, r) \<and> Wire d = concat (map (sent_frame \<circ> snd) (SentPackets d)) \<and>
    (\<forall>x\<in>set (SentPackets d). length (snd x) = 48) \<and> spaced t (SentPackets d)"
  using assms
proof (induction es arbitrary: c)
  case (Cons e es)
  obtain sh Now p ans where e: "e = (sh, Now, p, ans)" by (cases e)
  have p: "length p = 48" using Cons.prems(1) by (simp add: e well_sent_def sizeof_shaft_power_data_def)
  note IH = Cons.IH [OF _ Cons.prems(2-5)]
  show ?case
  proof (cases "sh \<or> elapsed_us Now (LastSend c) < 100")
    case True
    then show ?thesis using IH Cons.prems by (auto simp: e)
  next
    case False
    show ?thesis
    proof (cases ans)
      case (SendFails x)
      then show ?thesis using False IH Cons.prems by (auto simp: e SendModbusData_eq [OF p])
    next
      case (Accepts k)
      then have k: "length (sent_frame p) \<le> k" using Cons.prems(1) by (simp add: e well_sent_def)
      let ?c = "c\<lparr>Wire := Wire c @ take k (sent_frame p), LastSend := Now, SentPackets := SentPackets c @ [(Now, p)]\<rparr>"
      have "\<exists>d r. send_loop es ?c = Inr (d, r) \<and> Wire d = concat (map (sent_frame \<circ> snd) (SentPackets d)) \<and>
          (\<forall>x\<in>set (SentPackets d). length (snd x) = 48) \<and> spaced t (SentPackets d)"
        using False k p Cons.prems by (intro Cons.IH) (auto simp: spaced_snoc)
      then show ?thesis using False Accepts by (simp add: e SendModbusData_eq [OF p] comp_def)
    qed
  qed
qed auto


text \<open>Any 49 bytes after the server's header are received as a frame, the first 48 as its data.\<close>

lemma header_frame:
  assumes "length X = 49"
  shows "whole_frame (frame_header 1 0 51 1 0x10 48 @ X)"
    and "MbParseTcpFrame ((frame_header 1 0 51 1 0x10 48 @ X) @ zs) = (Some 9, 1, 48)"
    and "take 48 (drop 9 ((frame_header 1 0 51 1 0x10 48 @ X) @ zs)) = take 48 X"
proof -
  let ?h = "frame_header 1 0 51 1 0x10 48"
  have l: "length ?h = 9" by (simp add: frame_header_def)
  show "whole_frame (?h @ X)" using assms l by (simp add: whole_frame_def frame_length_header MODBUS_TCP_HEADER_LEN_def)
  have "frame_length ((?h @ X) @ zs) = 51" by (simp add: frame_length_header)
  moreover have "((?h @ X) @ zs) ! 6 = 1" "((?h @ X) @ zs) ! 8 = 48" by (simp_all add: frame_header_def)
  ultimately show "MbParseTcpFrame ((?h @ X) @ zs) = (Some 9, 1, 48)" by (simp add: MbParseTcpFrame_def)
  show "take 48 (drop 9 ((?h @ X) @ zs)) = take 48 X" using assms l by simp
qed

text \<open>
  A send that takes part of a frame only, as a socket that does not block may, is counted like any other: the rest
  of the frame is never sent, and the client reads a packet that is made of the pieces of two.
\<close>

theorem server_short_send:
  assumes "length p = 48" "length q = 48" "9 \<le> k" "k < 58"
    and "\<not> elapsed_us now1 t < 100" "\<not> elapsed_us now2 now1 < 100"
  shows "\<exists>c. send_loop [(False, now1, p, Accepts k), (False, now2, q, Accepts 58)] \<lparr>LastSend = t, Wire = [], SentPackets = []\<rparr> =
      Inr (c, Sending) \<and> map snd (SentPackets c) = [p, q] \<and> Wire c = take k (sent_frame p) @ sent_frame q \<and>
    (\<forall>chunks. concat chunks = Wire c \<longrightarrow>
       recv_packets 1 (map Arrive chunks) = Some [take 48 (take (k - 9) p @ take (58 - k) (sent_frame q))])"
proof -
  let ?h = "frame_header 1 0 51 1 0x10 48"
  let ?X = "take (k - 9) p @ take (58 - k) (sent_frame q)"
  have h: "length ?h = 9" by (simp add: frame_header_def)
  have X: "length ?X = 49" using assms(1-4) by (simp add: length_sent_frame)
  have "take k (sent_frame p) = ?h @ take (k - 9) p" using assms(1,3,4) h by (simp add: sent_frame_def)
  then have w: "take k (sent_frame p) @ sent_frame q = (?h @ ?X) @ drop (58 - k) (sent_frame q)" by simp
  have "recv_packets 1 (map Arrive chunks) = Some [take 48 ?X]" if "concat chunks = take k (sent_frame p) @ sent_frame q" for chunks
  proof -
    have "concat chunks = (?h @ ?X) @ drop (58 - k) (sent_frame q)" using that w by simp
    then obtain chunks' where "MbReceiveTcpFrame (replicate 260 0) 260 (map Arrive chunks) =
        Inr (Some (int 58, Some ((?h @ ?X) @ drop 58 (replicate 260 0), map Arrive chunks')))"
      using receive_whole_frame [OF header_frame(1) [OF X], of chunks _ 260 "replicate 260 0" "[]"] X h by fastforce
    then show ?thesis
      using header_frame(2,3) [OF X, of "drop 58 (replicate 260 0)"] by (simp add: MODBUS_TCP_FRAME_MAX_SIZE_def del: append_assoc)
  qed
  then show ?thesis using assms(5,6) by (simp add: SendModbusData_eq assms(1,2) length_sent_frame)
qed

section \<open>Examples\<close>

definition at_us :: "int \<Rightarrow> timespec" where "at_us us = \<lparr>tv_sec = 0, tv_nsec = us * 1000\<rparr>"


theorem server_short_send_witness:
  "\<exists>c. send_loop [(False, at_us 100, replicate 48 7, Accepts 19), (False, at_us 200, replicate 48 9, Accepts 58)]
      \<lparr>LastSend = at_us 0, Wire = [], SentPackets = []\<rparr> = Inr (c, Sending) \<and>
    recv_packets 1 [Arrive (Wire c)] = Some [take 48 (replicate 10 7 @ take 39 (sent_frame (replicate 48 9)))]"
  using server_short_send [of "replicate 48 7" "replicate 48 9" 19 "at_us 100" "at_us 0" "at_us 200"]
  by (fastforce simp: at_us_def elapsed_us_def c_div_def simp del: send_loop.simps recv_packets.simps dest: spec [of _ "[_]"])

end
