(* ===== verification/Poc_Ring.thy ===== *)
theory Poc_Ring
  imports Thread_Sync
begin

text \<open>
  The prototypes kept under \<^verbatim>\<open>poc/Metrics\<close>: the samples of \<^verbatim>\<open>Metrics.c\<close> and the ring of bytes of
  \<^verbatim>\<open>CircularBuffer.c\<close>. Sizes are natural numbers with the wrap-around of \<^verbatim>\<open>size_t\<close> written out where one
  is added to. A call that waits is \<open>None\<close>.
\<close>

section \<open>Samples\<close>

definition MAX_SAMPLES :: nat where "MAX_SAMPLES = 4194304"

record metric_sample =
  SData :: int
  STimestamp :: timespec

record metric =
  Samples :: "nat \<Rightarrow> metric_sample"
  MHead :: nat
  MTail :: nat
  MCount :: nat
  WIndex :: nat
  MFile :: "metric_sample list option"

definition zero_sample :: metric_sample where
  "zero_sample = \<lparr>SData = 0, STimestamp = \<lparr>tv_sec = 0, tv_nsec = 0\<rparr>\<rparr>"

definition MetricInit :: "bool \<Rightarrow> metric" where
  "MetricInit opens = \<lparr>Samples = (\<lambda>_. zero_sample), MHead = 0, MTail = 0, MCount = 0, WIndex = 0,
     MFile = (if opens then Some [] else None)\<rparr>"

text \<open>Writing to a file that was not opened is a fault; the samples from the last one written up to the tail are written.\<close>

definition MetricWriteToFile :: "metric \<Rightarrow> metric res" where
  "MetricWriteToFile M =
     (let Start = WIndex M; End = MTail M
      in if Start = End then Inr M
         else
           (case MFile M of
              None \<Rightarrow> Inl NullDeref
            | Some F \<Rightarrow>
                (let written = (if End > Start then map (Samples M) [Start..<End]
                                else map (Samples M) [Start..<MAX_SAMPLES] @ map (Samples M) [0..<End])
                 in Inr (M\<lparr>MFile := Some (F @ written), WIndex := End\<rparr>))))"

definition MetricAddSample :: "int \<Rightarrow> timespec \<Rightarrow> metric \<Rightarrow> metric res" where
  "MetricAddSample Data Timestamp M =
     (let M = M\<lparr>Samples := (Samples M)(MTail M := \<lparr>SData = Data, STimestamp = Timestamp\<rparr>)\<rparr>;
          M = M\<lparr>MTail := (MTail M + 1) mod MAX_SAMPLES\<rparr>;
          M = (if MCount M < MAX_SAMPLES then M\<lparr>MCount := MCount M + 1\<rparr>
               else M\<lparr>MHead := (MHead M + 1) mod MAX_SAMPLES\<rparr>)
      in if MCount M mod 40960 = 0 then MetricWriteToFile M else Inr M)"

definition MetricDestroy :: "metric \<Rightarrow> metric" where
  "MetricDestroy M = M\<lparr>MFile := None, MHead := 0, MTail := 0, MCount := 0\<rparr>"

fun add_samples :: "metric_sample list \<Rightarrow> metric \<Rightarrow> metric res" where
  "add_samples [] M = Inr M"
| "add_samples (x # xs) M = (case MetricAddSample (SData x) (STimestamp x) M of Inl f \<Rightarrow> Inl f | Inr M \<Rightarrow> add_samples xs M)"

text \<open>After the samples \<open>xs\<close>: the file holds them up to the last full block, of those the array can hold.\<close>

definition blocks :: "nat \<Rightarrow> nat" where
  "blocks n = 40960 * (min n MAX_SAMPLES div 40960)"

definition metric_inv :: "metric_sample list \<Rightarrow> metric \<Rightarrow> bool" where
  "metric_inv xs M \<longleftrightarrow> MTail M = length xs mod MAX_SAMPLES \<and> MCount M = min (length xs) MAX_SAMPLES \<and>
     WIndex M = blocks (length xs) \<and> MFile M = Some (take (blocks (length xs)) xs) \<and>
     (length xs \<le> MAX_SAMPLES \<longrightarrow> (\<forall>i<length xs. Samples M i = xs ! i))"

lemma blocks_le: "blocks n \<le> n" "blocks n \<le> 4177920"
proof -
  have "40960 * (min n MAX_SAMPLES div 40960) \<le> min n MAX_SAMPLES" by (rule times_div_less_eq_dividend)
  then show "blocks n \<le> n" by (simp add: blocks_def)
  have "min n MAX_SAMPLES div 40960 \<le> MAX_SAMPLES div 40960" by (intro div_le_mono) simp
  then show "blocks n \<le> 4177920" by (simp add: blocks_def MAX_SAMPLES_def)
qed

lemma blocks_Suc:
  "blocks (Suc n) = (if n < MAX_SAMPLES \<and> Suc n mod 40960 = 0 then Suc n else blocks n)"
proof (cases "n < MAX_SAMPLES")
  case True
  then have m: "min (Suc n) MAX_SAMPLES = Suc n" "min n MAX_SAMPLES = n" by simp_all
  show ?thesis
  proof (cases "Suc n mod 40960 = 0")
    case w: True
    then have "40960 * (Suc n div 40960) = Suc n" by (intro dvd_mult_div_cancel) (simp add: mod_eq_0_iff_dvd)
    then show ?thesis unfolding blocks_def m using True w by simp
  next
    case False
    then have "Suc n div 40960 = n div 40960" by (simp add: div_Suc)
    then show ?thesis unfolding blocks_def m using False by simp
  qed
next
  case False
  then show ?thesis by (simp add: blocks_def min_def)
qed

lemma sample_eta [simp]: "\<lparr>SData = SData x, STimestamp = STimestamp x\<rparr> = x"
  by (cases x) simp

lemma MetricAddSample_inv:
  assumes "metric_inv xs M"
  shows "\<exists>M'. MetricAddSample (SData x) (STimestamp x) M = Inr M' \<and> metric_inv (xs @ [x]) M'"
proof (cases "length xs < MAX_SAMPLES")
  case True
  let ?n = "length xs"
  let ?M = "M\<lparr>Samples := (Samples M)(?n := x), MTail := Suc ?n mod MAX_SAMPLES, MCount := Suc ?n\<rparr>"
  have old: "MTail M = ?n" "MCount M = ?n" "WIndex M = blocks ?n" "MFile M = Some (take (blocks ?n) xs)" "\<forall>i<?n. Samples M i = xs ! i"
    using assms True by (simp_all add: metric_inv_def)
  have sx: "\<forall>i<Suc ?n. Samples ?M i = (xs @ [x]) ! i" using old(5) by (auto simp: nth_append less_Suc_eq)
  have step: "MetricAddSample (SData x) (STimestamp x) M = (if Suc ?n mod 40960 = 0 then MetricWriteToFile ?M else Inr ?M)"
    using old(1,2) True by (simp add: MetricAddSample_def Let_def)
  show ?thesis
  proof (cases "Suc ?n mod 40960 = 0")
    case False
    then show ?thesis using step old sx True blocks_le(1) [of ?n] by (auto simp: metric_inv_def blocks_Suc)
  next
    case w: True
    have b: "blocks (Suc ?n) = Suc ?n" using w True by (simp add: blocks_Suc)
    then have lt: "Suc ?n < MAX_SAMPLES" using blocks_le(2) [of "Suc ?n"] by (simp add: MAX_SAMPLES_def)
    have wi: "blocks ?n < Suc ?n" using blocks_le(1) [of ?n] by simp
    have "map (Samples ?M) [0..<Suc ?n] = xs @ [x]" using sx by (intro nth_equalityI) (simp_all del: upt_Suc)
    then have "map (Samples ?M) [blocks ?n..<Suc ?n] = drop (blocks ?n) (xs @ [x])"
      by (metis drop_map drop_upt add_0)
    then have "take (blocks ?n) xs @ map (Samples ?M) [blocks ?n..<Suc ?n] = xs @ [x]"
      using blocks_le(1) [of ?n] by (metis append_take_drop_id take_append diff_is_0_eq take0 append_Nil2)
    then have "MetricWriteToFile ?M = Inr (?M\<lparr>MFile := Some (xs @ [x]), WIndex := Suc ?n\<rparr>)"
      using old lt wi by (simp add: MetricWriteToFile_def Let_def del: upt_Suc)
    then show ?thesis using step w sx lt b by (simp add: metric_inv_def)
  qed
next
  case False
  let ?n = "length xs"
  have old: "MTail M = ?n mod MAX_SAMPLES" "MCount M = MAX_SAMPLES" "WIndex M = blocks ?n" "MFile M = Some (take (blocks ?n) xs)"
    using assms False by (simp_all add: metric_inv_def)
  have b: "blocks (Suc ?n) = blocks ?n" using False by (simp add: blocks_Suc)
  have t: "take (blocks ?n) (xs @ [x]) = take (blocks ?n) xs" using blocks_le(1) [of ?n] by simp
  have "MAX_SAMPLES mod 40960 \<noteq> 0" by (simp add: MAX_SAMPLES_def)
  then have "MetricAddSample (SData x) (STimestamp x) M = Inr (M\<lparr>Samples := (Samples M)(MTail M := x),
      MTail := Suc (MTail M) mod MAX_SAMPLES, MHead := Suc (MHead M) mod MAX_SAMPLES\<rparr>)"
    using old(2) by (simp add: MetricAddSample_def Let_def)
  moreover have "metric_inv (xs @ [x]) (M\<lparr>Samples := (Samples M)(MTail M := x),
      MTail := Suc (MTail M) mod MAX_SAMPLES, MHead := Suc (MHead M) mod MAX_SAMPLES\<rparr>)"
    unfolding metric_inv_def length_append_singleton b t using old False by (simp add: mod_Suc_eq)
  ultimately show ?thesis by blast
qed

lemma add_samples_inv:
  assumes "metric_inv ys M"
  shows "\<exists>M'. add_samples xs M = Inr M' \<and> metric_inv (ys @ xs) M'"
  using assms
proof (induction xs arbitrary: ys M)
  case (Cons x xs)
  obtain M1 where "MetricAddSample (SData x) (STimestamp x) M = Inr M1" "metric_inv (ys @ [x]) M1"
    using MetricAddSample_inv [OF Cons.prems] by blast
  then show ?case using Cons.IH [of "ys @ [x]" M1] by simp
qed simp

text \<open>
  The file of a metric holds the samples in the order they were added, without a gap or a repetition, in blocks of
  40960, and only the first 102 blocks: the array's size is no multiple of the block's, so once the array is full the
  count stays at a number that never triggers another write.
\<close>

theorem metric_file:
  "\<exists>M. add_samples xs (MetricInit True) = Inr M \<and>
    MFile M = Some (take (40960 * (min (length xs) MAX_SAMPLES div 40960)) xs) \<and>
    length (the (MFile M)) \<le> 102 * 40960"
proof -
  have "metric_inv [] (MetricInit True)" by (simp add: metric_inv_def MetricInit_def blocks_def)
  then obtain M where "add_samples xs (MetricInit True) = Inr M" "metric_inv xs M" using add_samples_inv by fastforce
  then show ?thesis using blocks_le(2) [of "length xs"] by (auto simp: metric_inv_def blocks_def)
qed

section \<open>The ring of bytes\<close>

record circular_buffer =
  CbData :: "u8 list"
  DataSize :: nat
  Head :: nat
  Tail :: nat
  CbCount :: nat
  Full :: bool

definition CbIsFull :: "circular_buffer \<Rightarrow> bool" where
  "CbIsFull Cb = Full Cb"

definition CbIsEmpty :: "circular_buffer \<Rightarrow> bool" where
  "CbIsEmpty Cb = (\<not> Full Cb \<and> Head Cb = Tail Cb)"

text \<open>The memory comes from \<^verbatim>\<open>malloc\<close> or from an arena, with whatever it holds; \<open>None\<close> is NULL.\<close>

definition CbInit :: "nat \<Rightarrow> u8 list option \<Rightarrow> int + circular_buffer" where
  "CbInit Size memory =
     (if Size = 0 then Inl (- EINVAL)
      else
        (case memory of
           None \<Rightarrow> Inl (- ENOMEM)
         | Some Data \<Rightarrow>
             Inr \<lparr>CbData = take Size Data, DataSize = Size, Head = 0, Tail = 0, CbCount = 0, Full = False\<rparr>))"

text \<open>Bytes copied over those at a position; past the end of the memory is a fault.\<close>

definition copy_in :: "nat \<Rightarrow> u8 list \<Rightarrow> u8 list \<Rightarrow> u8 list res" where
  "copy_in i bs D = (if length D < i + length bs then Inl OutOfBounds else Inr (take i D @ bs @ drop (i + length bs) D))"

definition copy_out :: "nat \<Rightarrow> nat \<Rightarrow> u8 list \<Rightarrow> u8 list res" where
  "copy_out i n D = (if length D < i + n then Inl OutOfBounds else Inr (take n (drop i D)))"

text \<open>The samples of a call: the bytes, converted to \<^verbatim>\<open>int\<close>, and how much of the buffer is used, in percent.\<close>

definition to_int :: "nat \<Rightarrow> int" where "to_int n = sint (of_nat n :: 32 word)"

definition cb_samples :: "nat \<Rightarrow> circular_buffer \<Rightarrow> int \<times> int" where
  "cb_samples Size Cb = (to_int Size, to_int ((CbCount Cb * 100) mod 2 ^ 64 div DataSize Cb))"

definition CbInsert :: "u8 list \<Rightarrow> circular_buffer \<Rightarrow> ((int \<times> int) \<times> circular_buffer) option res" where
  "CbInsert Data Cb =
     (if CbIsFull Cb then Inr None
      else
        (let Size = length Data;
             FirstChunk = min Size (DataSize Cb - Head Cb)
         in case copy_in (Head Cb) (take FirstChunk Data) (CbData Cb) of
              Inl f \<Rightarrow> Inl f
            | Inr D \<Rightarrow>
                (case (if Size - FirstChunk > 0 then copy_in 0 (drop FirstChunk Data) D else Inr D) of
                   Inl f \<Rightarrow> Inl f
                 | Inr D \<Rightarrow>
                     (let Cb = Cb\<lparr>CbData := D, Head := (Head Cb + Size) mod 2 ^ 64 mod DataSize Cb,
                            CbCount := (CbCount Cb + Size) mod 2 ^ 64\<rparr>;
                          Cb = Cb\<lparr>Full := (CbCount Cb = DataSize Cb)\<rparr>
                      in Inr (Some (cb_samples Size Cb, Cb))))))"

definition CbRead :: "nat \<Rightarrow> circular_buffer \<Rightarrow> (u8 list \<times> (int \<times> int) \<times> circular_buffer) option res" where
  "CbRead Size Cb =
     (if CbCount Cb < Size then Inr None
      else
        (let FirstChunk = min Size (DataSize Cb - Tail Cb)
         in case copy_out (Tail Cb) FirstChunk (CbData Cb) of
              Inl f \<Rightarrow> Inl f
            | Inr Dest \<Rightarrow>
                (case (if Size - FirstChunk > 0 then copy_out 0 (Size - FirstChunk) (CbData Cb) else Inr []) of
                   Inl f \<Rightarrow> Inl f
                 | Inr Rest \<Rightarrow>
                     (let Cb = Cb\<lparr>Tail := (Tail Cb + Size) mod 2 ^ 64 mod DataSize Cb, CbCount := CbCount Cb - Size, Full := False\<rparr>
                      in Inr (Some (Dest @ Rest, cb_samples Size Cb, Cb))))))"

section \<open>Queues of bytes\<close>

text \<open>
  What a client of a queue relies on: what is put, within the room there is, follows what was there, and what is got is
  taken from the front.
\<close>

datatype 'b queue_op = PutOp "'b list" | GetOp nat

fun queue_run :: "('b list \<Rightarrow> 'q \<Rightarrow> 'q option) \<Rightarrow> (nat \<Rightarrow> 'q \<Rightarrow> ('b list \<times> 'q) option) \<Rightarrow> 'b queue_op list \<Rightarrow> 'q \<Rightarrow>
    ('b list \<times> 'q) option" where
  "queue_run put get [] q = Some ([], q)"
| "queue_run put get (PutOp xs # ops) q = (case put xs q of None \<Rightarrow> None | Some q \<Rightarrow> queue_run put get ops q)"
| "queue_run put get (GetOp n # ops) q =
     (case get n q of None \<Rightarrow> None
      | Some (ys, q) \<Rightarrow> map_option (\<lambda>(zs, q). (ys @ zs, q)) (queue_run put get ops q))"

definition put_bytes :: "'b queue_op list \<Rightarrow> 'b list" where
  "put_bytes ops = concat (map (\<lambda>op. case op of PutOp xs \<Rightarrow> xs | GetOp _ \<Rightarrow> []) ops)"

locale byte_queue =
  fixes ok :: "'q \<Rightarrow> bool" and content :: "'q \<Rightarrow> 'b list"
    and put :: "'b list \<Rightarrow> 'q \<Rightarrow> 'q option" and get :: "nat \<Rightarrow> 'q \<Rightarrow> ('b list \<times> 'q) option"
  assumes put_back: "\<lbrakk>ok q; put xs q = Some q'\<rbrakk> \<Longrightarrow> ok q' \<and> content q' = content q @ xs"
    and get_front: "\<lbrakk>ok q; get n q = Some (ys, q')\<rbrakk> \<Longrightarrow> ok q' \<and> content q = ys @ content q'"
begin

lemma in_order:
  assumes "ok q" "queue_run put get ops q = Some (ys, q')"
  shows "ok q' \<and> content q @ put_bytes ops = ys @ content q'"
  using assms
proof (induction ops arbitrary: q ys)
  case (Cons op ops)
  show ?case
  proof (cases op)
    case (PutOp xs)
    then obtain p where p: "put xs q = Some p" "queue_run put get ops p = Some (ys, q')"
      using Cons.prems(2) by (auto split: option.splits)
    then show ?thesis using Cons.IH [OF _ p(2)] put_back [OF Cons.prems(1) p(1)] PutOp by (simp add: put_bytes_def)
  next
    case (GetOp n)
    then obtain as p zs where p: "get n q = Some (as, p)" "queue_run put get ops p = Some (zs, q')" "ys = as @ zs"
      using Cons.prems(2) by (auto split: option.splits)
    then show ?thesis using Cons.IH [OF _ p(2)] get_front [OF Cons.prems(1) p(1)] GetOp by (simp add: put_bytes_def)
  qed
qed (simp add: put_bytes_def)

end

section \<open>The ring is a queue\<close>

definition cb_ok :: "circular_buffer \<Rightarrow> bool" where
  "cb_ok Cb \<longleftrightarrow> 0 < DataSize Cb \<and> DataSize Cb < 2 ^ 62 \<and> length (CbData Cb) = DataSize Cb \<and> Tail Cb < DataSize Cb \<and>
     CbCount Cb \<le> DataSize Cb \<and> Head Cb = (Tail Cb + CbCount Cb) mod DataSize Cb \<and> Full Cb = (CbCount Cb = DataSize Cb)"

text \<open>The bytes of the ring, from the oldest on.\<close>

definition cb_content :: "circular_buffer \<Rightarrow> u8 list" where
  "cb_content Cb = map (\<lambda>i. CbData Cb ! ((Tail Cb + i) mod DataSize Cb)) [0..<CbCount Cb]"

definition cb_put :: "u8 list \<Rightarrow> circular_buffer \<Rightarrow> circular_buffer option" where
  "cb_put xs Cb =
     (if length xs \<le> DataSize Cb - CbCount Cb then (case CbInsert xs Cb of Inr (Some (_, Cb)) \<Rightarrow> Some Cb | _ \<Rightarrow> None) else None)"

definition cb_get :: "nat \<Rightarrow> circular_buffer \<Rightarrow> (u8 list \<times> circular_buffer) option" where
  "cb_get n Cb = (case CbRead n Cb of Inr (Some (ys, _, Cb)) \<Rightarrow> Some (ys, Cb) | _ \<Rightarrow> None)"

lemma mod_offset_inj:
  fixes t :: nat
  assumes "(t + a) mod n = (t + b) mod n" "a < n" "b < n"
  shows "a = b"
proof -
  have "x = y" if "(t + x) mod n = (t + y) mod n" "x < n" "y < n" "x \<le> y" for x y
  proof -
    have "n dvd (t + y) - (t + x)" using that by (intro mod_eq_dvd_iff_nat [THEN iffD1]) auto
    then have "n dvd y - x" by simp
    then show ?thesis using that by (metis diff_is_0_eq dvd_imp_le le_antisym less_imp_diff_less not_gr_zero not_le)
  qed
  then show ?thesis using assms by (metis nle_le)
qed

lemma copy_in_ok:
  assumes "i + length bs \<le> length D"
  obtains D' where "copy_in i bs D = Inr D'" "length D' = length D"
    "\<And>p. p < length D \<Longrightarrow> D' ! p = (if i \<le> p \<and> p < i + length bs then bs ! (p - i) else D ! p)"
proof
  show "copy_in i bs D = Inr (take i D @ bs @ drop (i + length bs) D)" using assms by (simp add: copy_in_def)
qed (use assms in \<open>auto simp: nth_append\<close>)

text \<open>What the two copies of an insertion leave at each position.\<close>

lemma insert_copies:
  assumes "h < length D" "length xs \<le> length D"
  defines "f \<equiv> min (length xs) (length D - h)"
  obtains D1 D2 where "copy_in h (take f xs) D = Inr D1"
    "(if length xs - f > 0 then copy_in 0 (drop f xs) D1 else Inr D1) = Inr D2" "length D2 = length D"
    "\<And>j. j < length xs \<Longrightarrow> D2 ! ((h + j) mod length D) = xs ! j"
    "\<And>p. \<lbrakk>p < length D; \<And>j. j < length xs \<Longrightarrow> p \<noteq> (h + j) mod length D\<rbrakk> \<Longrightarrow> D2 ! p = D ! p"
proof -
  have f: "f \<le> length xs" "h + f \<le> length D" using assms(1) by (simp_all add: f_def)
  have lf: "length (take f xs) = f" using f(1) by simp
  obtain D1 where D1: "copy_in h (take f xs) D = Inr D1" "length D1 = length D"
    "\<And>p. p < length D \<Longrightarrow> D1 ! p = (if h \<le> p \<and> p < h + f then take f xs ! (p - h) else D ! p)"
    using copy_in_ok [of h "take f xs" D] f(2) unfolding lf by blast
  have s: "0 < length xs - f \<Longrightarrow> f = length D - h" "length xs - f \<le> h" using assms(2) by (auto simp: f_def)
  have ld: "length (drop f xs) = length xs - f" by simp
  have "0 + (length xs - f) \<le> length D1" using s(2) assms(1) D1(2) by simp
  then obtain D2 where D2: "copy_in 0 (drop f xs) D1 = Inr D2" "length D2 = length D"
    "\<And>p. p < length D \<Longrightarrow> D2 ! p = (if 0 \<le> p \<and> p < 0 + (length xs - f) then drop f xs ! (p - 0) else D1 ! p)"
    using copy_in_ok [of 0 "drop f xs" D1] unfolding ld D1(2) by blast
  define D' where "D' = (if length xs - f > 0 then D2 else D1)"
  have nth: "D' ! p = (if p < length xs - f then xs ! (f + p) else if h \<le> p \<and> p < h + f then xs ! (p - h) else D ! p)"
    if "p < length D" for p
    using D1(3) [OF that] D2(3) [OF that] f(1) by (auto simp: D'_def)
  show ?thesis
  proof
    show "copy_in h (take f xs) D = Inr D1" by (rule D1(1))
    show "(if length xs - f > 0 then copy_in 0 (drop f xs) D1 else Inr D1) = Inr D'" using D2(1) by (simp add: D'_def)
    show "length D' = length D" using D1(2) D2(2) by (simp add: D'_def)
    show "D' ! ((h + j) mod length D) = xs ! j" if j: "j < length xs" for j
    proof (cases "j < f")
      case True
      then have "(h + j) mod length D = h + j" using f(2) by simp
      then show ?thesis using nth [of "h + j"] True f(2) s(2) by simp
    next
      case False
      then have "f = length D - h" using s(1) j by simp
      then have "h + j = length D + (j - f)" using False assms(1) by simp
      then have "(h + j) mod length D = j - f" using assms(1,2) j by simp
      moreover have "j - f < length xs - f" "f + (j - f) = j" "j - f < length D" using False j assms(2) by simp_all
      ultimately show ?thesis using nth [of "j - f"] by simp
    qed
    show "D' ! p = D ! p" if p: "p < length D" "\<And>j. j < length xs \<Longrightarrow> p \<noteq> (h + j) mod length D" for p
    proof -
      have "\<not> p < length xs - f"
      proof
        assume lt: "p < length xs - f"
        then have "f = length D - h" by (intro s(1)) simp
        then have "h + (f + p) = length D + p" using assms(1) by simp
        then have "(h + (f + p)) mod length D = p" using p(1) by (simp only: mod_add_self1 mod_less)
        moreover have "f + p < length xs" using lt by simp
        ultimately show False using p(2) [of "f + p"] by metis
      qed
      moreover have "\<not> (h \<le> p \<and> p < h + f)"
      proof
        assume in_f: "h \<le> p \<and> p < h + f"
        then have "p - h < length xs" using f(1) by linarith
        then show False using p(2) [of "p - h"] p(1) in_f by simp
      qed
      ultimately show ?thesis unfolding nth [OF p(1)] by (simp only: if_False)
    qed
  qed
qed

lemma CbInsert_ok:
  assumes "cb_ok Cb" "\<not> Full Cb" "length xs \<le> DataSize Cb - CbCount Cb"
  shows "\<exists>m Cb'. CbInsert xs Cb = Inr (Some (m, Cb')) \<and> cb_ok Cb' \<and> cb_content Cb' = cb_content Cb @ xs \<and>
    CbCount Cb' = CbCount Cb + length xs"
proof -
  let ?N = "DataSize Cb" and ?h = "Head Cb" and ?D = "CbData Cb" and ?c = "CbCount Cb"
  have ok: "0 < ?N" "?N < 2 ^ 62" "length ?D = ?N" "Tail Cb < ?N" "?c \<le> ?N" "?h = (Tail Cb + ?c) mod ?N"
    using assms(1) by (simp_all add: cb_ok_def)
  have h: "?h < length ?D" "length xs \<le> length ?D" using ok assms(3) by simp_all
  define f where "f = min (length xs) (?N - ?h)"
  obtain D1 D2 where D: "copy_in ?h (take f xs) ?D = Inr D1"
    "(if length xs - f > 0 then copy_in 0 (drop f xs) D1 else Inr D1) = Inr D2" "length D2 = ?N"
    "\<And>j. j < length xs \<Longrightarrow> D2 ! ((?h + j) mod ?N) = xs ! j"
    "\<And>p. \<lbrakk>p < ?N; \<And>j. j < length xs \<Longrightarrow> p \<noteq> (?h + j) mod ?N\<rbrakk> \<Longrightarrow> D2 ! p = ?D ! p"
    using insert_copies [OF h] unfolding ok(3) f_def by blast
  have hj: "(?h + j) mod ?N = (Tail Cb + (?c + j)) mod ?N" for j by (simp add: ok(6) mod_add_left_eq add.assoc)
  have "?h < ?N" using h(1) ok(3) by simp
  then have wrap: "(?h + length xs) mod 2 ^ 64 = ?h + length xs" "(?c + length xs) mod 2 ^ 64 = ?c + length xs"
    using ok(2,5) assms(3) by (simp_all del: One_nat_def)
  define Cb' where "Cb' = Cb\<lparr>CbData := D2, Head := (?h + length xs) mod ?N, CbCount := ?c + length xs,
    Full := (?c + length xs = ?N)\<rparr>"
  have "CbInsert xs Cb = Inr (Some (cb_samples (length xs) Cb', Cb'))"
    using assms(2) D(1,2) wrap
    by (cases "f < length xs") (simp_all add: CbInsert_def CbIsFull_def Let_def f_def [symmetric] Cb'_def)
  moreover have "cb_ok Cb'"
    using ok assms(3) D(3) hj [of "length xs"] by (simp add: cb_ok_def Cb'_def add.assoc)
  moreover have "cb_content Cb' = cb_content Cb @ xs"
  proof (rule nth_equalityI)
    fix i assume "i < length (cb_content Cb')"
    then have i: "i < ?c + length xs" by (simp add: cb_content_def Cb'_def)
    show "cb_content Cb' ! i = (cb_content Cb @ xs) ! i"
    proof (cases "i < ?c")
      case True
      have "(Tail Cb + i) mod ?N \<noteq> (?h + j) mod ?N" if "j < length xs" for j
        using mod_offset_inj [of "Tail Cb" i ?N "?c + j"] that True assms(3) ok(5) unfolding hj by fastforce
      then show ?thesis using True i D(5) [of "(Tail Cb + i) mod ?N"] ok(1) by (simp add: cb_content_def Cb'_def nth_append)
    next
      case False
      then show ?thesis using i D(4) [of "i - ?c"] hj [of "i - ?c"] by (simp add: cb_content_def Cb'_def nth_append)
    qed
  qed (simp add: cb_content_def Cb'_def)
  ultimately show ?thesis by (auto simp: Cb'_def)
qed

lemma CbRead_ok:
  assumes "cb_ok Cb" "n \<le> CbCount Cb"
  shows "\<exists>m Cb'. CbRead n Cb = Inr (Some (take n (cb_content Cb), m, Cb')) \<and> cb_content Cb' = drop n (cb_content Cb) \<and>
    (0 < n \<or> \<not> Full Cb \<longrightarrow> cb_ok Cb')"
proof -
  let ?N = "DataSize Cb" and ?t = "Tail Cb" and ?D = "CbData Cb" and ?c = "CbCount Cb"
  have ok: "0 < ?N" "?N < 2 ^ 62" "length ?D = ?N" "?t < ?N" "?c \<le> ?N" "Head Cb = (?t + ?c) mod ?N" "Full Cb = (?c = ?N)"
    using assms(1) by (simp_all add: cb_ok_def)
  define f where "f = min n (?N - ?t)"
  have f: "f \<le> n" "?t + f \<le> ?N" "n - f \<le> ?N" "0 < n - f \<Longrightarrow> f = ?N - ?t" using ok assms(2) by (auto simp: f_def)
  define Rest where "Rest = (if n - f > 0 then take (n - f) ?D else [])"
  have c: "copy_out ?t f ?D = Inr (take f (drop ?t ?D))"
    "(if n - f > 0 then copy_out 0 (n - f) ?D else Inr []) = Inr Rest"
    using f ok(3) by (simp_all add: copy_out_def Rest_def)
  define Cb' where "Cb' = Cb\<lparr>Tail := (?t + n) mod ?N, CbCount := ?c - n, Full := False\<rparr>"
  have "(?t + n) mod 2 ^ 64 = ?t + n" using ok assms(2) by simp
  then have "CbRead n Cb = Inr (Some (take f (drop ?t ?D) @ Rest, cb_samples n Cb', Cb'))"
    using assms(2) c by (simp add: CbRead_def Let_def f_def [symmetric] Cb'_def)
  moreover have "take f (drop ?t ?D) @ Rest = take n (cb_content Cb)"
  proof (rule nth_equalityI)
    have l: "length (take f (drop ?t ?D)) = f" using f(2) ok(3) by simp
    show "length (take f (drop ?t ?D) @ Rest) = length (take n (cb_content Cb))"
      using f assms(2) ok(3) l by (simp add: cb_content_def Rest_def)
    fix i assume "i < length (take f (drop ?t ?D) @ Rest)"
    then have i: "i < n" using f ok(3) l by (auto simp: Rest_def split: if_splits)
    show "(take f (drop ?t ?D) @ Rest) ! i = take n (cb_content Cb) ! i"
    proof (cases "i < f")
      case True
      then show ?thesis using i f(2) assms(2) ok(3) by (simp add: cb_content_def nth_append)
    next
      case False
      then have ft: "f = ?N - ?t" using f(4) i by simp
      then have "?t + i = ?N + (i - f)" using False ok(4) by simp
      then have "(?t + i) mod ?N = i - f" using i assms(2) ok(1,5) by simp
      then show ?thesis using False i l assms(2) ok(3,5) f(3) by (simp add: cb_content_def nth_append Rest_def)
    qed
  qed
  moreover have "cb_content Cb' = drop n (cb_content Cb)"
    by (rule nth_equalityI) (simp_all add: cb_content_def Cb'_def drop_map drop_upt mod_add_left_eq add.assoc)
  moreover have "?t + ?c = ?t + n + (?c - n)" using assms(2) by simp
  then have "Head Cb = ((?t + n) mod ?N + (?c - n)) mod ?N" unfolding ok(6) mod_add_left_eq by (simp only:)
  then have "cb_ok Cb'" if "0 < n \<or> \<not> Full Cb" using ok assms(2) that by (auto simp: cb_ok_def Cb'_def)
  ultimately show ?thesis by (metis (no_types, lifting))
qed

lemma cb_put_Some:
  assumes "cb_ok Cb" "cb_put xs Cb = Some Cb'"
  shows "cb_ok Cb' \<and> cb_content Cb' = cb_content Cb @ xs"
proof -
  have l: "length xs \<le> DataSize Cb - CbCount Cb" using assms(2) by (auto simp: cb_put_def split: if_splits)
  have "\<not> Full Cb" using assms(2) by (auto simp: cb_put_def CbInsert_def CbIsFull_def split: if_splits)
  then show ?thesis using CbInsert_ok [OF assms(1) _ l] assms(2) l by (auto simp: cb_put_def)
qed

lemma cb_get_Some:
  assumes "cb_ok Cb" "cb_get n Cb = Some (ys, Cb')" "0 < n"
  shows "cb_ok Cb' \<and> cb_content Cb = ys @ cb_content Cb' \<and> length ys = n"
proof -
  have l: "n \<le> CbCount Cb" using assms(2) by (auto simp: cb_get_def CbRead_def split: if_splits)
  then have "n \<le> length (cb_content Cb)" by (simp add: cb_content_def)
  then show ?thesis using CbRead_ok [OF assms(1) l] assms(2,3) by (auto simp: cb_get_def)
qed

text \<open>A read of nothing would clear the mark that the ring is full; the queue is one of reads of something.\<close>

definition cb_get_pos :: "nat \<Rightarrow> circular_buffer \<Rightarrow> (u8 list \<times> circular_buffer) option" where
  "cb_get_pos n Cb = (if n = 0 then None else cb_get n Cb)"

interpretation cb_queue: byte_queue cb_ok cb_content cb_put cb_get_pos
proof
  fix q q' :: circular_buffer and xs assume "cb_ok q" "cb_put xs q = Some q'"
  then show "cb_ok q' \<and> cb_content q' = cb_content q @ xs" by (rule cb_put_Some)
next
  fix q q' :: circular_buffer and ys n assume "cb_ok q" "cb_get_pos n q = Some (ys, q')"
  moreover from this have "0 < n" "cb_get n q = Some (ys, q')" by (simp_all add: cb_get_pos_def split: if_splits)
  ultimately show "cb_ok q' \<and> cb_content q = ys @ cb_content q'" using cb_get_Some by blast
qed

lemma CbInit_ok:
  assumes "CbInit Size memory = Inr Cb" "Size < 2 ^ 62" "\<forall>D. memory = Some D \<longrightarrow> Size \<le> length D"
  shows "cb_ok Cb \<and> cb_content Cb = []"
proof (cases memory)
  case (Some D)
  then have "Size \<noteq> 0" "Cb = \<lparr>CbData = take Size D, DataSize = Size, Head = 0, Tail = 0, CbCount = 0, Full = False\<rparr>"
    using assms(1) by (simp_all add: CbInit_def split: if_splits)
  then show ?thesis using assms(2,3) Some by (simp add: cb_ok_def cb_content_def min_absorb2)
qed (use assms(1) in \<open>simp add: CbInit_def split: if_splits\<close>)

text \<open>
  C33. From its creation on, under any sequence of insertions that fit in the free space and of reads, the ring hands out the
  bytes it was given, in order, and holds the rest.
\<close>

theorem ring_is_queue:
  assumes "CbInit Size memory = Inr Cb" "Size < 2 ^ 62" "\<forall>D. memory = Some D \<longrightarrow> Size \<le> length D"
    and "queue_run cb_put cb_get_pos ops Cb = Some (ys, Cb')"
  shows "put_bytes ops = ys @ cb_content Cb'"
  using cb_queue.in_order [OF _ assms(4)] CbInit_ok [OF assms(1-3)] by simp

text \<open>
  An insertion looks only at the mark for a full ring, not at the space there is: as long as the ring is not exactly full, it
  overwrites bytes that were not read, the count exceeds the size, and the ring is never marked full.
\<close>

theorem ring_overrun:
  assumes "cb_ok Cb" "\<not> Full Cb" "DataSize Cb < CbCount Cb + length xs" "length xs \<le> DataSize Cb"
  shows "\<exists>m Cb'. CbInsert xs Cb = Inr (Some (m, Cb')) \<and> DataSize Cb' < CbCount Cb' \<and> \<not> CbIsFull Cb' \<and>
    Tail Cb' = Tail Cb \<and> CbData Cb' ! Tail Cb = xs ! (DataSize Cb - CbCount Cb)"
proof -
  let ?N = "DataSize Cb" and ?h = "Head Cb" and ?D = "CbData Cb" and ?c = "CbCount Cb"
  have ok: "0 < ?N" "?N < 2 ^ 62" "length ?D = ?N" "Tail Cb < ?N" "?c \<le> ?N" "?h = (Tail Cb + ?c) mod ?N" "?c \<noteq> ?N"
    using assms(1,2) by (simp_all add: cb_ok_def)
  have h: "?h < length ?D" "length xs \<le> length ?D" using ok assms(4) by simp_all
  define f where "f = min (length xs) (?N - ?h)"
  obtain D1 D2 where D: "copy_in ?h (take f xs) ?D = Inr D1"
    "(if length xs - f > 0 then copy_in 0 (drop f xs) D1 else Inr D1) = Inr D2"
    "length D2 = ?N" "\<And>j. j < length xs \<Longrightarrow> D2 ! ((?h + j) mod ?N) = xs ! j"
    "\<And>p. \<lbrakk>p < ?N; \<And>j. j < length xs \<Longrightarrow> p \<noteq> (?h + j) mod ?N\<rbrakk> \<Longrightarrow> D2 ! p = ?D ! p"
    using insert_copies [OF h] unfolding ok(3) f_def by blast
  have "(?c + length xs) mod 2 ^ 64 = ?c + length xs" using ok(2,5) assms(4) by simp
  moreover have "?c + length xs \<noteq> ?N" using assms(3) by simp
  moreover have "D2 ! Tail Cb = xs ! (?N - ?c)"
  proof -
    have "Tail Cb + ?c + (?N - ?c) = ?N + Tail Cb" using ok(5) by simp
    then have "(?h + (?N - ?c)) mod ?N = Tail Cb" unfolding ok(6) mod_add_left_eq using ok(4) by (simp only: mod_add_self1 mod_less)
    then show ?thesis using D(4) [of "?N - ?c"] assms(3) ok(5) by (metis add.commute less_diff_conv2)
  qed
  ultimately show ?thesis using assms(2,3) D(1,2)
    by (cases "f < length xs") (simp_all add: CbInsert_def CbIsFull_def Let_def f_def [symmetric])
qed

section \<open>Two locks for one count\<close>

text \<open>
  The writer holds one mutex and the reader another, so nothing orders the two updates of the count: each is a load
  and a store. The accesses of an insertion of \<open>n\<close> and a read of \<open>k\<close> bytes:
\<close>

datatype count_access = WLoad | WStore | RLoad | RStore

fun count_step :: "nat \<Rightarrow> nat \<Rightarrow> count_access \<Rightarrow> nat \<times> nat \<times> nat \<Rightarrow> nat \<times> nat \<times> nat" where
  "count_step n k WLoad (c, w, r) = (c, c, r)"
| "count_step n k WStore (c, w, r) = (w + n, w, r)"
| "count_step n k RLoad (c, w, r) = (c, w, c)"
| "count_step n k RStore (c, w, r) = (r - k, w, r)"

definition count_run :: "nat \<Rightarrow> nat \<Rightarrow> count_access list \<Rightarrow> nat \<Rightarrow> nat" where
  "count_run n k as c = fst (fold (count_step n k) as (c, 0, 0))"

text \<open>
  The writer and the reader hold different mutexes: one after the other their two updates leave the number of bytes in the
  ring, interleaved one of the two is lost.
\<close>

theorem ring_count_race:
  assumes "k \<le> c" "0 < n" "0 < k"
  shows "count_run n k [WLoad, WStore, RLoad, RStore] c = c + n - k \<and>
    count_run n k [RLoad, RStore, WLoad, WStore] c = c + n - k \<and>
    count_run n k [WLoad, RLoad, WStore, RStore] c = c - k \<and> c - k \<noteq> c + n - k \<and>
    count_run n k [RLoad, WLoad, RStore, WStore] c = c + n \<and> c + n \<noteq> c + n - k"
  using assms by (simp add: count_run_def) linarith

section \<open>Examples\<close>

definition example_cb :: circular_buffer where
  "example_cb = \<lparr>CbData = [0, 0, 0, 0], DataSize = 4, Head = 0, Tail = 0, CbCount = 0, Full = False\<rparr>"

theorem ring_is_queue_witness:
  "\<exists>ys Cb'. queue_run cb_put cb_get_pos [PutOp [1, 2, 3], GetOp 2, PutOp [4, 5], GetOp 1] example_cb = Some (ys, Cb') \<and>
    ys = [1, 2, 3] \<and> [1, 2, 3, 4, 5] = ys @ cb_content Cb'"
proof -
  have i: "CbInit 4 (Some [0, 0, 0, 0]) = Inr example_cb" by (simp add: CbInit_def example_cb_def)
  obtain ys Cb' where q: "queue_run cb_put cb_get_pos [PutOp [1, 2, 3], GetOp 2, PutOp [4, 5], GetOp 1] example_cb = Some (ys, Cb')"
    "ys = [1, 2, 3]"
    by (simp add: example_cb_def cb_put_def cb_get_pos_def cb_get_def CbInsert_def CbRead_def CbIsFull_def
        copy_in_def copy_out_def Let_def)
  have "put_bytes [PutOp [1, 2, 3], GetOp 2, PutOp [4, 5], GetOp 1] = ys @ cb_content Cb'"
    by (rule ring_is_queue [OF i _ _ q(1)]) simp_all
  then show ?thesis using q by (simp add: put_bytes_def)
qed

theorem ring_overrun_witness:
  "\<exists>m Cb'. CbInsert [7, 8, 9] (example_cb\<lparr>Head := 2, CbCount := 2\<rparr>) = Inr (Some (m, Cb')) \<and> \<not> CbIsFull Cb' \<and> CbData Cb' ! 0 = 9"
proof -
  let ?Cb = "example_cb\<lparr>Head := 2, CbCount := 2\<rparr>"
  have "cb_ok ?Cb" "\<not> Full ?Cb" "DataSize ?Cb < CbCount ?Cb + length [7, 8, 9 :: u8]" "length [7, 8, 9 :: u8] \<le> DataSize ?Cb"
    by (simp_all add: cb_ok_def example_cb_def)
  from ring_overrun [OF this] obtain m Cb' where "CbInsert [7, 8, 9] ?Cb = Inr (Some (m, Cb'))" "\<not> CbIsFull Cb'"
    "CbData Cb' ! Tail ?Cb = [7, 8, 9] ! (DataSize ?Cb - CbCount ?Cb)" by blast
  then show ?thesis by (simp add: example_cb_def)
qed

theorem ring_count_race_witness:
  "count_run 2 1 [WLoad, RLoad, WStore, RStore] 3 = 2"
  using ring_count_race [of 1 3 2] by simp

end
