(* ===== verification/Poc_Zero.thy ===== *)
theory Poc_Zero
  imports Modbus_Ctx Sdb_Time
begin

text \<open>
  The prototype of a zero compression under \<^verbatim>\<open>poc/ZeroCompression\<close>: blocks of bytes, the test for one whose values
  are all zero (\<^verbatim>\<open>ZeroValuesCompressor.c\<close>), and what is stored about them (\<^verbatim>\<open>StoreCompressedData.c\<close>). The
  server's answers are parameters; what is sent to it is a value.
\<close>

section \<open>Blocks\<close>

definition SUB_BLOCK_SIZE :: nat where "SUB_BLOCK_SIZE = 96"
definition DATETIME_SIZE :: nat where "DATETIME_SIZE = 32"
definition FLOAT_COUNT :: nat where "FLOAT_COUNT = 8"

definition ZEROTIMESTAMP :: timespec where "ZEROTIMESTAMP = \<lparr>tv_sec = 0, tv_nsec = 0\<rparr>"

text \<open>The packed packet: an identifier of one byte, the time in two words, eight doubles.\<close>

record torsional_packet =
  TpId :: u8
  TpTimestamp :: timespec
  TpValues :: "u8 list list"

definition read_i64 :: "u8 list \<Rightarrow> int" where
  "read_i64 bs = sint (of_nat (of_le (take 8 bs)) :: 64 word)"

definition read_torsional :: "u8 list \<Rightarrow> torsional_packet" where
  "read_torsional bs = \<lparr>TpId = hd bs, TpTimestamp = \<lparr>tv_sec = read_i64 (drop 1 bs), tv_nsec = read_i64 (drop 9 bs)\<rparr>,
     TpValues = map (\<lambda>k. take 8 (drop (17 + 8 * k) bs)) [0..<8]\<rparr>"

text \<open>A double equals zero when all its bits but the sign's are clear.\<close>

definition double_zero :: "u8 list \<Rightarrow> bool" where
  "double_zero bs \<longleftrightarrow> take 7 bs = replicate 7 0 \<and> (bs ! 7 = 0 \<or> bs ! 7 = 128)"

definition CheckIfAllZeroOnSingleBlock :: "u8 list \<Rightarrow> bool" where
  "CheckIfAllZeroOnSingleBlock SingleBlock = list_all double_zero (TpValues (read_torsional SingleBlock))"

definition block_at :: "u8 list \<Rightarrow> nat \<Rightarrow> u8 list" where
  "block_at bs i = take SUB_BLOCK_SIZE (drop (i * SUB_BLOCK_SIZE) bs)"

definition blocks_of :: "u8 list \<Rightarrow> u8 list list" where
  "blocks_of bs = map (block_at bs) [0..<length bs div SUB_BLOCK_SIZE]"

text \<open>The older test takes a date and a time of 32 bytes for the header; what it gives is the header as a C string.\<close>

definition GetMetaDataWhenZeroFromBlock :: "u8 list \<Rightarrow> u8 list list" where
  "GetMetaDataWhenZeroFromBlock DataBlock =
     map (\<lambda>b. takeWhile (\<lambda>c. c \<noteq> 0) (take (DATETIME_SIZE - 1) b))
       (filter (\<lambda>b. list_all (\<lambda>j. double_zero (take 8 (drop (DATETIME_SIZE + 8 * j) b))) [0..<FLOAT_COUNT]) (blocks_of DataBlock))"

section \<open>What is stored\<close>

text \<open>A statement sent to the server, with its parameters.\<close>

datatype statement = Stmt string "string list"

definition pad9 :: "string \<Rightarrow> string" where
  "pad9 s = replicate (9 - length s) (CHR ''0'') @ s"

definition timespec_text :: "timespec \<Rightarrow> string" where
  "timespec_text ts = take 31 ((if tv_sec ts < 0 then ''-'' else []) @ decimal (nat \<bar>tv_sec ts\<bar>) @ ''.'' @ pad9 (decimal (nat (tv_nsec ts))))"

definition rle_insert :: string where
  "rle_insert = ''INSERT INTO ShaftPowerMetaDataRLEWhenZero (start_time, end_time, run_length) values ($1, $2, $3);''"

definition InitializeRLEMetaDataStorage :: "bool \<Rightarrow> int \<times> statement" where
  "InitializeRLEMetaDataStorage ok = (if ok then 0 else - 1,
     Stmt ''CREATE TABLE IF NOT EXISTS ShaftPowerMetaDataRLEWhenZero (id SERIAL PRIMARY KEY, start_time TIMESTAMP NOT NULL, end_time TIMESTAMP NOT NULL, run_length INT NOT NULL);'' [])"

definition StoreRLEMetaData :: "bool \<Rightarrow> string \<Rightarrow> string \<Rightarrow> nat \<Rightarrow> int \<times> statement" where
  "StoreRLEMetaData ok Start End RunLength =
     (if ok then 0 else - 1, Stmt rle_insert [Start, End, take 15 (decimal RunLength)])"

definition StoreRLEMetaDataWithTimespecs :: "bool \<Rightarrow> timespec \<Rightarrow> timespec \<Rightarrow> nat \<Rightarrow> int \<times> statement" where
  "StoreRLEMetaDataWithTimespecs ok StartTime EndTime RunLength =
     (if ok then 0 else - 1,
      Stmt rle_insert [timespec_text StartTime, timespec_text EndTime, take 15 (decimal RunLength)])"

definition InitializeFullMetaDataStorage :: "bool \<Rightarrow> int \<times> statement" where
  "InitializeFullMetaDataStorage ok = (if ok then 0 else - 1,
     Stmt ''CREATE TABLE IF NOT EXISTS FullMetaDataWhenZero(id SERIAL PRIMARY KEY, timestamp TIMESTAMP NOT NULL)'' [])"

text \<open>The time is not put into the statement.\<close>

definition StoreMetaData :: "bool \<Rightarrow> timespec \<Rightarrow> int \<times> statement" where
  "StoreMetaData ok TimeStamp = (if ok then 0 else - 1, Stmt ''INSERT INTO FullMetaDataWhenZero (timestamp) Values (%s);'' [])"

definition SingleBlockSaveMetaDataWhenZero :: "bool \<Rightarrow> u8 list \<Rightarrow> statement list" where
  "SingleBlockSaveMetaDataWhenZero ok SingleBlock =
     (if CheckIfAllZeroOnSingleBlock SingleBlock
      then [snd (StoreMetaData ok (TpTimestamp (read_torsional SingleBlock)))] else [])"

text \<open>
  The address of the time is a packet's address plus one packet for each byte of the field's offset, which lies in the block or
  after it.
\<close>

definition misplaced_time :: "u8 list \<Rightarrow> nat \<Rightarrow> timespec" where
  "misplaced_time DataBlock i =
     (let p = drop (i * SUB_BLOCK_SIZE + 81) DataBlock in \<lparr>tv_sec = read_i64 p, tv_nsec = read_i64 (drop 8 p)\<rparr>)"

text \<open>The result is the remaining data with its size, \<open>None\<close> where it cannot be allocated.\<close>

definition StoreAndRemoveAllMetaData :: "(nat \<Rightarrow> bool) \<Rightarrow> bool \<Rightarrow> u8 list \<Rightarrow> (u8 list \<times> nat) option \<times> statement list" where
  "StoreAndRemoveAllMetaData ok allocated DataBlock =
     (let BlockCount = length DataBlock div SUB_BLOCK_SIZE;
          ValidCount = length (filter (\<lambda>i. \<not> CheckIfAllZeroOnSingleBlock (block_at DataBlock i)) [0..<BlockCount]);
          sent = map (\<lambda>i. snd (StoreMetaData (ok i) (misplaced_time DataBlock i)))
            (filter (\<lambda>i. CheckIfAllZeroOnSingleBlock (block_at DataBlock i)) [0..<BlockCount])
      in if \<not> allocated then (None, sent)
         else (Some (concat (map (block_at DataBlock)
                 (filter (\<lambda>i. \<not> CheckIfAllZeroOnSingleBlock (block_at DataBlock i)) [0..<BlockCount])),
               ValidCount * SUB_BLOCK_SIZE), sent))"

text \<open>The loop returns in its first turn.\<close>

definition MapMultiBlock :: "u8 list \<Rightarrow> int list \<Rightarrow> int \<times> int list" where
  "MapMultiBlock MultiBlock Map =
     (case blocks_of MultiBlock of
        [] \<Rightarrow> (- 1, Map)
      | Block # _ \<Rightarrow> (0, Map[0 := if CheckIfAllZeroOnSingleBlock Block then 0 else 1]))"

section \<open>Run lengths\<close>

text \<open>The static variables, and what was sent; a run that is stored is kept with its length.\<close>

record rle_state =
  StartOfRLE :: timespec
  CurrentLastZeroBlockEnd :: timespec
  ZeroCount :: int
  StoredRuns :: "(timespec \<times> timespec \<times> int) list"
  RleSent :: "statement list"

definition rle_init :: rle_state where
  "rle_init = \<lparr>StartOfRLE = ZEROTIMESTAMP, CurrentLastZeroBlockEnd = ZEROTIMESTAMP, ZeroCount = 0, StoredRuns = [], RleSent = []\<rparr>"

definition FullRLEZeroCompression :: "bool \<Rightarrow> u8 list \<Rightarrow> rle_state \<Rightarrow> rle_state" where
  "FullRLEZeroCompression ok MultiBlock st =
     (case blocks_of MultiBlock of
        [] \<Rightarrow> st
      | Block # _ \<Rightarrow>
          (let Packet = read_torsional Block
           in if CheckIfAllZeroOnSingleBlock Block
              then st\<lparr>StartOfRLE := (if StartOfRLE st = ZEROTIMESTAMP then TpTimestamp Packet else StartOfRLE st),
                CurrentLastZeroBlockEnd := TpTimestamp Packet, ZeroCount := ZeroCount st + 1\<rparr>
              else st\<lparr>StoredRuns := StoredRuns st @ [(StartOfRLE st, CurrentLastZeroBlockEnd st, ZeroCount st)],
                RleSent := RleSent st @
                  [snd (StoreRLEMetaDataWithTimespecs ok (StartOfRLE st) (CurrentLastZeroBlockEnd st) (nat (ZeroCount st)))],
                ZeroCount := 0, StartOfRLE := ZEROTIMESTAMP, CurrentLastZeroBlockEnd := ZEROTIMESTAMP\<rparr>))"

section \<open>What they do\<close>

lemma length_block_at: "i < length bs div SUB_BLOCK_SIZE \<Longrightarrow> length (block_at bs i) = SUB_BLOCK_SIZE"
proof -
  assume "i < length bs div SUB_BLOCK_SIZE"
  then have "(i + 1) * SUB_BLOCK_SIZE \<le> (length bs div SUB_BLOCK_SIZE) * SUB_BLOCK_SIZE" by (intro mult_le_mono1) simp
  also have "\<dots> \<le> length bs" by (rule div_times_less_eq_dividend)
  finally show ?thesis by (simp add: block_at_def)
qed

text \<open>
  Removing the zero blocks keeps the others unchanged and in order, with their size; for each block removed one statement is
  sent, always the same: it does not hold the time, so what was removed cannot be told from what is stored.
\<close>

theorem zero_blocks_removed:
  "StoreAndRemoveAllMetaData ok True DataBlock =
    (Some (concat (filter (\<lambda>b. \<not> CheckIfAllZeroOnSingleBlock b) (blocks_of DataBlock)),
       length (concat (filter (\<lambda>b. \<not> CheckIfAllZeroOnSingleBlock b) (blocks_of DataBlock)))),
     replicate (length (filter CheckIfAllZeroOnSingleBlock (blocks_of DataBlock)))
       (Stmt ''INSERT INTO FullMetaDataWhenZero (timestamp) Values (%s);'' []))"
proof -
  let ?n = "length DataBlock div SUB_BLOCK_SIZE"
  have f: "filter P (blocks_of DataBlock) = map (block_at DataBlock) (filter (\<lambda>i. P (block_at DataBlock i)) [0..<?n])" for P
    by (simp add: blocks_of_def filter_map comp_def)
  have "length (concat (map (block_at DataBlock) is)) = length is * SUB_BLOCK_SIZE" if "set is \<subseteq> {0..<?n}" for "is"
    using that by (induction "is") (simp_all add: length_block_at)
  then have "length (concat (map (block_at DataBlock) (filter (\<lambda>i. \<not> CheckIfAllZeroOnSingleBlock (block_at DataBlock i)) [0..<?n]))) =
      length (filter (\<lambda>i. \<not> CheckIfAllZeroOnSingleBlock (block_at DataBlock i)) [0..<?n]) * SUB_BLOCK_SIZE"
    by (metis (no_types, lifting) atLeast_upt filter_is_subset set_upt)
  then show ?thesis
    by (simp add: StoreAndRemoveAllMetaData_def f StoreMetaData_def Let_def map_replicate_const)
qed

text \<open>The runs as they stand for the blocks: each stored run is ended by a block that is not zero.\<close>

definition expand_runs :: "int list \<Rightarrow> bool list" where
  "expand_runs ns = concat (map (\<lambda>n. replicate (nat n) True @ [False]) ns)"

fun rle_blocks :: "u8 list list \<Rightarrow> rle_state \<Rightarrow> rle_state" where
  "rle_blocks [] st = st"
| "rle_blocks (b # bs) st = rle_blocks bs (FullRLEZeroCompression True b st)"

definition rle_pattern :: "rle_state \<Rightarrow> bool list" where
  "rle_pattern st = expand_runs (map (snd \<circ> snd) (StoredRuns st)) @ replicate (nat (ZeroCount st)) True"

lemma blocks_of_one: "length b = SUB_BLOCK_SIZE \<Longrightarrow> blocks_of b = [b]"
  by (simp add: blocks_of_def block_at_def SUB_BLOCK_SIZE_def)

lemma rle_step:
  assumes "length b = SUB_BLOCK_SIZE" "0 \<le> ZeroCount st"
  shows "rle_pattern (FullRLEZeroCompression ok b st) = rle_pattern st @ [CheckIfAllZeroOnSingleBlock b] \<and>
    0 \<le> ZeroCount (FullRLEZeroCompression ok b st)"
  using assms(2) replicate_append_same [of "nat (ZeroCount st)" True]
  by (auto simp: FullRLEZeroCompression_def blocks_of_one [OF assms(1)] Let_def rle_pattern_def expand_runs_def nat_add_distrib)


text \<open>
  Of a buffer of several blocks only the first is looked at: the others are neither counted nor stored.
\<close>

theorem rle_first_block_only:
  assumes "length b = SUB_BLOCK_SIZE"
  shows "FullRLEZeroCompression ok (b @ rest) st = FullRLEZeroCompression ok b st \<and>
    MapMultiBlock (b @ rest) Map = MapMultiBlock b Map"
proof -
  have "length (b @ rest) div SUB_BLOCK_SIZE = Suc (length rest div SUB_BLOCK_SIZE)"
    using assms by (simp add: SUB_BLOCK_SIZE_def)
  then have "blocks_of (b @ rest) = block_at (b @ rest) 0 # map (block_at (b @ rest)) [1..<Suc (length rest div SUB_BLOCK_SIZE)]"
    by (simp add: blocks_of_def upt_conv_Cons del: upt_Suc)
  moreover have "block_at (b @ rest) 0 = b" using assms by (simp add: block_at_def)
  ultimately show ?thesis by (simp add: FullRLEZeroCompression_def MapMultiBlock_def blocks_of_one [OF assms])
qed

section \<open>Examples\<close>

definition zero_block :: "u8 list" where "zero_block = [1] @ replicate 95 0"
definition full_block :: "u8 list" where "full_block = [1] @ replicate 95 5"

lemma upt_8: "[0..<8] = [0, 1, 2, 3, 4, 5, 6, 7 :: nat]"
  by code_simp

lemma example_blocks:
  "length zero_block = SUB_BLOCK_SIZE" "length full_block = SUB_BLOCK_SIZE"
  "CheckIfAllZeroOnSingleBlock zero_block" "\<not> CheckIfAllZeroOnSingleBlock full_block"
  by (simp_all add: zero_block_def full_block_def SUB_BLOCK_SIZE_def CheckIfAllZeroOnSingleBlock_def read_torsional_def
      double_zero_def upt_8 drop_Cons' take_Cons')


theorem rle_first_block_only_witness:
  "ZeroCount (FullRLEZeroCompression True (zero_block @ full_block @ zero_block) rle_init) = 1"
  using rle_first_block_only [OF example_blocks(1), of True "full_block @ zero_block" rle_init "[]"] example_blocks
  by (simp add: FullRLEZeroCompression_def blocks_of_one Let_def rle_init_def)

end
