(* ===== verification/Cjson_Numbers.thy ===== *)
theory Cjson_Numbers
  imports Cjson_Reads
begin

text \<open>
  How \<^verbatim>\<open>print_number\<close> of \<^verbatim>\<open>src/Libs/cJSON/cJSON.c\<close> renders a number: as an integer, with 15 significant digits,
  or with 17 when 15 do not recover the value. The conversions of \<^verbatim>\<open>sprintf\<close> are written out for the C locale,
  with correct rounding; what fits the buffer of 26 characters is shown below.
\<close>

section \<open>Comparing doubles\<close>

definition d_abs :: "double \<Rightarrow> double" where
  "d_abs x = (case x of NaN \<Rightarrow> NaN | Infinity _ \<Rightarrow> Infinity False | Finite _ m e \<Rightarrow> Finite False m e)"

text \<open>A finite value as an integer number of units \<open>2 ^ k\<close>, for a \<open>k\<close> not above its exponent.\<close>

definition d_units :: "bool \<Rightarrow> nat \<Rightarrow> int \<Rightarrow> int \<Rightarrow> int" where
  "d_units neg m e k = (if neg then - 1 else 1) * int m * 2 ^ nat (e - k)"

definition d_less :: "double \<Rightarrow> double \<Rightarrow> bool" where
  "d_less x y = (case (x, y) of
     (Finite s m e, Finite t n f) \<Rightarrow> d_units s m e (min e f) < d_units t n f (min e f)
   | (Infinity s, Infinity t) \<Rightarrow> s \<and> \<not> t
   | (Infinity s, Finite t n f) \<Rightarrow> s
   | (Finite s m e, Infinity t) \<Rightarrow> \<not> t
   | _ \<Rightarrow> False)"

definition d_le :: "double \<Rightarrow> double \<Rightarrow> bool" where
  "d_le x y \<longleftrightarrow> x \<noteq> NaN \<and> y \<noteq> NaN \<and> \<not> d_less y x"

definition d_sub :: "double \<Rightarrow> double \<Rightarrow> double" where
  "d_sub x y = (case (x, y) of
     (Finite s m e, Finite t n f) \<Rightarrow>
       (let k = min e f; u = d_units s m e k - d_units t n f k
        in double_of_ratio (u < 0) (nat \<bar>u\<bar> * 2 ^ nat k) (2 ^ nat (- k)))
   | (Infinity s, Infinity t) \<Rightarrow> if s = t then NaN else Infinity s
   | (Infinity s, Finite t n f) \<Rightarrow> Infinity s
   | (Finite s m e, Infinity t) \<Rightarrow> Infinity (\<not> t)
   | _ \<Rightarrow> NaN)"

text \<open>The product with \<^verbatim>\<open>DBL_EPSILON\<close>, which is \<open>2 ^ -52\<close>.\<close>

definition d_times_epsilon :: "double \<Rightarrow> double" where
  "d_times_epsilon x = (case x of
     Finite s m e \<Rightarrow> double_of_ratio s (m * 2 ^ nat (e - 52)) (2 ^ nat (52 - e))
   | _ \<Rightarrow> x)"

definition compare_double :: "double \<Rightarrow> double \<Rightarrow> bool" where
  "compare_double a b =
     (let maxVal = (if d_less (d_abs b) (d_abs a) then d_abs a else d_abs b)
      in d_le (d_abs (d_sub a b)) (d_times_epsilon maxVal))"

text \<open>The comparison with an \<^verbatim>\<open>int\<close>, which a double holds exactly.\<close>

definition d_equals_int :: "double \<Rightarrow> int \<Rightarrow> bool" where
  "d_equals_int x k = (case x of
     Finite s m e \<Rightarrow> d_units s m e (min e 0) = k * 2 ^ nat (- min e 0)
   | _ \<Rightarrow> False)"

section \<open>The conversions of sprintf\<close>

definition show_int :: "int \<Rightarrow> string" where
  "show_int k = (if k < 0 then CHR ''-'' # decimal (nat (- k)) else decimal (nat k))"

text \<open>The decimal exponent of \<open>n / d\<close>: the \<open>x\<close> with \<open>10 ^ x \<le> n / d < 10 ^ (x + 1)\<close>.\<close>

definition decimal_exponent :: "nat \<Rightarrow> nat \<Rightarrow> int" where
  "decimal_exponent n d =
     (if d \<le> n then int (length (decimal (n div d))) - 1 else - int (length (decimal ((d - 1) div n))))"

text \<open>The exponent and the first \<open>P\<close> significant digits of \<open>n / d\<close>, rounded.\<close>

definition significant :: "nat \<Rightarrow> nat \<Rightarrow> nat \<Rightarrow> int \<times> nat" where
  "significant P n d =
     (let x = decimal_exponent n d;
          k = int P - 1 - x;
          m = rne (n * 10 ^ nat k) (d * 10 ^ nat (- k))
      in if m = 10 ^ P then (x + 1, m div 10) else (x, m))"

definition strip_zeros :: "string \<Rightarrow> string" where
  "strip_zeros s = rev (dropWhile (\<lambda>c. c = CHR ''0'') (rev s))"

definition with_fraction :: "string \<Rightarrow> string \<Rightarrow> string" where
  "with_fraction ds fs = (let fs = strip_zeros fs in if fs = [] then ds else ds @ CHR ''.'' # fs)"

definition show_exponent :: "int \<Rightarrow> string" where
  "show_exponent x =
     CHR ''e'' # (if x < 0 then CHR ''-'' else CHR ''+'') # (if \<bar>x\<bar> < 10 then ''0'' else []) @ decimal (nat \<bar>x\<bar>)"

definition show_digits :: "nat \<Rightarrow> int \<Rightarrow> nat \<Rightarrow> string" where
  "show_digits P x m =
     (let ds = decimal m
      in if x < - 4 \<or> int P \<le> x then with_fraction (take 1 ds) (drop 1 ds) @ show_exponent x
         else if x < 0 then with_fraction ''0'' (replicate (nat (- x - 1)) (CHR ''0'') @ ds)
         else with_fraction (take (nat x + 1) ds) (drop (nat x + 1) ds))"

text \<open>\<open>%1.Pg\<close> of a finite double.\<close>

definition show_g :: "nat \<Rightarrow> bool \<Rightarrow> nat \<Rightarrow> int \<Rightarrow> string" where
  "show_g P neg m e =
     (if neg then ''-'' else []) @
     (if m = 0 then ''0''
      else (let (x, k) = significant P (m * 2 ^ nat e) (2 ^ nat (- e)) in show_digits P x k))"

section \<open>The characters of a number\<close>

text \<open>What \<^verbatim>\<open>print_number\<close> puts into its buffer.\<close>

definition number_chars :: "int \<Rightarrow> double \<Rightarrow> string" where
  "number_chars vi d = (case d of
     Finite neg m e \<Rightarrow>
       if d_equals_int d vi then show_int vi
       else (let s = show_g 15 neg m e; (test, used) = strtod s
             in if used = 0 \<or> \<not> compare_double test d then show_g 17 neg m e else s)
   | _ \<Rightarrow> ''null'')"

section \<open>The number of digits\<close>

lemma decimal_less: "n < 10 ^ length (decimal n)"
proof (induction n rule: decimal.induct)
  case (1 n)
  show ?case
  proof (cases "n < 10")
    case False
    then have "n div 10 < 10 ^ length (decimal (n div 10))" using 1 by blast
    then show ?thesis using False by (subst decimal.simps) simp
  qed (subst decimal.simps, simp)
qed

lemma decimal_ge: "0 < n \<Longrightarrow> 10 ^ (length (decimal n) - 1) \<le> n"
proof (induction n rule: decimal.induct)
  case (1 n)
  show ?case
  proof (cases "n < 10")
    case False
    then have "10 ^ (length (decimal (n div 10)) - 1) \<le> n div 10" using 1 by simp
    moreover have "0 < length (decimal (n div 10))" using decimal_nonempty by simp
    ultimately have "10 ^ length (decimal (n div 10)) \<le> n"
      by (cases "length (decimal (n div 10))") auto
    then show ?thesis using False by (subst decimal.simps) simp
  qed (use 1 in \<open>subst decimal.simps, simp\<close>)
qed

lemma decimal_length_le:
  assumes "n < 10 ^ k" "0 < k"
  shows "length (decimal n) \<le> k"
proof (cases "n = 0")
  case False
  then have "(10 :: nat) ^ (length (decimal n) - 1) < 10 ^ k" using decimal_ge [of n] assms(1) by linarith
  then have "length (decimal n) - 1 < k" by simp
  then show ?thesis by linarith
qed (use assms(2) in \<open>simp add: decimal.simps\<close>)

lemma decimal_hd: "0 < n \<Longrightarrow> hd (decimal n) \<noteq> CHR ''0''"
proof (induction n rule: decimal.induct)
  case (1 n)
  show ?case
  proof (cases "n < 10")
    case True
    have "(of_char (char_of (48 + n) :: char) :: nat) \<noteq> of_char (CHR ''0'')"
      unfolding of_char_of using True 1(2) by simp
    then have "char_of (48 + n) \<noteq> CHR ''0''" by metis
    then show ?thesis using True by (subst decimal.simps) simp
  next
    case False
    then show ?thesis using 1 decimal_nonempty by (subst decimal.simps) simp
  qed
qed

lemma decimal_0 [simp]: "decimal 0 = ''0''"
  by code_simp

lemma decimal_text: "digits_text (decimal n)" "hd (decimal n) = CHR ''0'' \<longrightarrow> decimal n = ''0''"
  using decimal_digits [of n] decimal_nonempty [of n] decimal_hd [of n]
  by (simp_all add: digits_text_def) (cases "n = 0", simp_all)

lemma decimal_length_eq:
  assumes "10 ^ k \<le> n" "n < 10 ^ Suc k"
  shows "length (decimal n) = Suc k"
proof (rule antisym)
  show "length (decimal n) \<le> Suc k" using assms(2) by (rule decimal_length_le) simp
  have "(10 :: nat) ^ k < 10 ^ length (decimal n)" using decimal_less [of n] assms(1) by linarith
  then show "Suc k \<le> length (decimal n)" by simp
qed

section \<open>Significant digits\<close>

lemma decimal_exponent_nonneg:
  assumes "0 < d" "d \<le> n"
  shows "0 \<le> decimal_exponent n d" "d * 10 ^ nat (decimal_exponent n d) \<le> n" "n < d * 10 ^ Suc (nat (decimal_exponent n d))"
proof -
  define l where "l = length (decimal (n div d)) - 1"
  have pos: "0 < n div d" using assms by (simp add: div_greater_zero_iff)
  have len: "length (decimal (n div d)) = Suc l" using decimal_nonempty by (simp add: l_def)
  then have x: "decimal_exponent n d = int l" using assms(2) by (simp add: decimal_exponent_def)
  show "0 \<le> decimal_exponent n d" by (simp add: x)
  have "10 ^ l \<le> n div d" using decimal_ge [OF pos] by (simp add: l_def)
  then show "d * 10 ^ nat (decimal_exponent n d) \<le> n"
    using assms(1) by (simp add: x less_eq_div_iff_mult_less_eq mult.commute)
  have "n div d < 10 ^ Suc l" using decimal_less [of "n div d"] len by simp
  then show "n < d * 10 ^ Suc (nat (decimal_exponent n d))"
    using assms(1) by (simp add: x div_less_iff_less_mult mult.commute mult.left_commute)
qed

lemma decimal_exponent_neg:
  assumes "0 < n" "n < d"
  shows "decimal_exponent n d < 0" "d \<le> n * 10 ^ nat (- decimal_exponent n d)"
    "n * 10 ^ nat (- decimal_exponent n d) < d * 10"
proof -
  define q where "q = (d - 1) div n"
  define l where "l = length (decimal q) - 1"
  have pos: "0 < q" using assms by (simp add: q_def div_greater_zero_iff)
  have len: "length (decimal q) = Suc l" using decimal_nonempty by (simp add: l_def)
  then have x: "decimal_exponent n d = - int (Suc l)" using assms(2) by (simp add: decimal_exponent_def q_def)
  show "decimal_exponent n d < 0" by (simp add: x)
  have "q < 10 ^ Suc l" using decimal_less [of q] len by simp
  then have "d - 1 < 10 ^ Suc l * n" using assms(1) by (simp add: q_def div_less_iff_less_mult)
  then show "d \<le> n * 10 ^ nat (- decimal_exponent n d)" by (simp add: x nat_add_distrib mult.commute)
  have "10 ^ l \<le> q" using decimal_ge [OF pos] by (simp add: l_def)
  then have "10 ^ l * n \<le> d - 1" using assms(1) by (simp add: q_def less_eq_div_iff_mult_less_eq)
  then have "10 ^ l * n < d" using assms by linarith
  then show "n * 10 ^ nat (- decimal_exponent n d) < d * 10" by (simp add: x nat_add_distrib mult.commute mult.left_commute)
qed

lemma scaled_to_digits:
  assumes "0 < n" "0 < d" "0 < P" "k = int P - 1 - decimal_exponent n d"
  shows "d * 10 ^ nat (- k) * 10 ^ (P - 1) \<le> n * 10 ^ nat k"
    "n * 10 ^ nat k < d * 10 ^ nat (- k) * 10 ^ P"
proof -
  define x where "x = decimal_exponent n d"
  have "d * 10 ^ nat (- k) * 10 ^ (P - 1) \<le> n * 10 ^ nat k \<and> n * 10 ^ nat k < d * 10 ^ nat (- k) * 10 ^ P"
  proof (cases "d \<le> n")
    case True
    note b = decimal_exponent_nonneg [OF assms(2) True, folded x_def]
    show ?thesis
    proof (cases "0 \<le> k")
      case True
      then have e: "nat k = P - 1 - nat x" "nat x \<le> P - 1" using assms(3,4) b(1) by (auto simp: x_def)
      have p: "(10 :: nat) ^ (P - 1) = 10 ^ nat x * 10 ^ nat k" "(10 :: nat) ^ P = 10 ^ Suc (nat x) * 10 ^ nat k"
        using e assms(3) by (simp_all flip: power_add power_Suc)
      show ?thesis
        using mult_le_mono1 [OF b(2), of "10 ^ nat k"] mult_less_mono1 [OF b(3), of "10 ^ nat k"] True
        unfolding p by (simp add: mult.assoc)
    next
      case False
      then have e: "nat (- k) + (P - 1) = nat x" "nat (- k) + P = Suc (nat x)" using assms(3,4) b(1) by (auto simp: x_def)
      have p: "(10 :: nat) ^ nat (- k) * 10 ^ (P - 1) = 10 ^ nat x" "(10 :: nat) ^ nat (- k) * 10 ^ P = 10 ^ Suc (nat x)"
        unfolding power_add [symmetric] e by (rule HOL.refl)+
      show ?thesis using b(2,3) False unfolding mult.assoc p by simp
    qed
  next
    case False
    note b = decimal_exponent_neg [OF assms(1), of d, folded x_def]
    have k: "nat k = nat (- x) + (P - 1)" "0 \<le> k" using assms(3,4) b(1) False by (auto simp: x_def)
    have p: "(10 :: nat) ^ P = 10 * 10 ^ (P - 1)" using assms(3) by (simp flip: power_Suc)
    have "d * 10 ^ (P - 1) \<le> n * 10 ^ nat (- x) * 10 ^ (P - 1)" "n * 10 ^ nat (- x) * 10 ^ (P - 1) < d * 10 * 10 ^ (P - 1)"
      using b(2,3) False by simp_all
    then show ?thesis using k(2) by (simp add: k(1) p power_add mult.assoc)
  qed
  then show "d * 10 ^ nat (- k) * 10 ^ (P - 1) \<le> n * 10 ^ nat k" "n * 10 ^ nat k < d * 10 ^ nat (- k) * 10 ^ P"
    by simp_all
qed

lemma significant_digits:
  assumes "0 < n" "0 < d" "0 < P" "significant P n d = (x, m)"
  shows "10 ^ (P - 1) \<le> m" "m < 10 ^ P" "x = decimal_exponent n d \<or> x = decimal_exponent n d + 1"
proof -
  define k where "k = int P - 1 - decimal_exponent n d"
  define r where "r = rne (n * 10 ^ nat k) (d * 10 ^ nat (- k))"
  note b = scaled_to_digits [OF assms(1-3) k_def]
  have D: "0 < d * 10 ^ nat (- k)" using assms(2) by simp
  have "10 ^ (P - 1) \<le> n * 10 ^ nat k div (d * 10 ^ nat (- k))"
    using b(1) D by (simp add: less_eq_div_iff_mult_less_eq mult.commute)
  moreover have "n * 10 ^ nat k div (d * 10 ^ nat (- k)) < 10 ^ P"
    using b(2) D by (simp add: div_less_iff_less_mult mult.commute)
  ultimately have r: "10 ^ (P - 1) \<le> r" "r \<le> 10 ^ P"
    using rne_bounds [of "n * 10 ^ nat k" "d * 10 ^ nat (- k)"] by (auto simp: r_def)
  have s: "significant P n d = (if r = 10 ^ P then (decimal_exponent n d + 1, r div 10) else (decimal_exponent n d, r))"
    by (simp add: significant_def Let_def k_def r_def)
  obtain P' where P': "P = Suc P'" using assms(3) gr0_implies_Suc by blast
  have "10 ^ (P - 1) \<le> m \<and> m < 10 ^ P \<and> (x = decimal_exponent n d \<or> x = decimal_exponent n d + 1)"
    using s assms(4) r by (cases "r = 10 ^ P") (auto simp: P')
  then show "10 ^ (P - 1) \<le> m" "m < 10 ^ P" "x = decimal_exponent n d \<or> x = decimal_exponent n d + 1" by simp_all
qed

section \<open>The text is a number of JSON and fits the buffer\<close>

lemma strip_zeros_bounds: "length (strip_zeros s) \<le> length s" "set (strip_zeros s) \<subseteq> set s"
proof -
  show "length (strip_zeros s) \<le> length s"
    unfolding strip_zeros_def using length_dropWhile_le [of _ "rev s"] by simp
  show "set (strip_zeros s) \<subseteq> set s"
    unfolding strip_zeros_def using set_dropWhileD by fastforce
qed

lemma with_fraction_text:
  assumes "\<forall>c\<in>set fs. isdigit c"
  obtains f where "with_fraction ds fs = ds @ f" "fraction_text f" "length f \<le> Suc (length fs)"
proof (cases "strip_zeros fs = []")
  case True
  then show thesis using that [of "[]"] by (simp add: with_fraction_def fraction_text_def)
next
  case False
  then have "digits_text (strip_zeros fs)"
    using strip_zeros_bounds(2) [of fs] assms by (auto simp: digits_text_def)
  then show thesis
    using that [of "CHR ''.'' # strip_zeros fs"] strip_zeros_bounds(1) [of fs] False
    by (simp add: with_fraction_def fraction_text_def)
qed

lemma show_exponent_text:
  assumes "\<bar>x\<bar> < 1000"
  shows "exponent_text (show_exponent x)" "length (show_exponent x) \<le> 5"
proof -
  have d: "digits_text ((if \<bar>x\<bar> < 10 then ''0'' else []) @ decimal (nat \<bar>x\<bar>))"
    using decimal_text(1) [of "nat \<bar>x\<bar>"] by (auto simp: digits_text_def isdigit_def)
  then show "exponent_text (show_exponent x)"
    unfolding exponent_text_def show_exponent_def
    by (intro disjI2 exI [of _ "CHR ''e''"] exI [of _ "if x < 0 then ''-'' else ''+''"] exI conjI d) auto
  show "length (show_exponent x) \<le> 5"
  proof (cases "\<bar>x\<bar> < 10")
    case True
    then have "length (decimal (nat \<bar>x\<bar>)) \<le> 1" by (intro decimal_length_le) auto
    then show ?thesis using True by (simp add: show_exponent_def)
  next
    case False
    have "length (decimal (nat \<bar>x\<bar>)) \<le> 3" using assms by (intro decimal_length_le) auto
    then show ?thesis using False by (simp add: show_exponent_def)
  qed
qed

lemma number_textI:
  "\<lbrakk>digits_text ds; hd ds = CHR ''0'' \<longrightarrow> ds = ''0''; fraction_text f; exponent_text x; sg \<in> {[], ''-''}\<rbrakk> \<Longrightarrow>
    number_text (sg @ ds @ f @ x)"
  unfolding number_text_def by blast

lemma exponent_text_Nil [simp]: "exponent_text []"
  by (simp add: exponent_text_def)

lemma digits_text_take: "digits_text ds \<Longrightarrow> 0 < n \<Longrightarrow> digits_text (take n ds)"
  by (auto simp: digits_text_def dest: in_set_takeD)

lemma show_digits_cases:
  "x < - 4 \<or> int P \<le> x \<Longrightarrow> show_digits P x m = with_fraction (take 1 (decimal m)) (drop 1 (decimal m)) @ show_exponent x"
  "\<not> (x < - 4 \<or> int P \<le> x) \<Longrightarrow> x < 0 \<Longrightarrow>
    show_digits P x m = with_fraction ''0'' (replicate (nat (- x - 1)) (CHR ''0'') @ decimal m)"
  "\<not> (x < - 4 \<or> int P \<le> x) \<Longrightarrow> \<not> x < 0 \<Longrightarrow>
    show_digits P x m = with_fraction (take (nat x + 1) (decimal m)) (drop (nat x + 1) (decimal m))"
  unfolding show_digits_def Let_def by (simp_all only: if_True if_False simp_thms)

lemma decimal_take:
  assumes "0 < m" "0 < n"
  shows "digits_text (take n (decimal m))" "hd (take n (decimal m)) = CHR ''0'' \<longrightarrow> take n (decimal m) = ''0''"
    "\<forall>c\<in>set (drop n (decimal m)). isdigit c"
proof -
  show "digits_text (take n (decimal m))" using digits_text_take [OF decimal_text(1) assms(2)] .
  show "hd (take n (decimal m)) = CHR ''0'' \<longrightarrow> take n (decimal m) = ''0''" using decimal_hd [OF assms(1)] assms(2) by simp
  show "\<forall>c\<in>set (drop n (decimal m)). isdigit c" using decimal_digits [of m] in_set_dropD by fast
qed

lemma show_digits_text:
  assumes "0 < m" "m < 10 ^ P" "0 < P" "\<bar>x\<bar> < 1000" "sg \<in> {[], ''-''}"
  shows "number_text (sg @ show_digits P x m) \<and> length (show_digits P x m) \<le> P + 6"
proof (cases "x < - 4 \<or> int P \<le> x")
  case True
  obtain f where f: "with_fraction (take 1 (decimal m)) (drop 1 (decimal m)) = take 1 (decimal m) @ f" "fraction_text f"
      "length f \<le> Suc (length (drop 1 (decimal m)))"
    using with_fraction_text [OF decimal_take(3) [OF assms(1) zero_less_one]] .
  have eq: "show_digits P x m = take 1 (decimal m) @ f @ show_exponent x"
    unfolding show_digits_cases(1) [OF True] f(1) by simp
  have "number_text (sg @ take 1 (decimal m) @ f @ show_exponent x)"
    by (rule number_textI [OF decimal_take(1,2) [OF assms(1) zero_less_one] f(2) show_exponent_text(1) [OF assms(4)] assms(5)])
  moreover have "length (take 1 (decimal m) @ f @ show_exponent x) \<le> P + 6"
    using f(3) decimal_length_le [OF assms(2,3)] show_exponent_text(2) [OF assms(4)] assms(3)
    unfolding length_append length_drop length_take by linarith
  ultimately show ?thesis by (simp only: eq simp_thms)
next
  case sci: False
  show ?thesis
  proof (cases "x < 0")
    case True
    have "\<forall>c\<in>set (replicate (nat (- x - 1)) (CHR ''0'') @ decimal m). isdigit c"
      using decimal_digits [of m] by (auto simp: isdigit_def)
    then obtain f where f: "with_fraction ''0'' (replicate (nat (- x - 1)) (CHR ''0'') @ decimal m) = ''0'' @ f"
        "fraction_text f" "length f \<le> Suc (length (replicate (nat (- x - 1)) (CHR ''0'') @ decimal m))"
      by (rule with_fraction_text)
    have zero: "digits_text ''0''" by (simp add: digits_text_def isdigit_def)
    have eq: "show_digits P x m = ''0'' @ f @ []" unfolding show_digits_cases(2) [OF sci True] f(1) by simp
    have "number_text (sg @ ''0'' @ f @ [])"
      by (rule number_textI [OF zero _ f(2) exponent_text_Nil assms(5)]) simp
    moreover have "nat (- x - 1) \<le> 3" using sci by (simp, linarith)
    then have "length (''0'' @ f @ []) \<le> P + 6"
      using f(3) decimal_length_le [OF assms(2,3)] unfolding length_append length_replicate by simp
    ultimately show ?thesis by (simp only: eq simp_thms)
  next
    case False
    have n: "0 < nat x + 1" by simp
    obtain f where f: "with_fraction (take (nat x + 1) (decimal m)) (drop (nat x + 1) (decimal m)) = take (nat x + 1) (decimal m) @ f"
        "fraction_text f" "length f \<le> Suc (length (drop (nat x + 1) (decimal m)))"
      using with_fraction_text [OF decimal_take(3) [OF assms(1) n]] .
    have eq: "show_digits P x m = take (nat x + 1) (decimal m) @ f @ []"
      unfolding show_digits_cases(3) [OF sci False] f(1) by simp
    have "number_text (sg @ take (nat x + 1) (decimal m) @ f @ [])"
      by (rule number_textI [OF decimal_take(1,2) [OF assms(1) n] f(2) exponent_text_Nil assms(5)])
    moreover have "length (take (nat x + 1) (decimal m)) + length (drop (nat x + 1) (decimal m)) = length (decimal m)"
      by (simp only: length_append [symmetric] append_take_drop_id)
    then have "length (take (nat x + 1) (decimal m) @ f @ []) \<le> P + 6"
      using f(3) decimal_length_le [OF assms(2,3)] unfolding length_append list.size by linarith
    ultimately show ?thesis by (simp only: eq simp_thms)
  qed
qed

text \<open>The values a double has.\<close>

definition wf_double :: "double \<Rightarrow> bool" where
  "wf_double x \<longleftrightarrow> (case x of Finite _ m e \<Rightarrow> m < 2 ^ 53 \<and> - 1074 \<le> e \<and> e \<le> 971 | _ \<Rightarrow> True)"

lemma power_two_less_ten: "(2 :: nat) ^ (3 * Suc k) < 10 ^ Suc k"
  unfolding power_mult by (rule power_strict_mono) simp_all

lemma double_exponent:
  assumes "0 < m" "wf_double (Finite neg m e)"
  shows "\<bar>decimal_exponent (m * 2 ^ nat e) (2 ^ nat (- e))\<bar> < 900"
proof (cases "(2 :: nat) ^ nat (- e) \<le> m * 2 ^ nat e")
  case True
  have "m * 2 ^ nat e < 2 ^ 53 * 2 ^ 971"
    using assms by (intro mult_less_le_imp_less power_increasing) (auto simp: wf_double_def)
  also have "\<dots> = 2 ^ 1024" unfolding power_add [symmetric] by (rule arg_cong) simp
  also have "\<dots> \<le> 2 ^ (3 * Suc 399)" by (rule power_increasing) simp_all
  also note power_two_less_ten
  finally have "m * 2 ^ nat e div 2 ^ nat (- e) < 10 ^ Suc 399" by (meson div_le_dividend le_less_trans)
  then have "length (decimal (m * 2 ^ nat e div 2 ^ nat (- e))) \<le> Suc 399" by (rule decimal_length_le) (rule zero_less_Suc)
  then show ?thesis using True decimal_nonempty [of "m * 2 ^ nat e div 2 ^ nat (- e)"]
    by (simp add: decimal_exponent_def)
next
  case False
  have "(2 :: nat) ^ nat (- e) \<le> 2 ^ 1074" using assms(2) by (intro power_increasing) (auto simp: wf_double_def)
  also have "\<dots> \<le> 2 ^ (3 * Suc 399)" by (rule power_increasing) simp_all
  also note power_two_less_ten
  finally have "(2 ^ nat (- e) - 1) div (m * 2 ^ nat e) < 10 ^ Suc 399"
    by (meson diff_le_self div_le_dividend le_less_trans)
  then have "length (decimal ((2 ^ nat (- e) - 1) div (m * 2 ^ nat e))) \<le> Suc 399" by (rule decimal_length_le) (rule zero_less_Suc)
  then show ?thesis using False by (simp add: decimal_exponent_def)
qed

lemma show_g_text:
  assumes "wf_double (Finite neg m e)" "0 < P"
  shows "number_text (show_g P neg m e)" "length (show_g P neg m e) \<le> P + 7"
proof -
  define sg where "sg = (if neg then ''-'' else [])"
  have sg: "sg \<in> {[], ''-''}" "length sg \<le> 1" by (simp_all add: sg_def)
  have "number_text (show_g P neg m e) \<and> length (show_g P neg m e) \<le> P + 7"
  proof (cases "m = 0")
    case True
    have "number_text (sg @ ''0'' @ [] @ [])"
      using sg(1) by (intro number_textI) (auto simp: digits_text_def isdigit_def fraction_text_def)
    then show ?thesis using True sg(2) by (simp add: show_g_def flip: sg_def)
  next
    case False
    obtain x k where s: "significant P (m * 2 ^ nat e) (2 ^ nat (- e)) = (x, k)" by fastforce
    have k: "10 ^ (P - 1) \<le> k" "k < 10 ^ P"
      "x = decimal_exponent (m * 2 ^ nat e) (2 ^ nat (- e)) \<or> x = decimal_exponent (m * 2 ^ nat e) (2 ^ nat (- e)) + 1"
      using significant_digits [OF _ _ assms(2) s] False by simp_all
    have x: "\<bar>x\<bar> < 1000" using k(3) double_exponent [OF _ assms(1)] False by auto
    have "0 < k" using k(1) by (rule order.strict_trans2 [rotated]) simp
    with show_digits_text [OF _ k(2) assms(2) x sg(1)] show ?thesis
      using False sg(2) s by (simp add: show_g_def flip: sg_def)
  qed
  then show "number_text (show_g P neg m e)" "length (show_g P neg m e) \<le> P + 7" by simp_all
qed

definition wf_int :: "int \<Rightarrow> bool" where
  "wf_int k \<longleftrightarrow> INT_MIN \<le> k \<and> k \<le> INT_MAX"

lemma show_int_text:
  assumes "wf_int k"
  shows "number_text (show_int k)" "length (show_int k) \<le> 11"
proof -
  have t: "number_text (sg @ decimal n @ [] @ [])" if "sg \<in> {[], ''-''}" for sg n
    using decimal_text [of n] that by (intro number_textI) (auto simp: fraction_text_def)
  show "number_text (show_int k)" using t [of "''-''" "nat (- k)"] t [of "[]" "nat k"] by (simp add: show_int_def)
  have "length (decimal n) \<le> 10" if "n \<le> 2147483648" for n :: nat
    using that by (intro decimal_length_le) simp_all
  from this [of "nat (- k)"] this [of "nat k"] show "length (show_int k) \<le> 11"
    using assms by (simp add: show_int_def wf_int_def INT_MIN_def INT_MAX_def) linarith
qed

text \<open>A number is printed as a number of JSON, and a value that is no number as \<open>null\<close>; both fit the buffer.\<close>

lemma number_chars_text:
  assumes "wf_int vi" "wf_double d"
  shows "number_text (number_chars vi d) \<or> number_chars vi d = ''null''" "length (number_chars vi d) \<le> 24"
proof -
  have "(number_text (number_chars vi d) \<or> number_chars vi d = ''null'') \<and> length (number_chars vi d) \<le> 24"
  proof (cases d)
    case (Finite neg m e)
    have g: "number_text (show_g P neg m e)" "length (show_g P neg m e) \<le> 24" if "0 < P" "P \<le> 17" for P
      using show_g_text [OF assms(2) [unfolded Finite] that(1)] that(2) by simp_all
    show ?thesis
      using show_int_text [OF assms(1)] g [of 15] g [of 17]
      by (simp add: Finite number_chars_def Let_def split: prod.split)
  qed (simp_all add: number_chars_def)
  then show "number_text (number_chars vi d) \<or> number_chars vi d = ''null''" "length (number_chars vi d) \<le> 24" by simp_all
qed

section \<open>Integers are printed exactly\<close>

text \<open>The double of an integer below \<open>2 ^ 53\<close> is exactly it.\<close>

lemma double_of_small_nat:
  assumes "0 < n" "n < 2 ^ 53"
  shows "double_of_ratio neg n 1 = Finite neg (n * 2 ^ (53 - bitlen n)) (int (bitlen n) - 53)"
proof -
  have b: "bitlen n \<le> 53" using bitlen_le [of n 53] assms(2) by simp
  have b0: "0 < bitlen n" using assms(1) by (subst bitlen.simps) simp
  have one: "bitlen 1 = 1" by (subst bitlen.simps) simp
  have low: "2 ^ (bitlen n - 1) \<le> n" using bitlen_lower [OF assms(1)] .
  have "2 ^ 53 = (2 :: nat) ^ (bitlen n - 1) * 2 ^ (54 - bitlen n)" using b b0 by (simp flip: power_add)
  also have "\<dots> \<le> n * 2 ^ (54 - bitlen n)" using low by simp
  finally have big: "2 ^ 53 \<le> n * 2 ^ (54 - bitlen n)" .
  have "n * 2 ^ (53 - bitlen n) < 2 ^ bitlen n * 2 ^ (53 - bitlen n)" using bitlen_bound [of n] by simp
  also have "\<dots> = 2 ^ 53" using b by (simp flip: power_add)
  finally have small: "n * 2 ^ (53 - bitlen n) < 2 ^ 53" .
  have s54: "scaled n 1 (int (bitlen n) - 54) = (n * 2 ^ (54 - bitlen n), 1)"
    and s53: "scaled n 1 (int (bitlen n) - 53) = (n * 2 ^ (53 - bitlen n), 1)"
    using b by (simp_all add: scaled_def nat_diff_distrib)
  have e: "int (bitlen n) - int (bitlen 1) - 53 = int (bitlen n) - 54" "int (bitlen n) - 54 + 1 = int (bitlen n) - 53"
    "max (- 1074) (int (bitlen n) - 53) = int (bitlen n) - 53" "\<not> int (bitlen n) - 53 > 971"
    using b one by auto
  have r: "rne p 1 = p" for p by (simp add: rne_def)
  have "double_of_ratio neg n 1 =
      (let m = n * 2 ^ (53 - bitlen n); (m, e) = (if m = 2 ^ 53 then (2 ^ 52, int (bitlen n) - 53 + 1) else (m, int (bitlen n) - 53))
       in if e > 971 then Infinity neg else Finite neg m e)"
    unfolding double_of_ratio_def Let_def e s54 prod.case div_by_1 if_P [OF big] s53 r
    using assms(1) by simp
  also have "\<dots> = Finite neg (n * 2 ^ (53 - bitlen n)) (int (bitlen n) - 53)"
    unfolding Let_def if_not_P [OF less_imp_neq [OF small]] prod.case if_not_P [OF e(4)] by (rule HOL.refl)
  finally show ?thesis .
qed

definition double_of_int :: "int \<Rightarrow> double" where
  "double_of_int k = double_of_ratio (k < 0) (nat \<bar>k\<bar>) 1"

lemma double_of_int_eq:
  assumes "wf_int k"
  shows "double_of_int k = Finite (k < 0) 0 0 \<and> k = 0 \<or>
    (\<exists>j\<le>53. double_of_int k = Finite (k < 0) (nat \<bar>k\<bar> * 2 ^ j) (- int j) \<and> nat \<bar>k\<bar> * 2 ^ j < 2 ^ 53)"
proof (cases "k = 0")
  case False
  define n where "n = nat \<bar>k\<bar>"
  have n: "0 < n" "n < 2 ^ 53" using False assms by (auto simp: n_def wf_int_def INT_MIN_def INT_MAX_def)
  have b: "bitlen n \<le> 53" using bitlen_le [of n 53] n(2) by simp
  have "n * 2 ^ (53 - bitlen n) < 2 ^ bitlen n * 2 ^ (53 - bitlen n)" using bitlen_bound [of n] by simp
  also have "\<dots> = 2 ^ 53" using b by (simp flip: power_add)
  finally have "n * 2 ^ (53 - bitlen n) < 2 ^ 53" .
  moreover have "double_of_int k = Finite (k < 0) (n * 2 ^ (53 - bitlen n)) (- int (53 - bitlen n))"
    unfolding double_of_int_def n_def [symmetric] double_of_small_nat [OF n] using b by (simp add: of_nat_diff)
  ultimately show ?thesis by (intro disjI2 exI [of _ "53 - bitlen n"]) (simp add: n_def)
qed (simp add: double_of_int_def double_of_ratio_def)

lemma double_of_int_facts:
  assumes "wf_int k"
  shows "wf_double (double_of_int k)" "d_equals_int (double_of_int k) k" "saturated_int (double_of_int k) = k"
proof -
  have "wf_double (double_of_int k) \<and> d_equals_int (double_of_int k) k \<and> d_trunc (double_of_int k) = Some k"
    using double_of_int_eq [OF assms]
  proof (elim disjE exE conjE)
    fix j
    assume j: "j \<le> 53" "double_of_int k = Finite (k < 0) (nat \<bar>k\<bar> * 2 ^ j) (- int j)" "nat \<bar>k\<bar> * 2 ^ j < 2 ^ 53"
    have "(if 0 \<le> - int j then nat \<bar>k\<bar> * 2 ^ j * 2 ^ nat (- int j) else nat \<bar>k\<bar> * 2 ^ j div 2 ^ nat (int j)) = nat \<bar>k\<bar>"
      by simp
    moreover have "wf_double (double_of_int k)" unfolding wf_double_def j(2) using j(1,3) by simp
    ultimately show ?thesis
      unfolding j(2) by (simp add: d_equals_int_def d_units_def d_trunc_def Let_def)
  qed (simp add: wf_double_def d_equals_int_def d_units_def d_trunc_def)
  moreover obtain neg m e where "double_of_int k = Finite neg m e" using double_of_int_eq [OF assms] by blast
  ultimately show "wf_double (double_of_int k)" "d_equals_int (double_of_int k) k" "saturated_int (double_of_int k) = k"
    using assms by (auto simp: saturated_int_def wf_int_def Let_def)
qed

lemma number_chars_int: "wf_int k \<Longrightarrow> number_chars k (double_of_int k) = show_int k"
  using double_of_int_eq [of k] double_of_int_facts(2) [of k] by (auto simp: number_chars_def)

lemma strtod_show_int: "fst (strtod (show_int k)) = double_of_int k"
proof -
  have s: "strip_sign (decimal n) = (False, decimal n)" "strip_sign (CHR ''-'' # decimal n) = (True, decimal n)" for n
    using strip_sign_text [OF decimal_text(1) [of n], of "[]" "[]"] strip_sign_text [OF decimal_text(1) [of n], of "''-''" "[]"]
    by simp_all
  have d: "takeWhile isdigit (decimal n) = decimal n" "dropWhile isdigit (decimal n) = []" for n
    using digits_stop [OF decimal_text(1), of "[]"] by simp_all
  show ?thesis
    by (simp add: show_int_def strtod_def s d decimal_nonempty decimal_value strtod_exponent_def double_of_int_def)
qed

end
