(* ===== verification/Cjson_Print.thy ===== *)
theory Cjson_Print
  imports Cjson_Numbers
begin

text \<open>
  The printer of \<^verbatim>\<open>src/Libs/cJSON/cJSON.c\<close>: the growing output buffer and the rendering of items into it. The
  buffer is a block of characters of which some are not yet initialised; every write and read is checked
  against the block. A pointer into the buffer is the offset, so the functions that return one return whether they do.
\<close>

section \<open>The output buffer\<close>

text \<open>Which allocations succeed, and whether there is a function to reallocate.\<close>

record hooks =
  hk_realloc :: bool
  hk_alloc :: "nat \<Rightarrow> bool"

record printbuffer =
  pb_buffer :: "char option list option"
  pb_length :: nat
  pb_offset :: nat
  pb_depth :: nat
  pb_noalloc :: bool
  pb_format :: bool
  pb_hooks :: hooks

type_synonym printed = "(bool \<times> printbuffer) res"

definition int_max :: nat where "int_max = 2147483647"

definition grown :: "char option list \<Rightarrow> nat \<Rightarrow> nat \<Rightarrow> char option list" where
  "grown B kept newsize = take newsize (take kept B @ replicate newsize None)"

text \<open>The new block of \<^verbatim>\<open>ensure\<close>: a reallocation keeps all of the old one, the copy by hand \<open>offset + 1\<close> characters.\<close>

definition ensure_grow :: "char option list \<Rightarrow> nat \<Rightarrow> printbuffer \<Rightarrow> printed" where
  "ensure_grow B newsize p =
     (if \<not> hk_alloc (pb_hooks p) newsize then Inr (False, p\<lparr>pb_length := 0, pb_buffer := None\<rparr>)
      else if hk_realloc (pb_hooks p)
      then Inr (True, p\<lparr>pb_length := newsize, pb_buffer := Some (grown B (length B) newsize)\<rparr>)
      else if length B < pb_offset p + 1 then Inl OutOfBounds
      else Inr (True, p\<lparr>pb_length := newsize, pb_buffer := Some (grown B (pb_offset p + 1) newsize)\<rparr>))"

definition ensure :: "nat \<Rightarrow> printbuffer \<Rightarrow> printed" where
  "ensure needed p =
     (case pb_buffer p of
        None \<Rightarrow> Inr (False, p)
      | Some B \<Rightarrow>
          if 0 < pb_length p \<and> pb_length p \<le> pb_offset p then Inr (False, p)
          else if int_max < needed then Inr (False, p)
          else
            (let needed = needed + pb_offset p + 1
             in if needed \<le> pb_length p then Inr (True, p)
                else if pb_noalloc p then Inr (False, p)
                else if int_max div 2 < needed
                then if needed \<le> int_max then ensure_grow B int_max p else Inr (False, p)
                else ensure_grow B (needed * 2) p))"

text \<open>Characters written at the offset, or after it.\<close>

definition put_at :: "nat \<Rightarrow> string \<Rightarrow> printbuffer \<Rightarrow> printed" where
  "put_at i t p =
     (case pb_buffer p of
        None \<Rightarrow> Inl NullDeref
      | Some B \<Rightarrow>
          (let pos = pb_offset p + i
           in if length B < pos + length t then Inl OutOfBounds
              else Inr (True, p\<lparr>pb_buffer := Some (take pos B @ map Some t @ drop (pos + length t) B)\<rparr>)))"

definition put :: "string \<Rightarrow> printbuffer \<Rightarrow> printed" where
  "put = put_at 0"

definition put_string :: "string \<Rightarrow> printbuffer \<Rightarrow> printed" where
  "put_string t = put (t @ [CHR 0x00])"

definition advance :: "nat \<Rightarrow> printbuffer \<Rightarrow> printbuffer" where
  "advance n p = p\<lparr>pb_offset := pb_offset p + n\<rparr>"

definition pbind :: "printed \<Rightarrow> (printbuffer \<Rightarrow> printed) \<Rightarrow> printed" where
  "pbind r f = (case r of Inl e \<Rightarrow> Inl e | Inr (ok, p) \<Rightarrow> if ok then f p else Inr (False, p))"

text \<open>\<^verbatim>\<open>strlen\<close> of a block.\<close>

fun block_strlen :: "char option list \<Rightarrow> nat res" where
  "block_strlen [] = Inl OutOfBounds"
| "block_strlen (None # B) = Inl UseUninit"
| "block_strlen (Some c # B) =
     (if c = CHR 0x00 then Inr 0 else case block_strlen B of Inl e \<Rightarrow> Inl e | Inr n \<Rightarrow> Inr (Suc n))"

definition update_offset :: "printbuffer \<Rightarrow> printed" where
  "update_offset p =
     (case pb_buffer p of
        None \<Rightarrow> Inr (True, p)
      | Some B \<Rightarrow> (case block_strlen (drop (pb_offset p) B) of Inl e \<Rightarrow> Inl e | Inr n \<Rightarrow> Inr (True, advance n p)))"

section \<open>Numbers, strings, literals\<close>

text \<open>A number buffer of 26 characters.\<close>

definition print_number :: "int \<Rightarrow> double \<Rightarrow> printbuffer \<Rightarrow> printed" where
  "print_number vi d p =
     (let number_buffer = number_chars vi d
      in if 26 < length number_buffer + 1 then Inl OutOfBounds
         else pbind (ensure (length number_buffer + 1) p) (\<lambda>p. pbind (put_string number_buffer p)
           (\<lambda>p. Inr (True, advance (length number_buffer) p))))"

definition escape_extra :: "char \<Rightarrow> nat" where
  "escape_extra c =
     (if c \<in> {CHR 0x22, CHR 0x5C, CHR 0x08, CHR 0x0C, CHR 0x0A, CHR 0x0D, CHR 0x09} then 1
      else if of_char c < (32 :: nat) then 5 else 0)"

definition hex_char :: "nat \<Rightarrow> char" where
  "hex_char n = (if n < 10 then char_of (48 + n) else char_of (87 + n))"

text \<open>One round of the copying loop; \<open>%04x\<close> of a character below 32.\<close>

definition escape_one :: "char \<Rightarrow> string" where
  "escape_one c =
     (if 31 < (of_char c :: nat) \<and> c \<noteq> CHR 0x22 \<and> c \<noteq> CHR 0x5C then [c]
      else CHR 0x5C #
        (if c = CHR 0x5C then [CHR 0x5C]
         else if c = CHR 0x22 then [CHR 0x22]
         else if c = CHR 0x08 then ''b''
         else if c = CHR 0x0C then ''f''
         else if c = CHR 0x0A then ''n''
         else if c = CHR 0x0D then ''r''
         else if c = CHR 0x09 then ''t''
         else ''u00'' @ [hex_char (of_char c div 16), hex_char (of_char c mod 16)]))"

definition print_string_ptr :: "string option \<Rightarrow> printbuffer \<Rightarrow> printed" where
  "print_string_ptr input p =
     (case input of
        None \<Rightarrow> pbind (ensure 3 p) (put_string [CHR 0x22, CHR 0x22])
      | Some s \<Rightarrow>
          (let s = until_nul s;
               escape_characters = sum_list (map escape_extra s);
               output_length = length s + escape_characters
           in pbind (ensure (output_length + 3) p)
                (if escape_characters = 0 then put (CHR 0x22 # s @ [CHR 0x22, CHR 0x00])
                 else (\<lambda>p. pbind (put (CHR 0x22 # concat (map escape_one s)) p)
                        (put_at (output_length + 1) [CHR 0x22, CHR 0x00])))))"

definition print_literal :: "string \<Rightarrow> printbuffer \<Rightarrow> printed" where
  "print_literal w p = pbind (ensure (length w + 1) p) (put_string w)"

definition print_raw :: "string option \<Rightarrow> printbuffer \<Rightarrow> printed" where
  "print_raw vs p =
     (case vs of
        None \<Rightarrow> Inr (False, p)
      | Some s \<Rightarrow> pbind (ensure (length (until_nul s) + 1) p) (put_string (until_nul s)))"

section \<open>Arrays and objects\<close>

text \<open>The loops over elements and members are arguments; they are tied to the children below.\<close>

definition deepen :: "nat \<Rightarrow> printbuffer \<Rightarrow> printed" where
  "deepen n p = Inr (True, (advance n p)\<lparr>pb_depth := pb_depth p + 1\<rparr>)"

definition leave :: "printbuffer \<Rightarrow> printed" where
  "leave p = Inr (True, p\<lparr>pb_depth := pb_depth p - 1\<rparr>)"

definition tabs :: "nat \<Rightarrow> string" where
  "tabs n = replicate n (CHR 0x09)"

definition print_array :: "(printbuffer \<Rightarrow> printed) \<Rightarrow> printbuffer \<Rightarrow> printed" where
  "print_array elements p =
     pbind (ensure 1 p) (\<lambda>p. pbind (put ''['' p) (\<lambda>p. pbind (deepen 1 p) (\<lambda>p. pbind (elements p)
       (\<lambda>p. pbind (ensure 2 p) (\<lambda>p. pbind (put_string '']'' p) leave)))))"

text \<open>The separator of elements, written only when there is a next one.\<close>

definition print_comma :: "bool \<Rightarrow> printbuffer \<Rightarrow> printed" where
  "print_comma has_next p =
     (if has_next
      then
        (let w = (if pb_format p then '', '' else '','')
         in pbind (ensure (length w + 1) p) (\<lambda>p. pbind (put_string w p) (\<lambda>p. Inr (True, advance (length w) p))))
      else Inr (True, p))"

definition print_indent :: "printbuffer \<Rightarrow> printed" where
  "print_indent p =
     (if pb_format p
      then pbind (ensure (pb_depth p) p) (\<lambda>p. pbind (put (tabs (pb_depth p)) p) (\<lambda>p. Inr (True, advance (pb_depth p) p)))
      else Inr (True, p))"

definition print_key :: "string option \<Rightarrow> printbuffer \<Rightarrow> printed" where
  "print_key k p =
     pbind (print_indent p) (\<lambda>p. pbind (print_string_ptr k p) (\<lambda>p. pbind (update_offset p)
       (\<lambda>p. let w = (if pb_format p then [CHR '':'', CHR 0x09] else '':'')
            in pbind (ensure (length w) p) (\<lambda>p. pbind (put w p) (\<lambda>p. Inr (True, advance (length w) p))))))"

definition print_member_end :: "bool \<Rightarrow> printbuffer \<Rightarrow> printed" where
  "print_member_end has_next p =
     (let w = (if has_next then '','' else []) @ (if pb_format p then [CHR 0x0A] else [])
      in pbind (ensure (length w + 1) p) (\<lambda>p. pbind (put_string w p) (\<lambda>p. Inr (True, advance (length w) p))))"

definition print_object :: "(printbuffer \<Rightarrow> printed) \<Rightarrow> printbuffer \<Rightarrow> printed" where
  "print_object members p =
     (let w = CHR 0x7B # (if pb_format p then [CHR 0x0A] else [])
      in pbind (ensure (length w + 1) p) (\<lambda>p. pbind (put w p) (\<lambda>p. pbind (deepen (length w) p) (\<lambda>p. pbind (members p)
        (\<lambda>p. pbind (ensure (if pb_format p then pb_depth p + 1 else 2) p)
          (\<lambda>p. pbind (put_string ((if pb_format p then tabs (pb_depth p - 1) else []) @ [CHR 0x7D]) p) leave))))))"

section \<open>Values\<close>

definition print_type :: "i32 \<Rightarrow> string option \<Rightarrow> int \<Rightarrow> double \<Rightarrow> (printbuffer \<Rightarrow> printed) \<Rightarrow> (printbuffer \<Rightarrow> printed) \<Rightarrow>
    printbuffer \<Rightarrow> printed" where
  "print_type ty vs vi d elements members p =
     (if ty = cJSON_NULL then print_literal ''null'' p
      else if ty = cJSON_False then print_literal ''false'' p
      else if ty = cJSON_True then print_literal ''true'' p
      else if ty = cJSON_Number then print_number vi d p
      else if ty = cJSON_Raw then print_raw vs p
      else if ty = cJSON_String then print_string_ptr vs p
      else if ty = cJSON_Array then print_array elements p
      else if ty = cJSON_Object then print_object members p
      else Inr (False, p))"

fun print_value :: "cjson \<Rightarrow> printbuffer \<Rightarrow> printed" and print_elements :: "cjson list \<Rightarrow> printbuffer \<Rightarrow> printed" and
    print_members :: "cjson list \<Rightarrow> printbuffer \<Rightarrow> printed" where
  "print_value (Cjson ty cs vs vi d k) p =
     print_type (ty AND 0xFF) vs vi d (\<lambda>p. print_elements cs p) (\<lambda>p. print_members cs p) p"
| "print_elements [] p = Inr (True, p)"
| "print_elements (c # cs) p =
     pbind (print_value c p) (\<lambda>p. pbind (update_offset p) (\<lambda>p. pbind (print_comma (cs \<noteq> []) p) (\<lambda>p. print_elements cs p)))"
| "print_members [] p = Inr (True, p)"
| "print_members (c # cs) p =
     pbind (print_key (key c) p) (\<lambda>p. pbind (print_value c p) (\<lambda>p. pbind (update_offset p)
       (\<lambda>p. pbind (print_member_end (cs \<noteq> []) p) (\<lambda>p. print_members cs p))))"

section \<open>Printing to text\<close>

definition new_buffer :: "hooks \<Rightarrow> bool \<Rightarrow> char option list \<Rightarrow> bool \<Rightarrow> printbuffer" where
  "new_buffer H noalloc B fmt =
     \<lparr>pb_buffer = Some B, pb_length = length B, pb_offset = 0, pb_depth = 0, pb_noalloc = noalloc, pb_format = fmt, pb_hooks = H\<rparr>"

text \<open>The block \<^verbatim>\<open>print\<close> returns, if any: the first \<open>offset + 1\<close> characters.\<close>

definition print_finish :: "hooks \<Rightarrow> printbuffer \<Rightarrow> char option list option res" where
  "print_finish H p =
     (case pb_buffer p of
        None \<Rightarrow> Inr None
      | Some B \<Rightarrow>
          if \<not> hk_alloc H (pb_offset p + 1) then Inr None
          else if hk_realloc H then Inr (Some (grown B (length B) (pb_offset p + 1)))
          else if length B < min (pb_length p) (pb_offset p + 1) then Inl OutOfBounds
          else Inr (Some ((grown B (min (pb_length p) (pb_offset p + 1)) (pb_offset p + 1)) [pb_offset p := Some (CHR 0x00)])))"

definition print_text :: "hooks \<Rightarrow> bool \<Rightarrow> cjson \<Rightarrow> char option list option res" where
  "print_text H format item =
     (if \<not> hk_alloc H 256 then Inr None
      else case pbind (print_value item (new_buffer H False (replicate 256 None) format)) update_offset of
        Inl e \<Rightarrow> Inl e
      | Inr (ok, p) \<Rightarrow> if ok then print_finish H p else Inr None)"

definition cJSON_Print :: "hooks \<Rightarrow> cjson \<Rightarrow> char option list option res" where
  "cJSON_Print H item = print_text H True item"

definition cJSON_PrintUnformatted :: "hooks \<Rightarrow> cjson \<Rightarrow> char option list option res" where
  "cJSON_PrintUnformatted H item = print_text H False item"

definition cJSON_PrintBuffered :: "hooks \<Rightarrow> cjson \<Rightarrow> i32 \<Rightarrow> bool \<Rightarrow> char option list option res" where
  "cJSON_PrintBuffered H item prebuffer fmt =
     (if sint prebuffer < 0 then Inr None
      else if \<not> hk_alloc H (nat (sint prebuffer)) then Inr None
      else case print_value item (new_buffer H False (replicate (nat (sint prebuffer)) None) fmt) of
        Inl e \<Rightarrow> Inl e
      | Inr (ok, p) \<Rightarrow> Inr (if ok then pb_buffer p else None))"

text \<open>The buffer is the caller's: its contents are returned too.\<close>

definition cJSON_PrintPreallocated :: "hooks \<Rightarrow> cjson \<Rightarrow> char option list option \<Rightarrow> i32 \<Rightarrow> bool \<Rightarrow> (bool \<times> char option list option) res" where
  "cJSON_PrintPreallocated H item buffer len format =
     (case buffer of
        None \<Rightarrow> Inr (False, None)
      | Some B \<Rightarrow>
          if sint len < 0 then Inr (False, Some B)
          else case print_value item ((new_buffer H True B format)\<lparr>pb_length := nat (sint len)\<rparr>) of
            Inl e \<Rightarrow> Inl e
          | Inr (ok, p) \<Rightarrow> Inr (ok, pb_buffer p))"

end
