(* ===== verification/Cjson_Print_Text.thy ===== *)
theory Cjson_Print_Text
  imports Cjson_Print
begin

text \<open>
  The text of an item as a function, and the printer's agreement with it: whatever the buffer it starts from, the
  printer stays inside its blocks, reads only what it has written, and when it reports success the buffer
  holds the text. It succeeds whenever the item has a text, the allocations succeed and two characters more than the text fit.
\<close>

section \<open>The text of an item\<close>

definition quoted :: "string option \<Rightarrow> string" where
  "quoted s = CHR 0x22 # (case s of None \<Rightarrow> [] | Some s \<Rightarrow> concat (map escape_one (until_nul s))) @ [CHR 0x22]"

definition element_sep :: "bool \<Rightarrow> string" where
  "element_sep fmt = (if fmt then '', '' else '','')"

definition newline :: "bool \<Rightarrow> string" where
  "newline fmt = (if fmt then [CHR 0x0A] else [])"

definition indent :: "bool \<Rightarrow> nat \<Rightarrow> string" where
  "indent fmt d = (if fmt then tabs d else [])"

definition key_text :: "bool \<Rightarrow> nat \<Rightarrow> string option \<Rightarrow> string" where
  "key_text fmt d k = indent fmt d @ quoted k @ CHR '':'' # (if fmt then [CHR 0x09] else [])"

definition join2 :: "string option \<Rightarrow> string \<Rightarrow> string option \<Rightarrow> string option" where
  "join2 a w b = (case (a, b) of (Some t, Some u) \<Rightarrow> Some (t @ w @ u) | _ \<Rightarrow> None)"

definition type_text :: "bool \<Rightarrow> nat \<Rightarrow> i32 \<Rightarrow> string option \<Rightarrow> string \<Rightarrow> string option \<Rightarrow> string option \<Rightarrow> string option" where
  "type_text fmt d ty vs num elements members =
     (if ty = cJSON_NULL then Some ''null''
      else if ty = cJSON_False then Some ''false''
      else if ty = cJSON_True then Some ''true''
      else if ty = cJSON_Number then Some num
      else if ty = cJSON_Raw then map_option until_nul vs
      else if ty = cJSON_String then Some (quoted vs)
      else if ty = cJSON_Array then map_option (\<lambda>t. ''['' @ t @ '']'') elements
      else if ty = cJSON_Object
      then map_option (\<lambda>t. CHR 0x7B # newline fmt @ t @ indent fmt d @ [CHR 0x7D]) members
      else None)"

fun item_text :: "bool \<Rightarrow> nat \<Rightarrow> cjson \<Rightarrow> string option" and element_texts :: "bool \<Rightarrow> nat \<Rightarrow> cjson list \<Rightarrow> string option" and
    member_texts :: "bool \<Rightarrow> nat \<Rightarrow> cjson list \<Rightarrow> string option" where
  "item_text fmt d (Cjson ty cs vs vi vd k) =
     type_text fmt d (ty AND 0xFF) vs (number_chars vi vd) (element_texts fmt (Suc d) cs) (member_texts fmt (Suc d) cs)"
| "element_texts fmt d [] = Some []"
| "element_texts fmt d (c # cs) = join2 (item_text fmt d c) (if cs \<noteq> [] then element_sep fmt else []) (element_texts fmt d cs)"
| "member_texts fmt d [] = Some []"
| "member_texts fmt d (c # cs) =
     join2 (map_option (\<lambda>t. key_text fmt d (key c) @ t) (item_text fmt d c)) ((if cs \<noteq> [] then '','' else []) @ newline fmt)
       (member_texts fmt d cs)"

text \<open>The items the printer is for: the numbers are values of their C types.\<close>

fun wf_item :: "cjson \<Rightarrow> bool" where
  "wf_item (Cjson ty cs vs vi vd k) \<longleftrightarrow> wf_int vi \<and> wf_double vd \<and> (\<forall>c\<in>set cs. wf_item c)"

section \<open>No text has a NUL\<close>

lemma until_nul_no_nul: "CHR 0x00 \<notin> set (until_nul s)"
  by (auto simp: until_nul_def dest: set_takeWhileD)

lemma escape_one_length: "length (escape_one c) = 1 + escape_extra c"
proof -
  consider "c \<in> {CHR 0x22, CHR 0x5C, CHR 0x08, CHR 0x0C, CHR 0x0A, CHR 0x0D, CHR 0x09}"
    | "c \<notin> {CHR 0x22, CHR 0x5C, CHR 0x08, CHR 0x0C, CHR 0x0A, CHR 0x0D, CHR 0x09}" by blast
  then show ?thesis by cases (auto simp: escape_one_def escape_extra_def)
qed

lemma escape_one_plain: "escape_extra c = 0 \<Longrightarrow> escape_one c = [c]"
  by (auto simp: escape_one_def escape_extra_def split: if_splits)

lemma hex_char_not_nul: "n < 16 \<Longrightarrow> hex_char n \<noteq> CHR 0x00"
proof -
  assume "n < 16"
  then have "(of_char (hex_char n) :: nat) \<noteq> of_char (CHR 0x00)"
    by (auto simp: hex_char_def of_char_of)
  then show ?thesis by metis
qed

lemma escape_one_no_nul: "c \<noteq> CHR 0x00 \<Longrightarrow> CHR 0x00 \<notin> set (escape_one c)"
proof -
  assume c: "c \<noteq> CHR 0x00"
  have "hex_char (of_char c mod 16) \<noteq> CHR 0x00" by (rule hex_char_not_nul) simp
  moreover have "hex_char (of_char c div 16) \<noteq> CHR 0x00"
    using nat_of_char_less_256 [of c] by (intro hex_char_not_nul) (simp add: less_mult_imp_div_less)
  ultimately show ?thesis using c by (auto simp: escape_one_def)
qed

lemma escapes_no_nul: "CHR 0x00 \<notin> set s \<Longrightarrow> CHR 0x00 \<notin> set (concat (map escape_one s))"
proof (induction s)
  case (Cons c s)
  then show ?case using escape_one_no_nul [of c] by auto
qed simp

lemma quoted_no_nul: "CHR 0x00 \<notin> set (quoted s)"
  using escapes_no_nul [OF until_nul_no_nul] by (simp add: quoted_def split: option.split del: set_concat)

lemma concat_escape: "sum_list (map escape_extra s) = 0 \<Longrightarrow> concat (map escape_one s) = s"
  by (induction s) (simp_all add: escape_one_plain)

lemma concat_escape_length: "length (concat (map escape_one s)) = length s + sum_list (map escape_extra s)"
  by (induction s) (simp_all add: escape_one_length)

lemma number_chars_no_nul:
  assumes "wf_int vi" "wf_double d"
  shows "CHR 0x00 \<notin> set (number_chars vi d)"
proof -
  have digits: "digits_text ds \<Longrightarrow> CHR 0x00 \<notin> set ds" for ds by (auto simp: digits_text_def isdigit_def)
  have "number_text t \<Longrightarrow> CHR 0x00 \<notin> set t" for t
    using digits by (auto simp: number_text_def fraction_text_def exponent_text_def)
  then show ?thesis using number_chars_text(1) [OF assms] by auto
qed

lemma join2_Some: "join2 a w b = Some t \<longleftrightarrow> (\<exists>u v. a = Some u \<and> b = Some v \<and> t = u @ w @ v)"
  by (auto simp: join2_def split: option.split)

lemma type_text_no_nul:
  assumes "type_text fmt d ty vs num es ms = Some t" "CHR 0x00 \<notin> set num"
    "\<And>t. es = Some t \<Longrightarrow> CHR 0x00 \<notin> set t" "\<And>t. ms = Some t \<Longrightarrow> CHR 0x00 \<notin> set t"
  shows "CHR 0x00 \<notin> set t"
  using assms quoted_no_nul until_nul_no_nul
  by (auto simp: type_text_def newline_def indent_def tabs_def split: if_splits)

lemma key_text_no_nul: "CHR 0x00 \<notin> set (key_text fmt d k)"
  using quoted_no_nul by (auto simp: key_text_def indent_def tabs_def)

lemma texts_no_nul:
  "item_text fmt d item = Some t \<Longrightarrow> wf_item item \<Longrightarrow> CHR 0x00 \<notin> set t"
  "element_texts fmt d cs = Some t \<Longrightarrow> \<forall>c\<in>set cs. wf_item c \<Longrightarrow> CHR 0x00 \<notin> set t"
  "member_texts fmt d cs = Some t \<Longrightarrow> \<forall>c\<in>set cs. wf_item c \<Longrightarrow> CHR 0x00 \<notin> set t"
proof (induction fmt d item and fmt d cs and fmt d cs arbitrary: t and t and t
    rule: item_text_element_texts_member_texts.induct)
  case (1 fmt d ty cs vs vi vd k)
  then show ?case using type_text_no_nul [OF 1(3) [unfolded item_text.simps]] number_chars_no_nul by simp
next
  case (3 fmt d c cs)
  then show ?case by (auto simp: join2_Some element_sep_def split: if_splits)
next
  case (5 fmt d c cs)
  then show ?case using key_text_no_nul by (auto simp: join2_Some newline_def split: if_splits)
qed simp_all

section \<open>Buffers with text in them\<close>

definition filled :: "printbuffer \<Rightarrow> nat \<Rightarrow> nat \<Rightarrow> string \<Rightarrow> bool" where
  "filled p d pos s \<longleftrightarrow> (\<exists>B. pb_buffer p = Some B \<and> pb_offset p = pos \<and> pb_depth p = d \<and>
     take (length s) B = map Some s \<and> length s \<le> pb_length p \<and> pb_length p \<le> length B \<and> pb_length p \<le> int_max)"

text \<open>The offset is after the text; only an empty buffer may have no room for another character.\<close>

definition holds :: "printbuffer \<Rightarrow> nat \<Rightarrow> string \<Rightarrow> bool" where
  "holds p d s \<longleftrightarrow> filled p d (length s) s \<and>
     (length s < pb_length p \<or> pb_length p = 0 \<and> (hk_realloc (pb_hooks p) \<or> pb_noalloc p))"

text \<open>The text and its NUL are there, with a character to spare, and the offset is somewhere before the NUL.\<close>

definition finished :: "printbuffer \<Rightarrow> nat \<Rightarrow> string \<Rightarrow> string \<Rightarrow> bool" where
  "finished p d s t \<longleftrightarrow> (\<exists>pos. length s \<le> pos \<and> pos \<le> length s + length t \<and> filled p d pos (s @ t @ [CHR 0x00])) \<and>
     length s + length t + 2 \<le> pb_length p"

definition keeps :: "printbuffer \<Rightarrow> printbuffer \<Rightarrow> bool" where
  "keeps p p' \<longleftrightarrow> pb_noalloc p' = pb_noalloc p \<and> pb_format p' = pb_format p \<and> pb_hooks p' = pb_hooks p \<and>
     pb_length p \<le> pb_length p' \<and> (pb_noalloc p \<longrightarrow> pb_length p' = pb_length p)"

definition room :: "printbuffer \<Rightarrow> nat \<Rightarrow> bool" where
  "room p n \<longleftrightarrow> n \<le> pb_length p \<or> \<not> pb_noalloc p \<and> n \<le> int_max"

definition allocs :: "printbuffer \<Rightarrow> bool" where
  "allocs p \<longleftrightarrow> pb_noalloc p \<or> (\<forall>n. hk_alloc (pb_hooks p) n)"

text \<open>No fault; success means \<open>Q\<close>, and comes when the allocations do and \<open>C\<close> is met.\<close>

definition step :: "printbuffer \<Rightarrow> bool \<Rightarrow> (printbuffer \<Rightarrow> bool) \<Rightarrow> printed \<Rightarrow> bool" where
  "step p C Q r \<longleftrightarrow> (\<exists>ok p'. r = Inr (ok, p') \<and> (ok \<longrightarrow> Q p' \<and> keeps p p') \<and> (allocs p \<and> C \<longrightarrow> ok))"

lemma keeps_refl [simp]: "keeps p p"
  by (simp add: keeps_def)

lemma keeps_trans: "keeps p q \<Longrightarrow> keeps q r \<Longrightarrow> keeps p r"
  by (auto simp: keeps_def)

lemma keeps_allocs: "keeps p p' \<Longrightarrow> allocs p' = allocs p"
  by (simp add: keeps_def allocs_def)

lemma keeps_room: "keeps p p' \<Longrightarrow> room p n \<Longrightarrow> room p' n"
  by (auto simp: keeps_def room_def)

lemma room_le: "room p n \<Longrightarrow> m \<le> n \<Longrightarrow> room p m"
  by (auto simp: room_def)

text \<open>What fits at the end could be had at the start.\<close>

lemma keeps_room_back: "keeps p p' \<Longrightarrow> n \<le> pb_length p' \<Longrightarrow> pb_length p' \<le> int_max \<Longrightarrow> room p n"
  by (auto simp: keeps_def room_def)

lemma step_done: "Q p' \<Longrightarrow> keeps p p' \<Longrightarrow> step p C Q (Inr (True, p'))"
  by (auto simp: step_def)

lemma step_fail: "\<not> C \<Longrightarrow> step p C Q (Inr (False, p'))"
  by (auto simp: step_def)

lemma step_weaken: "step p C Q r \<Longrightarrow> (\<And>p'. Q p' \<Longrightarrow> keeps p p' \<Longrightarrow> Q' p') \<Longrightarrow> (C' \<Longrightarrow> C) \<Longrightarrow> step p C' Q' r"
  unfolding step_def by blast

lemma step_bind:
  assumes "step p C1 Q1 r" "C \<Longrightarrow> C1"
    "\<And>p'. Q1 p' \<Longrightarrow> keeps p p' \<Longrightarrow> \<exists>C2. (C \<longrightarrow> C2) \<and> step p' C2 Q (f p')"
  shows "step p C Q (pbind r f)"
proof -
  obtain ok p' where r: "r = Inr (ok, p')" "ok \<Longrightarrow> Q1 p'" "ok \<Longrightarrow> keeps p p'" "allocs p \<Longrightarrow> C1 \<Longrightarrow> ok"
    using assms(1) unfolding step_def by blast
  show ?thesis
  proof (cases ok)
    case True
    obtain C2 where C2: "C \<longrightarrow> C2" "step p' C2 Q (f p')" using assms(3) [OF r(2) r(3)] True by blast
    then show ?thesis
      using r(1,3) True keeps_trans [of p p'] keeps_allocs [of p p'] unfolding step_def pbind_def by auto
  next
    case False
    then show ?thesis using r assms(2) by (auto simp: step_def pbind_def)
  qed
qed

section \<open>The steps of the printer\<close>

lemma ensure_step:
  assumes "holds p d s"
  shows "step p (room p (length s + n + 1)) (\<lambda>p'. holds p' d s \<and> length s + n + 1 \<le> pb_length p') (ensure n p)"
proof -
  obtain B where B: "pb_buffer p = Some B" "pb_offset p = length s" "pb_depth p = d" "take (length s) B = map Some s"
      "pb_length p \<le> length B" "pb_length p \<le> int_max"
      "length s < pb_length p \<or> pb_length p = 0 \<and> s = [] \<and> (hk_realloc (pb_hooks p) \<or> pb_noalloc p)"
    using assms by (auto simp: holds_def filled_def)
  have grow: "step p C (\<lambda>p'. holds p' d s \<and> length s + n + 1 \<le> pb_length p') (ensure_grow B newsize p)"
    if "length s + n + 1 \<le> newsize" "newsize \<le> int_max" "pb_length p \<le> newsize" "\<not> pb_noalloc p" for newsize C
  proof -
    have g: "length (grown B k newsize) = newsize" "length s \<le> k \<Longrightarrow> take (length s) (grown B k newsize) = map Some s" for k
      using that(1) B(4) B(5,7) by (auto simp: grown_def min_def)
    have "hk_realloc (pb_hooks p) \<or> pb_offset p + 1 \<le> length B" using B(2,5,7) that(4) by auto
    moreover have "length s \<le> length B" using B(5,7) by auto
    ultimately show ?thesis
      using that B g by (auto simp: ensure_grow_def step_def holds_def filled_def keeps_def allocs_def)
  qed
  have half: "2 * (length s + n + 1) \<le> int_max" if "\<not> int_max div 2 < n + length s + 1"
    using that by (simp add: int_max_def)
  consider "int_max < n" | "n \<le> int_max" "length s + n + 1 \<le> pb_length p" | "n \<le> int_max" "\<not> length s + n + 1 \<le> pb_length p" by linarith
  then show ?thesis
  proof cases
    case 1
    then show ?thesis using B(6) B(1,2,7) by (intro step_def [THEN iffD2]) (auto simp: ensure_def room_def)
  next
    case 2
    then have "ensure n p = Inr (True, p)" using B(1,2,7) by (auto simp: ensure_def Let_def)
    then show ?thesis using 2 assms by (auto simp: step_def)
  next
    case 3
    have e: "ensure n p =
        (if pb_noalloc p then Inr (False, p)
         else if int_max div 2 < n + length s + 1 then if n + length s + 1 \<le> int_max then ensure_grow B int_max p else Inr (False, p)
         else ensure_grow B ((n + length s + 1) * 2) p)"
      using 3 B(1,2,7) by (auto simp: ensure_def Let_def)
    show ?thesis
      unfolding e using 3 B(6) half grow [of int_max] grow [of "(n + length s + 1) * 2"]
      by (auto simp: step_fail room_def)
  qed
qed

lemma put_step:
  assumes "holds p d s" "length s + length t \<le> pb_length p"
  shows "step p C (\<lambda>p'. filled p' d (length s) (s @ t) \<and> pb_length p' = pb_length p) (put t p)"
proof -
  obtain B where B: "pb_buffer p = Some B" "pb_offset p = length s" "take (length s) B = map Some s" "pb_length p \<le> length B"
    using assms(1) by (auto simp: holds_def filled_def)
  then have "put t p = Inr (True, p\<lparr>pb_buffer := Some (map Some (s @ t) @ drop (length s + length t) B)\<rparr>)"
    using assms(2) by (simp add: put_def put_at_def Let_def)
  then show ?thesis using B assms by (auto simp: step_def holds_def filled_def keeps_def)
qed

lemma filled_prefix: "filled p d pos (s @ t) \<Longrightarrow> filled p d pos s"
  unfolding filled_def by (elim exE conjE, intro exI conjI) (auto simp: take_add)

lemma filled_advance: "filled p d pos s \<Longrightarrow> filled (advance n p) d (pos + n) s"
  by (simp add: filled_def advance_def)

lemma keeps_advance: "keeps p (advance n p)"
  by (simp add: keeps_def advance_def)

lemma advance_length [simp]: "pb_length (advance n p) = pb_length p"
  by (simp add: advance_def)

text \<open>After \<^verbatim>\<open>ensure\<close> the writes have the room they ask for.\<close>

lemma ensure_then:
  assumes "holds p d s" "pb_format p = fmt" "C \<Longrightarrow> room p (length s + n + 1)"
    "\<And>p'. holds p' d s \<Longrightarrow> pb_format p' = fmt \<Longrightarrow> length s + n + 1 \<le> pb_length p' \<Longrightarrow> step p' True Q (f p')"
  shows "step p C Q (pbind (ensure n p) f)"
proof (rule step_bind [OF ensure_step [OF assms(1)] assms(3)])
  fix p'
  assume "holds p' d s \<and> length s + n + 1 \<le> pb_length p'" "keeps p p'"
  then have "step p' True Q (f p')" using assms(2) by (intro assms(4)) (simp_all add: keeps_def)
  then show "\<exists>C2. (C \<longrightarrow> C2) \<and> step p' C2 Q (f p')" by blast
qed

lemma put_then:
  assumes "holds p d s" "length s + length t \<le> pb_length p"
    "\<And>p'. filled p' d (length s) (s @ t) \<Longrightarrow> pb_length p' = pb_length p \<Longrightarrow> step p' True Q (f p')"
  shows "step p C Q (pbind (put t p) f)"
  using step_bind [OF put_step [OF assms(1,2)], of C C Q f] assms(3) by blast

lemma put_string_finished:
  assumes "holds p d s" "length s + length t + 2 \<le> pb_length p"
  shows "step p C (\<lambda>p'. finished p' d s t) (put_string t p)"
  unfolding put_string_def
proof (rule step_weaken [OF put_step [OF assms(1)]])
  show "length s + length (t @ [CHR 0x00]) \<le> pb_length p" using assms(2) by simp
  show "finished p' d s t" if "filled p' d (length s) (s @ t @ [CHR 0x00]) \<and> pb_length p' = pb_length p" for p'
    using that assms(2) by (auto simp: finished_def)
qed

lemma put_string_then:
  assumes "holds p d s" "length s + length t + 2 \<le> pb_length p"
    "\<And>p'. finished p' d s t \<Longrightarrow> filled p' d (length s) (s @ t @ [CHR 0x00]) \<Longrightarrow> step p' True Q (f p')"
  shows "step p C Q (pbind (put_string t p) f)"
  unfolding put_string_def
proof (rule put_then [OF assms(1)])
  show "length s + length (t @ [CHR 0x00]) \<le> pb_length p" using assms(2) by simp
  show "step p' True Q (f p')" if "filled p' d (length s) (s @ t @ [CHR 0x00])" "pb_length p' = pb_length p" for p'
    using that assms(2) by (intro assms(3)) (auto simp: finished_def)
qed

lemma block_strlen_text: "CHR 0x00 \<notin> set t \<Longrightarrow> block_strlen (map Some t @ Some (CHR 0x00) # B) = Inr (length t)"
  by (induction t) auto

lemma update_offset_step:
  assumes "finished p d s t" "CHR 0x00 \<notin> set t"
  shows "step p C (\<lambda>p'. holds p' d (s @ t) \<and> filled p' d (length (s @ t)) (s @ t @ [CHR 0x00])) (update_offset p)"
proof -
  obtain B pos where B: "pb_buffer p = Some B" "pb_offset p = pos" "length s \<le> pos" "pos \<le> length s + length t"
      "take (length (s @ t @ [CHR 0x00])) B = map Some (s @ t @ [CHR 0x00])" "length s + length t + 2 \<le> pb_length p"
      "pb_length p \<le> length B" "pb_length p \<le> int_max" "pb_depth p = d"
    using assms(1) by (auto simp: finished_def filled_def)
  have "B = map Some (s @ t @ [CHR 0x00]) @ drop (length (s @ t @ [CHR 0x00])) B"
    unfolding B(5) [symmetric] by simp
  then obtain B' where B': "B = map Some (s @ t @ [CHR 0x00]) @ B'" by blast
  have "drop pos B = map Some (drop (pos - length s) t) @ Some (CHR 0x00) # B'"
    using B(3,4) by (simp add: B' drop_map)
  then have "block_strlen (drop pos B) = Inr (length t - (pos - length s))"
    using block_strlen_text [of "drop (pos - length s) t"] assms(2) by (auto dest: in_set_dropD)
  then have "update_offset p = Inr (True, advance (length t - (pos - length s)) p)" using B(1,2) by (simp add: update_offset_def)
  moreover have "holds (advance (length t - (pos - length s)) p) d (s @ t)"
    "filled (advance (length t - (pos - length s)) p) d (length (s @ t)) (s @ t @ [CHR 0x00])"
    using B B' by (auto simp: holds_def filled_def advance_def)
  ultimately show ?thesis using keeps_advance by (auto simp: step_def)
qed

section \<open>Writing a text\<close>

text \<open>
  An operation that adds a text to the buffer's: it succeeds when there is room for the text and two characters more.
  Afterwards the offset is behind the text, or somewhere in it.
\<close>

definition adds :: "bool \<Rightarrow> nat \<Rightarrow> string option \<Rightarrow> (printbuffer \<Rightarrow> string \<Rightarrow> string \<Rightarrow> bool) \<Rightarrow> (printbuffer \<Rightarrow> printed) \<Rightarrow> bool" where
  "adds fmt d txt P f \<longleftrightarrow> (\<forall>p s. holds p d s \<and> pb_format p = fmt \<longrightarrow>
     step p (\<exists>t. txt = Some t \<and> room p (length s + length t + 2)) (\<lambda>p'. \<exists>t. txt = Some t \<and> P p' s t) (f p))"

definition behind :: "nat \<Rightarrow> printbuffer \<Rightarrow> string \<Rightarrow> string \<Rightarrow> bool" where
  "behind d p s t \<longleftrightarrow> holds p d (s @ t)"

definition inside :: "nat \<Rightarrow> printbuffer \<Rightarrow> string \<Rightarrow> string \<Rightarrow> bool" where
  "inside d p s t \<longleftrightarrow> finished p d s t"

definition shifts :: "(printbuffer \<Rightarrow> string \<Rightarrow> string \<Rightarrow> bool) \<Rightarrow> bool" where
  "shifts P \<longleftrightarrow> (\<forall>p s t u. P p (s @ t) u \<longrightarrow> P p s (t @ u))"

lemma shifts_behind [simp]: "shifts (behind d)"
  by (simp add: shifts_def behind_def)

lemma shifts_inside [simp]: "shifts (inside d)"
proof -
  have "inside d p s (t @ u)" if "inside d p (s @ t) u" for p s t u
  proof -
    obtain pos where pos: "length (s @ t) \<le> pos" "pos \<le> length (s @ t) + length u" "filled p d pos ((s @ t) @ u @ [CHR 0x00])"
        "length (s @ t) + length u + 2 \<le> pb_length p"
      using \<open>inside d p (s @ t) u\<close> unfolding inside_def finished_def by blast
    then show ?thesis unfolding inside_def finished_def by (intro conjI exI [of _ pos]) simp_all
  qed
  then show ?thesis by (simp add: shifts_def)
qed

lemma addsI:
  assumes "\<And>p s. holds p d s \<Longrightarrow> pb_format p = fmt \<Longrightarrow>
    step p (\<exists>t. txt = Some t \<and> room p (length s + length t + 2)) (\<lambda>p'. \<exists>t. txt = Some t \<and> P p' s t) (f p)"
  shows "adds fmt d txt P f"
  using assms by (simp add: adds_def)

lemma adds_someI:
  assumes "\<And>p s C. holds p d s \<Longrightarrow> pb_format p = fmt \<Longrightarrow> (C \<Longrightarrow> room p (length s + length t + 2)) \<Longrightarrow> step p C (\<lambda>p'. P p' s t) (f p)"
  shows "adds fmt d (Some t) P f"
  using assms by (simp add: adds_def)

lemma adds_step:
  "adds fmt d txt P f \<Longrightarrow> holds p d s \<Longrightarrow> pb_format p = fmt \<Longrightarrow>
    step p (\<exists>t. txt = Some t \<and> room p (length s + length t + 2)) (\<lambda>p'. \<exists>t. txt = Some t \<and> P p' s t) (f p)"
  by (simp add: adds_def)

lemma adds_update:
  assumes "adds fmt d txt (inside d') f" "\<And>t. txt = Some t \<Longrightarrow> CHR 0x00 \<notin> set t"
  shows "adds fmt d txt (behind d') (\<lambda>p. pbind (f p) update_offset)"
proof (rule addsI, rule step_bind)
  fix p s
  assume "holds p d s" "pb_format p = fmt"
  then show "step p (\<exists>t. txt = Some t \<and> room p (length s + length t + 2)) (\<lambda>p'. \<exists>t. txt = Some t \<and> inside d' p' s t) (f p)"
    by (rule adds_step [OF assms(1)])
  fix p'
  assume "\<exists>t. txt = Some t \<and> inside d' p' s t"
  then obtain t where t: "txt = Some t" "finished p' d' s t" unfolding inside_def by blast
  have "step p' True (\<lambda>p'. \<exists>t. txt = Some t \<and> behind d' p' s t) (update_offset p')"
    by (rule step_weaken [OF update_offset_step [OF t(2) assms(2) [OF t(1)], of True]]) (simp_all add: t(1) behind_def)
  then show "\<exists>C2. ((\<exists>t. txt = Some t \<and> room p (length s + length t + 2)) \<longrightarrow> C2) \<and>
      step p' C2 (\<lambda>p'. \<exists>t. txt = Some t \<and> behind d' p' s t) (update_offset p')" by blast
qed simp

lemma adds_bind:
  assumes "adds fmt d a (behind d1) f" "adds fmt d1 b P g" "shifts P"
  shows "adds fmt d (join2 a [] b) P (\<lambda>p. pbind (f p) g)"
proof (cases a)
  case None
  show ?thesis
  proof (rule addsI, rule step_bind)
    fix p s
    assume "holds p d s" "pb_format p = fmt"
    then show "step p (\<exists>t. a = Some t \<and> room p (length s + length t + 2)) (\<lambda>p'. \<exists>t. a = Some t \<and> behind d1 p' s t) (f p)"
      by (rule adds_step [OF assms(1)])
  qed (simp_all add: join2_def None)
next
  case (Some t)
  have j: "join2 a [] b = Some x \<longleftrightarrow> (\<exists>u. b = Some u \<and> x = t @ u)" for x by (auto simp: join2_Some Some)
  show ?thesis
  proof (rule addsI, rule step_bind)
    fix p s
    assume p: "holds p d s" "pb_format p = fmt"
    then show "step p (\<exists>t. a = Some t \<and> room p (length s + length t + 2)) (\<lambda>p'. \<exists>t. a = Some t \<and> behind d1 p' s t) (f p)"
      by (rule adds_step [OF assms(1)])
    show "\<exists>t. a = Some t \<and> room p (length s + length t + 2)"
      if ex: "\<exists>t. join2 a [] b = Some t \<and> room p (length s + length t + 2)"
    proof -
      obtain u where "room p (length s + length (t @ u) + 2)" using ex unfolding j by blast
      then have "room p (length s + length t + 2)" by (rule room_le) simp
      then show ?thesis using Some by simp
    qed
    fix p'
    assume "\<exists>t. a = Some t \<and> behind d1 p' s t" and k: "keeps p p'"
    then have h: "holds p' d1 (s @ t)" using Some by (simp add: behind_def)
    have "pb_format p' = fmt" using k p(2) by (simp add: keeps_def)
    note st = adds_step [OF assms(2) h this]
    have st': "step p' (\<exists>x. join2 a [] b = Some x \<and> room p' (length s + length x + 2)) (\<lambda>p'. \<exists>x. join2 a [] b = Some x \<and> P p' s x) (g p')"
    proof (rule step_weaken [OF st])
      show "\<exists>x. join2 a [] b = Some x \<and> P q s x" if "\<exists>u. b = Some u \<and> P q (s @ t) u" for q
        using that assms(3) unfolding j shifts_def by blast
      show "\<exists>u. b = Some u \<and> room p' (length (s @ t) + length u + 2)"
        if "\<exists>x. join2 a [] b = Some x \<and> room p' (length s + length x + 2)"
        using that unfolding j by (auto simp: add.assoc)
    qed
    have "(\<exists>x. join2 a [] b = Some x \<and> room p (length s + length x + 2)) \<longrightarrow>
        (\<exists>x. join2 a [] b = Some x \<and> room p' (length s + length x + 2))"
      by (intro impI, elim exE conjE, intro exI conjI keeps_room [OF k])
    then show "\<exists>C2. ((\<exists>x. join2 a [] b = Some x \<and> room p (length s + length x + 2)) \<longrightarrow> C2) \<and>
        step p' C2 (\<lambda>p'. \<exists>x. join2 a [] b = Some x \<and> P p' s x) (g p')"
      using st' by (intro exI conjI)
  qed
qed

section \<open>Every operation of the printer\<close>

lemma print_literal_adds: "adds fmt d (Some w) (inside d) (print_literal w)"
proof (rule adds_someI)
  fix p s C
  assume p: "holds p d s" "pb_format p = fmt" and C: "C \<Longrightarrow> room p (length s + length w + 2)"
  show "step p C (\<lambda>p'. inside d p' s w) (print_literal w p)"
    unfolding print_literal_def inside_def
    by (rule ensure_then [OF p]) (use C in \<open>auto intro!: put_string_finished\<close>)
qed

lemma print_raw_adds: "adds fmt d (map_option until_nul vs) (inside d) (print_raw vs)"
proof (cases vs)
  case None
  then show ?thesis by (intro addsI) (simp add: print_raw_def step_fail)
next
  case (Some v)
  then have "print_raw vs = print_literal (until_nul v)" by (intro ext) (simp add: print_raw_def print_literal_def)
  then show ?thesis using print_literal_adds Some by simp
qed

lemma put_string_advance:
  assumes "holds p d s" "length s + length t + 2 \<le> pb_length p"
  shows "step p C (\<lambda>p'. holds p' d (s @ t) \<and> inside d p' s t) (pbind (put_string t p) (\<lambda>p. Inr (True, advance (length t) p)))"
proof (rule put_string_then [OF assms])
  fix p'
  assume f: "finished p' d s t" "filled p' d (length s) (s @ t @ [CHR 0x00])"
  let ?q = "advance (length t) p'"
  have q: "filled ?q d (length (s @ t)) (s @ t @ [CHR 0x00])" using filled_advance [OF f(2)] by simp
  have "filled ?q d (length (s @ t)) (s @ t)" using filled_prefix [of ?q d _ "s @ t" "[CHR 0x00]"] q by simp
  moreover have "length s + length t + 2 \<le> pb_length ?q" using f(1) by (simp add: finished_def)
  ultimately have "holds ?q d (s @ t)" "inside d ?q s t"
    using q by (auto simp: holds_def inside_def finished_def intro!: exI [of _ "length (s @ t)"])
  then show "step p' True (\<lambda>p'. holds p' d (s @ t) \<and> inside d p' s t) (Inr (True, ?q))"
    by (intro step_done) (simp_all add: keeps_advance)
qed

lemma print_number_adds:
  assumes "wf_int vi" "wf_double v"
  shows "adds fmt d (Some (number_chars vi v)) (inside d) (print_number vi v)"
proof (rule adds_someI)
  fix p s C
  assume p: "holds p d s" "pb_format p = fmt" and C: "C \<Longrightarrow> room p (length s + length (number_chars vi v) + 2)"
  let ?t = "number_chars vi v"
  have "print_number vi v p = pbind (ensure (length ?t + 1) p) (\<lambda>p. pbind (put_string ?t p) (\<lambda>p. Inr (True, advance (length ?t) p)))"
    using number_chars_text(2) [OF assms] by (simp add: print_number_def Let_def)
  moreover have "step p C (\<lambda>p'. inside d p' s ?t) (pbind (ensure (length ?t + 1) p)
      (\<lambda>p. pbind (put_string ?t p) (\<lambda>p. Inr (True, advance (length ?t) p))))"
  proof (rule ensure_then [OF p])
    fix q
    assume "holds q d s" "length s + (length ?t + 1) + 1 \<le> pb_length q"
    then show "step q True (\<lambda>p'. inside d p' s ?t) (pbind (put_string ?t q) (\<lambda>p. Inr (True, advance (length ?t) p)))"
      by (intro step_weaken [OF put_string_advance]) auto
  qed (use C in simp)
  ultimately show "step p C (\<lambda>p'. inside d p' s ?t) (print_number vi v p)" by simp
qed

text \<open>The escaped copy is written in two pieces.\<close>

lemma put_at_after_put:
  assumes "pbind (put t p) (put_at (length t) u) = r" "holds p d s" "length s + length t + length u \<le> pb_length p"
  shows "r = put (t @ u) p"
proof -
  obtain B where B: "pb_buffer p = Some B" "pb_offset p = length s" "take (length s) B = map Some s" "pb_length p \<le> length B"
    using assms(2) by (auto simp: holds_def filled_def)
  have l: "length s + (length t + length u) \<le> length B" using B(4) assms(3) by simp
  have "put t p = Inr (True, p\<lparr>pb_buffer := Some (map Some (s @ t) @ drop (length s + length t) B)\<rparr>)"
    using l B by (simp add: put_def put_at_def Let_def)
  moreover have "put (t @ u) p = Inr (True, p\<lparr>pb_buffer := Some (map Some (s @ t @ u) @ drop (length s + length t + length u) B)\<rparr>)"
    using l B by (simp add: put_def put_at_def Let_def add.assoc)
  ultimately show ?thesis
    using assms(1) l B by (simp add: pbind_def put_at_def Let_def ac_simps)
qed

lemma print_string_ptr_adds: "adds fmt d (Some (quoted vs)) (inside d) (print_string_ptr vs)"
proof (cases vs)
  case None
  then have "print_string_ptr vs = print_literal (quoted vs)"
    by (intro ext) (simp add: print_string_ptr_def print_literal_def quoted_def eval_nat_numeral)
  then show ?thesis using print_literal_adds by simp
next
  case (Some v)
  define u where "u = until_nul v"
  define x where "x = sum_list (map escape_extra u)"
  define t where "t = CHR 0x22 # concat (map escape_one u)"
  have q: "quoted vs = t @ [CHR 0x22]" by (simp add: quoted_def Some t_def u_def)
  have len: "length t = length u + x + 1" by (simp add: t_def x_def concat_escape_length)
  show ?thesis
  proof (rule adds_someI)
    fix p s C
    assume p: "holds p d s" "pb_format p = fmt" and C: "C \<Longrightarrow> room p (length s + length (quoted vs) + 2)"
    let ?f = "\<lambda>p. if x = 0 then put (CHR 0x22 # u @ [CHR 0x22, CHR 0x00]) p
      else pbind (put t p) (put_at (length u + x + 1) [CHR 0x22, CHR 0x00])"
    have "step p C (\<lambda>p'. inside d p' s (quoted vs)) (pbind (ensure (length u + x + 3) p) ?f)"
    proof (rule ensure_then [OF p])
      show "room p (length s + (length u + x + 3) + 1)" if C
        using C [OF that] by (simp add: q len eval_nat_numeral)
      fix q
      assume h: "holds q d s" and l: "length s + (length u + x + 3) + 1 \<le> pb_length q"
      have "?f q = put (quoted vs @ [CHR 0x00]) q"
      proof (cases "x = 0")
        case True
        then show ?thesis by (simp add: quoted_def Some concat_escape x_def flip: u_def)
      next
        case False
        have "pbind (put t q) (put_at (length t) [CHR 0x22, CHR 0x00]) = put (t @ [CHR 0x22, CHR 0x00]) q"
          by (rule put_at_after_put [OF HOL.refl h]) (use l in \<open>simp add: len\<close>)
        then show ?thesis using False unfolding len by (simp add: q)
      qed
      then show "step q True (\<lambda>p'. inside d p' s (quoted vs)) (?f q)"
        using put_string_finished [OF h, of "quoted vs" True] l by (simp add: put_string_def inside_def q len)
    qed
    moreover have "print_string_ptr vs p = pbind (ensure (length u + x + 3) p) ?f"
      unfolding print_string_ptr_def Some option.case Let_def u_def [symmetric] x_def [symmetric] t_def [symmetric]
      by (cases "x = 0") simp_all
    ultimately show "step p C (\<lambda>p'. inside d p' s (quoted vs)) (print_string_ptr vs p)" by simp
  qed
qed

section \<open>Arrays and objects\<close>

lemma pbind_assoc: "pbind (pbind r f) g = pbind r (\<lambda>p. pbind (f p) g)"
  by (simp add: pbind_def split: sum.split prod.split)

lemma put_advance:
  assumes "holds p d s" "length s + length t < pb_length p"
  shows "step p C (\<lambda>p'. holds p' d (s @ t)) (pbind (put t p) (\<lambda>p. Inr (True, advance (length t) p)))"
proof (rule put_then [OF assms(1)])
  fix p'
  assume "filled p' d (length s) (s @ t)" "pb_length p' = pb_length p"
  then have "holds (advance (length t) p') d (s @ t)"
    using filled_advance [of p' d "length s" "s @ t" "length t"] assms(2) by (simp add: holds_def)
  then show "step p' True (\<lambda>p'. holds p' d (s @ t)) (Inr (True, advance (length t) p'))"
    by (intro step_done keeps_advance)
qed (use assms(2) in simp)

lemma deepen_step:
  assumes "filled p d (length s) (s @ t)" "length s + length t < pb_length p"
  shows "step p C (\<lambda>p'. behind (Suc d) p' s t) (deepen (length t) p)"
proof -
  let ?q = "(advance (length t) p)\<lparr>pb_depth := pb_depth p + 1\<rparr>"
  have "behind (Suc d) ?q s t" using assms by (auto simp: behind_def holds_def filled_def advance_def)
  then show ?thesis unfolding deepen_def by (intro step_done) (simp_all add: keeps_def advance_def)
qed

lemma leave_step:
  assumes "finished p (Suc d) s t"
  shows "step p C (\<lambda>p'. inside d p' s t) (leave p)"
proof -
  let ?q = "p\<lparr>pb_depth := pb_depth p - 1\<rparr>"
  have "inside d ?q s t" using assms by (auto simp: inside_def finished_def filled_def)
  then show ?thesis unfolding leave_def by (intro step_done) (simp_all add: keeps_def)
qed

lemma open_adds:
  assumes "length t \<le> n" "n \<le> length t + 1"
  shows "adds fmt d (Some t) (behind (Suc d)) (\<lambda>p. pbind (ensure n p) (\<lambda>p. pbind (put t p) (deepen (length t))))"
proof (rule adds_someI, rule ensure_then)
  fix p s C q
  assume h: "holds q d s" "length s + n + 1 \<le> pb_length q"
  show "step q True (\<lambda>p'. behind (Suc d) p' s t) (pbind (put t q) (deepen (length t)))"
  proof (rule put_then [OF h(1)])
    fix p'
    assume f: "filled p' d (length s) (s @ t)" "pb_length p' = pb_length q"
    show "step p' True (\<lambda>p'. behind (Suc d) p' s t) (deepen (length t) p')"
      by (rule deepen_step [OF f(1)]) (use h(2) assms(1) f(2) in linarith)
  qed (use h(2) assms(1) in linarith)
next
  fix p s C
  assume "C \<Longrightarrow> room p (length s + length t + 2)" C
  then have "room p (length s + length t + 2)" by blast
  then show "room p (length s + n + 1)" by (rule room_le) (use assms(2) in linarith)
qed

lemma close_adds:
  assumes "\<And>p s. holds p (Suc d) s \<Longrightarrow> pb_format p = fmt \<Longrightarrow> n p = length t + 1"
    "\<And>p s. holds p (Suc d) s \<Longrightarrow> pb_format p = fmt \<Longrightarrow> u p = t"
  shows "adds fmt (Suc d) (Some t) (inside d) (\<lambda>p. pbind (ensure (n p) p) (\<lambda>p. pbind (put_string (u p) p) leave))"
proof (rule adds_someI, rule ensure_then)
  fix p s C q
  assume p: "holds p (Suc d) s" "pb_format p = fmt"
  assume h: "holds q (Suc d) s" "pb_format q = fmt" "length s + n p + 1 \<le> pb_length q"
  show "step q True (\<lambda>p'. inside d p' s t) (pbind (put_string (u q) q) leave)"
    unfolding assms(2) [OF h(1,2)]
    by (rule put_string_then [OF h(1)]) (use h(3) assms(1) [OF p] in \<open>auto intro: leave_step\<close>)
next
  fix p s C
  assume "holds p (Suc d) s" "pb_format p = fmt" "C \<Longrightarrow> room p (length s + length t + 2)" C
  then show "room p (length s + n p + 1)" using assms(1) by simp
qed simp_all

lemma print_array_adds:
  assumes "adds fmt (Suc d) es (behind (Suc d)) elements"
  shows "adds fmt d (map_option (\<lambda>t. ''['' @ t @ '']'') es) (inside d) (print_array elements)"
proof -
  have c: "adds fmt (Suc d) (Some '']'') (inside d) (\<lambda>p. pbind (ensure 2 p) (\<lambda>p. pbind (put_string '']'' p) leave))"
    by (rule close_adds) simp_all
  have o: "adds fmt d (Some ''['') (behind (Suc d)) (\<lambda>p. pbind (ensure 1 p) (\<lambda>p. pbind (put ''['' p) (deepen 1)))"
    using open_adds [of "''[''" 1 fmt d] by simp
  have "print_array elements = (\<lambda>p. pbind (pbind (ensure 1 p) (\<lambda>p. pbind (put ''['' p) (deepen 1)))
      (\<lambda>p. pbind (elements p) (\<lambda>p. pbind (ensure 2 p) (\<lambda>p. pbind (put_string '']'' p) leave))))"
    by (intro ext) (simp only: print_array_def pbind_assoc)
  moreover have "map_option (\<lambda>t. ''['' @ t @ '']'') es = join2 (Some ''['') [] (join2 es [] (Some '']''))"
    by (simp add: join2_def split: option.split)
  ultimately show ?thesis using adds_bind [OF o adds_bind [OF assms c shifts_inside] shifts_inside] by simp
qed

lemma print_object_adds:
  assumes "adds fmt (Suc d) ms (behind (Suc d)) members"
  shows "adds fmt d (map_option (\<lambda>t. CHR 0x7B # newline fmt @ t @ indent fmt d @ [CHR 0x7D]) ms) (inside d) (print_object members)"
proof -
  define w where "w = CHR 0x7B # newline fmt"
  define v where "v = indent fmt d @ [CHR 0x7D]"
  define close where "close = (\<lambda>p. pbind (ensure (if pb_format p then pb_depth p + 1 else 2) p)
    (\<lambda>p. pbind (put_string ((if pb_format p then tabs (pb_depth p - 1) else []) @ [CHR 0x7D]) p) leave))"
  have c: "adds fmt (Suc d) (Some v) (inside d) close"
    unfolding close_def by (rule close_adds) (auto simp: v_def indent_def tabs_def holds_def filled_def)
  have o: "adds fmt d (Some w) (behind (Suc d)) (\<lambda>p. pbind (ensure (length w + 1) p) (\<lambda>p. pbind (put w p) (deepen (length w))))"
    by (rule open_adds) simp_all
  have all: "adds fmt d (join2 (Some w) [] (join2 ms [] (Some v))) (inside d)
      (\<lambda>p. pbind (pbind (ensure (length w + 1) p) (\<lambda>p. pbind (put w p) (deepen (length w)))) (\<lambda>p. pbind (members p) close))"
    by (rule adds_bind [OF o adds_bind [OF assms c shifts_inside] shifts_inside])
  have "print_object members p = pbind (pbind (ensure (length w + 1) p) (\<lambda>p. pbind (put w p) (deepen (length w)))) (\<lambda>p. pbind (members p) close)"
    if "pb_format p = fmt" for p
    using that by (simp add: print_object_def pbind_assoc close_def w_def newline_def Let_def)
  then have "adds fmt d (join2 (Some w) [] (join2 ms [] (Some v))) (inside d) (print_object members)"
    using all by (simp add: adds_def)
  moreover have "map_option (\<lambda>t. CHR 0x7B # newline fmt @ t @ indent fmt d @ [CHR 0x7D]) ms = join2 (Some w) [] (join2 ms [] (Some v))"
    by (simp add: join2_def w_def v_def split: option.split)
  ultimately show ?thesis by simp
qed

lemma adds_nothing: "adds fmt d (Some []) (behind d) (\<lambda>p. Inr (True, p))"
  by (rule adds_someI) (simp add: step_done behind_def)

lemma adds_cong:
  assumes "adds fmt d txt P f" "\<And>p s. holds p d s \<Longrightarrow> pb_format p = fmt \<Longrightarrow> g p = f p"
  shows "adds fmt d txt P g"
  using assms unfolding adds_def by (intro allI impI) (metis (no_types))

lemma put_adds:
  assumes "length t \<le> n" "n \<le> length t + 1"
  shows "adds fmt d (Some t) (behind d) (\<lambda>p. pbind (ensure n p) (\<lambda>p. pbind (put t p) (\<lambda>p. Inr (True, advance (length t) p))))"
proof (rule adds_someI, rule ensure_then)
  fix p s C q
  assume h: "holds q d s" "length s + n + 1 \<le> pb_length q"
  show "step q True (\<lambda>p'. behind d p' s t) (pbind (put t q) (\<lambda>p. Inr (True, advance (length t) p)))"
    unfolding behind_def by (rule put_advance [OF h(1)]) (use h(2) assms(1) in linarith)
next
  fix p s C
  assume "C \<Longrightarrow> room p (length s + length t + 2)" C
  then have "room p (length s + length t + 2)" by blast
  then show "room p (length s + n + 1)" by (rule room_le) (use assms(2) in linarith)
qed

lemma put_string_adds:
  "adds fmt d (Some t) (behind d)
    (\<lambda>p. pbind (ensure (length t + 1) p) (\<lambda>p. pbind (put_string t p) (\<lambda>p. Inr (True, advance (length t) p))))"
proof (rule adds_someI, rule ensure_then)
  fix p s C q
  assume h: "holds q d s" "length s + (length t + 1) + 1 \<le> pb_length q"
  show "step q True (\<lambda>p'. behind d p' s t) (pbind (put_string t q) (\<lambda>p. Inr (True, advance (length t) p)))"
    by (rule step_weaken [OF put_string_advance [OF h(1)]]) (use h(2) in \<open>simp_all add: behind_def\<close>)
qed simp_all

lemma print_comma_adds:
  "adds fmt d (Some (if has_next then element_sep fmt else [])) (behind d) (print_comma has_next)"
proof (rule adds_cong)
  show "adds fmt d (Some (if has_next then element_sep fmt else [])) (behind d)
      (if has_next then (\<lambda>p. pbind (ensure (length (element_sep fmt) + 1) p) (\<lambda>p. pbind (put_string (element_sep fmt) p)
        (\<lambda>p. Inr (True, advance (length (element_sep fmt)) p)))) else (\<lambda>p. Inr (True, p)))"
    using put_string_adds [of fmt d "element_sep fmt"] adds_nothing [of fmt d] by simp
qed (auto simp: print_comma_def element_sep_def Let_def)

lemma print_member_end_adds:
  "adds fmt d (Some ((if has_next then '','' else []) @ newline fmt)) (behind d) (print_member_end has_next)"
  by (rule adds_cong [OF put_string_adds]) (simp add: print_member_end_def newline_def Let_def)

lemma print_indent_adds: "adds fmt d (Some (indent fmt d)) (behind d) print_indent"
proof (rule adds_cong)
  show "adds fmt d (Some (indent fmt d)) (behind d) (\<lambda>p. if fmt then pbind (ensure d p) (\<lambda>p. pbind (put (tabs (pb_depth p)) p)
      (\<lambda>p. Inr (True, advance (pb_depth p) p))) else Inr (True, p))"
  proof (cases fmt)
    case True
    have "step p C (\<lambda>p'. behind d p' s (tabs d)) (pbind (ensure d p) (\<lambda>p. pbind (put (tabs (pb_depth p)) p)
        (\<lambda>p. Inr (True, advance (pb_depth p) p))))"
      if p: "holds p d s" "pb_format p = True" and C: "C \<Longrightarrow> room p (length s + length (tabs d) + 2)" for p s C
    proof (rule ensure_then [OF p])
      show "room p (length s + d + 1)" if C using room_le [OF C [OF that]] by (simp add: tabs_def)
      fix q
      assume h: "holds q d s" "length s + d + 1 \<le> pb_length q"
      have dq: "pb_depth q = d" using h(1) by (auto simp: holds_def filled_def)
      show "step q True (\<lambda>p'. behind d p' s (tabs d)) (pbind (put (tabs (pb_depth q)) q) (\<lambda>p. Inr (True, advance (pb_depth p) p)))"
        unfolding dq
      proof (rule put_then [OF h(1)])
        show "length s + length (tabs d) \<le> pb_length q" using h(2) by (simp add: tabs_def)
        fix p'
        assume f: "filled p' d (length s) (s @ tabs d)" "pb_length p' = pb_length q"
        have "pb_depth p' = d" using f(1) by (auto simp: filled_def)
        moreover have "holds (advance d p') d (s @ tabs d)"
          using filled_advance [OF f(1), of d] f(2) h(2) by (simp add: holds_def tabs_def)
        ultimately show "step p' True (\<lambda>p'. behind d p' s (tabs d)) (Inr (True, advance (pb_depth p') p'))"
          by (intro step_done) (simp_all add: keeps_advance behind_def)
      qed
    qed
    then show ?thesis using True by (intro adds_someI) (simp add: indent_def)
  qed (simp add: indent_def adds_nothing)
qed (auto simp: print_indent_def holds_def filled_def)

lemma join2_Nil: "join2 (Some t) [] (Some u) = Some (t @ u)"
  by (simp add: join2_def)

lemma join2_nested:
  "join2 a [] (join2 (Some w) [] b) = join2 a w b"
  "join2 (Some k) [] (join2 a w b) = join2 (map_option (\<lambda>t. k @ t) a) w b"
  by (simp_all add: join2_def split: option.split)

lemma print_key_adds: "adds fmt d (Some (key_text fmt d k)) (behind d) (print_key k)"
proof -
  define w where "w = CHR '':'' # (if fmt then [CHR 0x09] else [])"
  have q: "adds fmt d (Some (quoted k)) (behind d) (\<lambda>p. pbind (print_string_ptr k p) update_offset)"
    by (rule adds_update [OF print_string_ptr_adds]) (use quoted_no_nul in auto)
  have c: "adds fmt d (Some w) (behind d) (\<lambda>p. pbind (ensure (length w) p) (\<lambda>p. pbind (put w p) (\<lambda>p. Inr (True, advance (length w) p))))"
    by (rule put_adds) simp_all
  have c': "adds fmt d (Some w) (behind d) (\<lambda>p. let w = (if pb_format p then [CHR '':'', CHR 0x09] else '':'')
      in pbind (ensure (length w) p) (\<lambda>p. pbind (put w p) (\<lambda>p. Inr (True, advance (length w) p))))"
    by (rule adds_cong [OF c]) (simp add: w_def Let_def)
  have "adds fmt d (join2 (Some (indent fmt d)) [] (join2 (Some (quoted k)) [] (Some w))) (behind d) (print_key k)"
    by (rule adds_cong [OF adds_bind [OF print_indent_adds adds_bind [OF q c' shifts_behind] shifts_behind]])
      (simp only: print_key_def pbind_assoc)
  then show ?thesis by (simp add: join2_Nil key_text_def w_def)
qed

section \<open>Every value\<close>

lemma print_type_adds:
  assumes "wf_int vi" "wf_double v" "adds fmt (Suc d) es (behind (Suc d)) elements" "adds fmt (Suc d) ms (behind (Suc d)) members"
  shows "adds fmt d (type_text fmt d ty vs (number_chars vi v) es ms) (inside d) (print_type ty vs vi v elements members)"
proof -
  have fail: "adds fmt d None (inside d) (\<lambda>p. Inr (False, p))" by (rule addsI) (simp add: step_fail)
  have "print_type ty vs vi v elements members =
      (if ty = cJSON_NULL then print_literal ''null'' else if ty = cJSON_False then print_literal ''false''
       else if ty = cJSON_True then print_literal ''true'' else if ty = cJSON_Number then print_number vi v
       else if ty = cJSON_Raw then print_raw vs else if ty = cJSON_String then print_string_ptr vs
       else if ty = cJSON_Array then print_array elements else if ty = cJSON_Object then print_object members
       else (\<lambda>p. Inr (False, p)))"
    by (intro ext) (simp add: print_type_def)
  then show ?thesis
    using print_literal_adds print_number_adds [OF assms(1,2)] print_raw_adds print_string_ptr_adds
      print_array_adds [OF assms(3)] print_object_adds [OF assms(4)] fail
    by (simp add: type_text_def)
qed

lemma printer_adds:
  "wf_item item \<Longrightarrow> adds fmt d (item_text fmt d item) (inside d) (print_value item)"
  "\<forall>c\<in>set cs. wf_item c \<Longrightarrow> adds fmt d (element_texts fmt d cs) (behind d) (print_elements cs)"
  "\<forall>c\<in>set cs. wf_item c \<Longrightarrow> adds fmt d (member_texts fmt d cs) (behind d) (print_members cs)"
proof (induction fmt d item and fmt d cs and fmt d cs rule: item_text_element_texts_member_texts.induct)
  case (1 fmt d ty cs vs vi v k)
  have "print_value (Cjson ty cs vs vi v k) =
      print_type (ty AND 0xFF) vs vi v (\<lambda>p. print_elements cs p) (\<lambda>p. print_members cs p)"
    by (intro ext) simp
  then show ?case using print_type_adds [of vi v fmt d] 1 by simp
next
  case (2 fmt d)
  have "print_elements [] = (\<lambda>p. Inr (True, p))" by (intro ext) simp
  then show ?case using adds_nothing by simp
next
  case (3 fmt d c cs)
  have u: "adds fmt d (item_text fmt d c) (behind d) (\<lambda>p. pbind (print_value c p) update_offset)"
    using 3 texts_no_nul(1) by (intro adds_update) auto
  have e: "adds fmt d (element_texts fmt d cs) (behind d) (\<lambda>p. print_elements cs p)" using 3 by simp
  note all = adds_bind [OF u adds_bind [OF print_comma_adds [of fmt d "cs \<noteq> []"] e shifts_behind] shifts_behind]
  show ?case
    unfolding element_texts.simps
    by (rule adds_cong [OF all [unfolded join2_nested]]) (simp only: print_elements.simps pbind_assoc)
next
  case (4 fmt d)
  have "print_members [] = (\<lambda>p. Inr (True, p))" by (intro ext) simp
  then show ?case using adds_nothing by simp
next
  case (5 fmt d c cs)
  have u: "adds fmt d (item_text fmt d c) (behind d) (\<lambda>p. pbind (print_value c p) update_offset)"
    using 5 texts_no_nul(1) by (intro adds_update) auto
  have e: "adds fmt d (member_texts fmt d cs) (behind d) (\<lambda>p. print_members cs p)" using 5 by simp
  note all = adds_bind [OF print_key_adds [of fmt d "key c"] adds_bind [OF u
    adds_bind [OF print_member_end_adds [of fmt d "cs \<noteq> []"] e shifts_behind] shifts_behind] shifts_behind]
  show ?case
    unfolding member_texts.simps
    by (rule adds_cong [OF all [unfolded join2_nested]]) (simp only: print_members.simps pbind_assoc)
qed

end
