(* ===== verification/Cjson_Print_Api.thy ===== *)
theory Cjson_Print_Api
  imports Cjson_Print_Text
begin

text \<open>
  What the printing functions of \<^verbatim>\<open>src/Libs/cJSON/cJSON.h\<close> return, and the round trip: the text an item is printed
  as is read back as the item.
\<close>

definition c_string :: "string \<Rightarrow> char option list" where
  "c_string t = map Some (t @ [CHR 0x00])"

section \<open>The printing functions\<close>

lemma new_buffer_holds:
  assumes "0 < length B \<or> hk_realloc H \<or> noalloc" "length B \<le> int_max"
  shows "holds (new_buffer H noalloc B fmt) 0 []"
  using assms by (auto simp: holds_def filled_def new_buffer_def)

text \<open>The printer from a new buffer.\<close>

lemma print_value_new:
  assumes "wf_item item" "0 < length B \<or> hk_realloc H \<or> noalloc" "length B \<le> int_max"
  shows "step (new_buffer H noalloc B fmt)
    (\<exists>t. item_text fmt 0 item = Some t \<and> room (new_buffer H noalloc B fmt) (length t + 2))
    (\<lambda>p'. \<exists>t. item_text fmt 0 item = Some t \<and> finished p' 0 [] t) (print_value item (new_buffer H noalloc B fmt))"
proof -
  have "pb_format (new_buffer H noalloc B fmt) = fmt" by (simp add: new_buffer_def)
  from adds_step [OF printer_adds(1) [OF assms(1), of fmt 0] new_buffer_holds [OF assms(2,3)] this] show ?thesis
    by (simp add: inside_def)
qed

lemma finished_room: "finished p' d [] t \<Longrightarrow> keeps p p' \<Longrightarrow> room p (length t + 2)"
  by (rule keeps_room_back [of p p']) (auto simp: finished_def filled_def)

lemma filled_take: "filled p d pos s \<Longrightarrow> \<exists>B. pb_buffer p = Some B \<and> take (length s) B = map Some s"
  by (auto simp: filled_def)

definition prints :: "bool \<Rightarrow> cjson \<Rightarrow> string option" where
  "prints fmt item = (case item_text fmt 0 item of None \<Rightarrow> None | Some t \<Rightarrow> if length t + 2 \<le> int_max then Some t else None)"

lemma print_finish_text:
  assumes "filled p 0 (length t) (t @ [CHR 0x00])" "hk_alloc H (length t + 1)"
  shows "print_finish H p = Inr (Some (c_string t))"
proof -
  obtain B where B: "pb_buffer p = Some B" "pb_offset p = length t" "take (length t + 1) B = map Some (t @ [CHR 0x00])"
      "length t + 1 \<le> pb_length p" "pb_length p \<le> length B"
    using assms(1) by (auto simp: filled_def)
  have "take (length t) B = map Some t"
    using arg_cong [OF B(3), of "take (length t)"] by (simp add: min_def)
  then have g: "grown B k (length t + 1) = c_string t" if "length t + 1 \<le> k" for k
    using that B(3-5) by (simp add: grown_def min_def c_string_def)
  have "(c_string t) [length t := Some (CHR 0x00)] = c_string t" by (simp add: c_string_def list_update_append)
  then show ?thesis using assms(2) B g [of "length B"] g [of "length t + 1"] by (simp add: print_finish_def min_def)
qed

lemma print_text_result:
  assumes "wf_item item"
  shows "\<exists>r. print_text H fmt item = Inr r \<and> (r = None \<or> r = map_option c_string (prints fmt item)) \<and>
    ((\<forall>n. hk_alloc H n) \<longrightarrow> r = map_option c_string (prints fmt item))"
proof (cases "hk_alloc H 256")
  case True
  define p where "p = new_buffer H False (replicate 256 None) fmt"
  have "step p (\<exists>t. item_text fmt 0 item = Some t \<and> room p (length t + 2))
      (\<lambda>p'. \<exists>t. item_text fmt 0 item = Some t \<and> room p (length t + 2) \<and> filled p' 0 (length t) (t @ [CHR 0x00]))
      (pbind (print_value item p) update_offset)"
  proof (rule step_bind)
    show "step p (\<exists>t. item_text fmt 0 item = Some t \<and> room p (length t + 2))
        (\<lambda>p'. \<exists>t. item_text fmt 0 item = Some t \<and> finished p' 0 [] t) (print_value item p)"
      unfolding p_def by (rule print_value_new [OF assms]) (simp_all add: int_max_def)
    fix p'
    assume "\<exists>t. item_text fmt 0 item = Some t \<and> finished p' 0 [] t" "keeps p p'"
    then obtain t where t: "item_text fmt 0 item = Some t" "finished p' 0 [] t" by blast
    note st = update_offset_step [OF t(2) texts_no_nul(1) [OF t(1) assms], of True]
    have "room p (length t + 2)" using finished_room [OF t(2) \<open>keeps p p'\<close>] .
    then have "step p' True (\<lambda>p'. \<exists>t. item_text fmt 0 item = Some t \<and> room p (length t + 2) \<and>
        filled p' 0 (length t) (t @ [CHR 0x00])) (update_offset p')"
      using t(1) by (intro step_weaken [OF st]) auto
    then show "\<exists>C2. ((\<exists>t. item_text fmt 0 item = Some t \<and> room p (length t + 2)) \<longrightarrow> C2) \<and>
        step p' C2 (\<lambda>p'. \<exists>t. item_text fmt 0 item = Some t \<and> room p (length t + 2) \<and>
          filled p' 0 (length t) (t @ [CHR 0x00])) (update_offset p')" by blast
  qed simp
  then obtain ok p' where r: "pbind (print_value item p) update_offset = Inr (ok, p')"
      "ok \<longrightarrow> (\<exists>t. item_text fmt 0 item = Some t \<and> room p (length t + 2) \<and> filled p' 0 (length t) (t @ [CHR 0x00]))"
      "allocs p \<and> (\<exists>t. item_text fmt 0 item = Some t \<and> room p (length t + 2)) \<longrightarrow> ok"
    unfolding step_def by blast
  have room: "room p n \<longleftrightarrow> n \<le> int_max" for n by (auto simp: room_def p_def new_buffer_def int_max_def)
  have al: "allocs p \<longleftrightarrow> (\<forall>n. hk_alloc H n)" by (simp add: allocs_def p_def new_buffer_def)
  have e: "print_text H fmt item = (if ok then print_finish H p' else Inr None)"
    using True r(1) by (simp add: print_text_def p_def)
  show ?thesis
  proof (cases ok)
    case True
    then obtain t where t: "item_text fmt 0 item = Some t" "length t + 2 \<le> int_max" "filled p' 0 (length t) (t @ [CHR 0x00])"
      using r(2) room by blast
    have "prints fmt item = Some t" using t by (simp add: prints_def)
    moreover have "print_finish H p' = (if hk_alloc H (length t + 1) then Inr (Some (c_string t)) else Inr None)"
    proof (cases "hk_alloc H (length t + 1)")
      case False
      then show ?thesis using t(3) by (auto simp: print_finish_def filled_def)
    qed (use print_finish_text [OF t(3)] in simp)
    ultimately show ?thesis using True e by auto
  next
    case False
    then have "(\<forall>n. hk_alloc H n) \<longrightarrow> prints fmt item = None"
      using r(3) al room by (auto simp: prints_def split: option.split)
    then show ?thesis using False e by auto
  qed
qed (simp add: print_text_def, blast)

lemma print_buffered_result:
  assumes "wf_item item" "0 \<le> sint prebuffer" "0 < sint prebuffer \<or> hk_realloc H"
  shows "\<exists>r. cJSON_PrintBuffered H item prebuffer fmt = Inr r \<and>
    (r = None \<or> (\<exists>t B. item_text fmt 0 item = Some t \<and> r = Some B \<and> take (length t + 1) B = c_string t))"
proof (cases "hk_alloc H (nat (sint prebuffer))")
  case True
  define B where "B = (replicate (nat (sint prebuffer)) None :: char option list)"
  have len: "length B \<le> int_max"
    using sint_less [of prebuffer] by (simp add: B_def int_max_def)
  have "0 < length B \<or> hk_realloc H \<or> False" using assms(3) by (auto simp: B_def)
  from print_value_new [OF assms(1) this len, of fmt] obtain ok p' where
      r: "print_value item (new_buffer H False B fmt) = Inr (ok, p')" "ok \<longrightarrow> (\<exists>t. item_text fmt 0 item = Some t \<and> finished p' 0 [] t)"
    unfolding step_def by blast
  have e: "cJSON_PrintBuffered H item prebuffer fmt = Inr (if ok then pb_buffer p' else None)"
    using True assms(2) r(1) by (simp add: cJSON_PrintBuffered_def B_def)
  show ?thesis
  proof (cases ok)
    case True
    then obtain t pos where t: "item_text fmt 0 item = Some t" "filled p' 0 pos (t @ [CHR 0x00])"
      using r(2) by (auto simp: finished_def)
    then show ?thesis using True e filled_take [OF t(2)] by (auto simp: c_string_def)
  qed (simp add: e)
qed (use assms(2) in \<open>simp add: cJSON_PrintBuffered_def\<close>)

lemma print_preallocated_result:
  assumes "wf_item item" "0 \<le> sint len" "nat (sint len) \<le> length B"
  shows "\<exists>ok out. cJSON_PrintPreallocated H item (Some B) len fmt = Inr (ok, out) \<and>
    (ok \<longleftrightarrow> (\<exists>t. item_text fmt 0 item = Some t \<and> int (length t) + 2 \<le> sint len)) \<and>
    (ok \<longrightarrow> (\<exists>t B'. item_text fmt 0 item = Some t \<and> out = Some B' \<and> take (length t + 1) B' = c_string t))"
proof -
  define p where "p = (new_buffer H True B fmt)\<lparr>pb_length := nat (sint len)\<rparr>"
  have h: "holds p 0 []" "pb_format p = fmt" "pb_noalloc p" "pb_length p = nat (sint len)"
    using assms(3) sint_less [of len] by (auto simp: p_def holds_def filled_def new_buffer_def int_max_def)
  have room: "room p n \<longleftrightarrow> int n \<le> sint len" for n using h(3,4) assms(2) by (auto simp: room_def)
  obtain ok p' where r: "print_value item p = Inr (ok, p')" "ok \<longrightarrow> (\<exists>t. item_text fmt 0 item = Some t \<and> finished p' 0 [] t) \<and> keeps p p'"
      "(\<exists>t. item_text fmt 0 item = Some t \<and> room p (length t + 2)) \<longrightarrow> ok"
    using adds_step [OF printer_adds(1) [OF assms(1)] h(1,2)] h(3) unfolding step_def allocs_def inside_def by auto
  have e: "cJSON_PrintPreallocated H item (Some B) len fmt = Inr (ok, pb_buffer p')"
    using assms(2) r(1) by (simp add: cJSON_PrintPreallocated_def p_def)
  show ?thesis
  proof (cases ok)
    case True
    then obtain t where t: "item_text fmt 0 item = Some t" "finished p' 0 [] t" "keeps p p'" using r(2) by blast
    then obtain pos where "filled p' 0 pos (t @ [CHR 0x00])" by (auto simp: finished_def)
    then obtain B' where "pb_buffer p' = Some B'" "take (length t + 1) B' = c_string t"
      using filled_take by (fastforce simp: c_string_def)
    moreover have "int (length t) + 2 \<le> sint len" using finished_room [OF t(2,3)] by (simp add: room)
    ultimately show ?thesis using True e t(1) by auto
  next
    case False
    then have "\<not> (\<exists>t. item_text fmt 0 item = Some t \<and> int (length t) + 2 \<le> sint len)" using r(3) by (auto simp: room)
    then show ?thesis using False e by blast
  qed
qed

section \<open>Printing and parsing\<close>

text \<open>A number that is what its text says; every \<^verbatim>\<open>int\<close> is one.\<close>

definition exact_number :: "int \<Rightarrow> double \<Rightarrow> bool" where
  "exact_number vi vd \<longleftrightarrow> wf_int vi \<and> wf_double vd \<and> number_chars vi vd \<noteq> ''null'' \<and>
     fst (strtod (number_chars vi vd)) = vd \<and> saturated_int vd = vi"

lemma exact_int: "wf_int k \<Longrightarrow> exact_number k (double_of_int k)"
proof -
  assume k: "wf_int k"
  have "\<not> number_text ''null''" using number_head [of "''null''"] by (auto simp: isdigit_def)
  then have "show_int k \<noteq> ''null''" using show_int_text(1) [OF k] by metis
  then show ?thesis
    using k double_of_int_facts [OF k] number_chars_int [OF k] strtod_show_int by (simp add: exact_number_def)
qed

definition plain_string_or :: "string option \<Rightarrow> bool" where
  "plain_string_or s \<longleftrightarrow> (\<exists>t. s = Some t \<and> CHR 0x00 \<notin> set t)"

text \<open>Items as the parser makes them: the fields a type does not use are zero.\<close>

definition unused :: "string option \<Rightarrow> double \<Rightarrow> bool" where
  "unused vs vd \<longleftrightarrow> vs = None \<and> vd = Finite False 0 0"

fun canonical :: "cjson \<Rightarrow> bool" where
  "canonical (Cjson ty cs vs vi vd k) \<longleftrightarrow>
     (ty = cJSON_NULL \<or> ty = cJSON_False) \<and> cs = [] \<and> vi = 0 \<and> unused vs vd \<or>
     ty = cJSON_True \<and> cs = [] \<and> vi = 1 \<and> unused vs vd \<or>
     ty = cJSON_Number \<and> cs = [] \<and> vs = None \<and> exact_number vi vd \<or>
     ty = cJSON_String \<and> cs = [] \<and> plain_string_or vs \<and> vi = 0 \<and> vd = Finite False 0 0 \<or>
     ty = cJSON_Array \<and> vi = 0 \<and> unused vs vd \<and> (\<forall>c\<in>set cs. canonical c \<and> key c = None) \<or>
     ty = cJSON_Object \<and> vi = 0 \<and> unused vs vd \<and> (\<forall>c\<in>set cs. canonical c \<and> plain_string_or (key c))"

fun json_of :: "cjson \<Rightarrow> json" where
  "json_of (Cjson ty cs vs vi vd k) =
     (if ty = cJSON_NULL then JNull
      else if ty = cJSON_False then JBool False
      else if ty = cJSON_True then JBool True
      else if ty = cJSON_Number then JNum (number_chars vi vd)
      else if ty = cJSON_String then JStr (the vs)
      else if ty = cJSON_Array then JArr (map json_of cs)
      else JObj (map (\<lambda>c. (the (key c), json_of c)) cs))"

lemma type_distinct [simp]:
  "cJSON_NULL \<noteq> cJSON_False" "cJSON_NULL \<noteq> cJSON_True" "cJSON_NULL \<noteq> cJSON_Number" "cJSON_NULL \<noteq> cJSON_String"
  "cJSON_NULL \<noteq> cJSON_Array" "cJSON_NULL \<noteq> cJSON_Object" "cJSON_NULL \<noteq> cJSON_Raw"
  "cJSON_False \<noteq> cJSON_True" "cJSON_False \<noteq> cJSON_Number" "cJSON_False \<noteq> cJSON_String"
  "cJSON_False \<noteq> cJSON_Array" "cJSON_False \<noteq> cJSON_Object" "cJSON_False \<noteq> cJSON_Raw"
  "cJSON_True \<noteq> cJSON_Number" "cJSON_True \<noteq> cJSON_String" "cJSON_True \<noteq> cJSON_Array" "cJSON_True \<noteq> cJSON_Object"
  "cJSON_True \<noteq> cJSON_Raw" "cJSON_Number \<noteq> cJSON_String" "cJSON_Number \<noteq> cJSON_Array" "cJSON_Number \<noteq> cJSON_Object"
  "cJSON_Number \<noteq> cJSON_Raw" "cJSON_String \<noteq> cJSON_Array" "cJSON_String \<noteq> cJSON_Object" "cJSON_String \<noteq> cJSON_Raw"
  "cJSON_Array \<noteq> cJSON_Object" "cJSON_Array \<noteq> cJSON_Raw" "cJSON_Object \<noteq> cJSON_Raw"
  by (simp_all add: cJSON_types)

lemmas type_distinct' [simp] = type_distinct [symmetric]

lemma type_masked [simp]:
  "cJSON_NULL AND 0xFF = cJSON_NULL" "cJSON_False AND 0xFF = cJSON_False" "cJSON_True AND 0xFF = cJSON_True"
  "cJSON_Number AND 0xFF = cJSON_Number" "cJSON_String AND 0xFF = cJSON_String" "cJSON_Array AND 0xFF = cJSON_Array"
  "cJSON_Object AND 0xFF = cJSON_Object"
  by (simp_all add: cJSON_types)

lemma canonical_wf: "canonical item \<Longrightarrow> wf_item item"
proof (induction item)
  case (Cjson ty cs vs vi vd k)
  have "\<forall>c\<in>set cs. wf_item c" using Cjson by auto
  moreover have "wf_int 0" "wf_int 1" "wf_double (Finite False 0 0)"
    by (simp_all add: wf_int_def INT_MIN_def INT_MAX_def wf_double_def)
  then have "wf_int vi" "wf_double vd"
    using Cjson(2) by (auto simp: exact_number_def unused_def)
  ultimately show ?case by simp
qed

text \<open>The item is the one of the value it stands for, apart from the name it has as a member.\<close>

lemma set_key_twice [simp]: "set_key k (set_key k' c) = set_key k c"
  by (cases c) simp

lemma set_key_same: "key c = k \<Longrightarrow> set_key k c = c"
  by (cases c) simp

lemma canonical_item: "canonical item \<Longrightarrow> item_of (json_of item) = set_key None item"
proof (induction item)
  case (Cjson ty cs vs vi vd k)
  have a: "map (\<lambda>c. item_of (json_of c)) cs = cs" if "\<forall>c\<in>set cs. canonical c \<and> key c = None"
    using that Cjson(1) set_key_same by (intro map_idI) simp
  have o: "map (\<lambda>c. set_key (Some (the (key c))) (item_of (json_of c))) cs = cs" if "\<forall>c\<in>set cs. canonical c \<and> plain_string_or (key c)"
  proof (intro map_idI)
    fix c
    assume c: "c \<in> set cs"
    then have "key c = Some (the (key c))" using that by (auto simp: plain_string_or_def)
    then show "set_key (Some (the (key c))) (item_of (json_of c)) = c" using that c Cjson(1) set_key_same by simp
  qed
  show ?case
    using Cjson(2) a o by (auto simp: plain_item_def list_item_def unused_def exact_number_def plain_string_or_def o_def)
qed

lemma hex_digit_char: "n < 16 \<Longrightarrow> hex_digit (hex_char n) = Some n"
  by (auto simp: hex_char_def hex_digit_def Let_def of_char_of)

lemma control_hex4: "n < 32 \<Longrightarrow> hex4_text n [CHR ''0'', CHR ''0'', hex_char (n div 16), hex_char (n mod 16)]"
  unfolding hex4_text_def
  by (intro exI [of _ "CHR ''0''"] exI [of _ "hex_char (n div 16)"] exI [of _ "hex_char (n mod 16)"] exI [of _ 0]
      exI [of _ "n div 16"] exI [of _ "n mod 16"]) (simp add: hex_digit_char, simp add: hex_digit_def)

lemma escape_one_text:
  assumes "c \<noteq> CHR 0x00" "str_text s t"
  shows "str_text (c # s) (escape_one c @ t)"
proof -
  consider "31 < (of_char c :: nat)" "c \<noteq> CHR 0x22" "c \<noteq> CHR 0x5C"
    | "c \<in> {CHR 0x5C, CHR 0x22, CHR 0x08, CHR 0x0C, CHR 0x0A, CHR 0x0D, CHR 0x09}"
    | "c \<notin> {CHR 0x5C, CHR 0x22, CHR 0x08, CHR 0x0C, CHR 0x0A, CHR 0x0D, CHR 0x09}" "(of_char c :: nat) < 32"
    by fastforce
  then show ?thesis
  proof cases
    case 1
    then show ?thesis using assms str_plain by (simp add: escape_one_def)
  next
    case 2
    have e: "str_text (x # s) (CHR 0x5C # d # t)" if "escape_char d = Some x" for d x using str_escape that assms(2) by blast
    show ?thesis
      using 2 e [of "CHR 0x5C" "CHR 0x5C"] e [of "CHR 0x22" "CHR 0x22"] e [of "CHR ''b''" "CHR 0x08"] e [of "CHR ''f''" "CHR 0x0C"]
        e [of "CHR ''n''" "CHR 0x0A"] e [of "CHR ''r''" "CHR 0x0D"] e [of "CHR ''t''" "CHR 0x09"]
      by (auto simp: escape_one_def escape_char_def)
  next
    case 3
    define n where "n = (of_char c :: nat)"
    have "n \<noteq> of_char (CHR 0x00)" unfolding n_def using assms(1) by (metis of_char_eq_iff)
    then have n: "0 < n" "n < 32" using 3(2) by (simp_all add: n_def)
    have "str_text (utf8 n @ s) (CHR 0x5C # CHR ''u'' # [CHR ''0'', CHR ''0'', hex_char (n div 16), hex_char (n mod 16)] @ t)"
      using n by (intro str_unicode control_hex4 assms(2)) simp_all
    moreover have "utf8 n = [c]" using n(2) by (simp add: utf8_def n_def)
    ultimately show ?thesis using 3 by (simp add: escape_one_def n_def)
  qed
qed

lemma until_nul_plain: "CHR 0x00 \<notin> set s \<Longrightarrow> until_nul s = s"
  by (auto simp: until_nul_def takeWhile_eq_all_conv)

lemma escapes_text: "CHR 0x00 \<notin> set s \<Longrightarrow> str_text s (concat (map escape_one s))"
  by (induction s) (auto intro: str_nil escape_one_text)

lemma quoted_text: "CHR 0x00 \<notin> set s \<Longrightarrow> \<exists>t. quoted (Some s) = CHR 0x22 # t @ [CHR 0x22] \<and> str_text s t"
  using escapes_text by (simp add: quoted_def until_nul_plain)

lemma layout_ws [simp]: "ws_text (newline fmt)" "ws_text (indent fmt d)" "ws_text (if fmt then [CHR 0x09] else [])"
  by (auto simp: ws_text_def newline_def indent_def tabs_def)

lemma ws_append [simp]: "ws_text (v @ w) \<longleftrightarrow> ws_text v \<and> ws_text w"
  by (auto simp: ws_text_def)

lemma canonical_texts:
  "item_text fmt d item = Some t \<Longrightarrow> canonical item \<Longrightarrow> json_text (json_of item) t"
  "element_texts fmt d cs = Some t \<Longrightarrow> \<forall>c\<in>set cs. canonical c \<Longrightarrow> cs \<noteq> [] \<Longrightarrow>
    \<forall>w. ws_text w \<longrightarrow> elements_text (map json_of cs) (w @ t)"
  "member_texts fmt d cs = Some t \<Longrightarrow> \<forall>c\<in>set cs. canonical c \<and> plain_string_or (key c) \<Longrightarrow> cs \<noteq> [] \<Longrightarrow>
    \<forall>w w'. ws_text w \<longrightarrow> ws_text w' \<longrightarrow> members_text (map (\<lambda>c. (the (key c), json_of c)) cs) (w @ t @ w')"
proof (induction fmt d item and fmt d cs and fmt d cs arbitrary: t and t and t
    rule: item_text_element_texts_member_texts.induct)
  case (1 fmt d ty cs vs vi vd k)
  have arr: "json_text (JArr (map json_of cs)) (''['' @ u @ '']'')"
    if "element_texts fmt (Suc d) cs = Some u" "\<forall>c\<in>set cs. canonical c" for u
  proof (cases "cs = []")
    case True
    then show ?thesis using that(1) t_empty_array [of "[]"] by simp
  next
    case False
    then have "\<forall>w. ws_text w \<longrightarrow> elements_text (map json_of cs) (w @ u)" using 1(1) that by simp
    then have "elements_text (map json_of cs) ([] @ u)" using ws_text_Nil by blast
    then show ?thesis using t_array by simp
  qed
  have obj: "json_text (JObj (map (\<lambda>c. (the (key c), json_of c)) cs)) (CHR 0x7B # newline fmt @ u @ indent fmt d @ [CHR 0x7D])"
    if "member_texts fmt (Suc d) cs = Some u" "\<forall>c\<in>set cs. canonical c \<and> plain_string_or (key c)" for u
  proof (cases "cs = []")
    case True
    then show ?thesis using that(1) t_empty_object [of "newline fmt @ indent fmt d"] by simp
  next
    case False
    then have "members_text (map (\<lambda>c. (the (key c), json_of c)) cs) (newline fmt @ u @ indent fmt d)" using 1(2) that by simp
    then show ?thesis using t_object [of _ "newline fmt @ u @ indent fmt d"] by simp
  qed
  have num: "json_text (JNum (number_chars vi vd)) (number_chars vi vd)" if "exact_number vi vd"
    using that number_chars_text [of vi vd] by (intro t_number) (auto simp: exact_number_def)
  have str: "json_text (JStr (the vs)) (quoted vs)" if "plain_string_or vs"
    using that quoted_text t_string by (fastforce simp: plain_string_or_def)
  show ?case
    using 1(3,4) arr obj num str t_null t_true t_false
    by (auto simp: type_text_def)
next
  case (3 fmt d c cs)
  obtain u v where u: "item_text fmt d c = Some u" "element_texts fmt d cs = Some v"
      "t = u @ (if cs \<noteq> [] then element_sep fmt else []) @ v"
    using 3(3) by (auto simp: join2_Some)
  have j: "json_text (json_of c) u" using 3(1) u(1) 3(4) by simp
  show ?case
  proof (intro allI impI)
    fix w
    assume w: "ws_text w"
    show "elements_text (map json_of (c # cs)) (w @ t)"
    proof (cases "cs = []")
      case True
      then show ?thesis using t_element [OF w j, of "[]"] u by simp
    next
      case False
      have sep: "element_sep fmt = CHR '','' # (if fmt then '' '' else [])" "ws_text (if fmt then '' '' else [])"
        by (cases fmt; simp add: element_sep_def ws_text_def)+
      then have "elements_text (map json_of cs) ((if fmt then '' '' else []) @ v)"
        using 3(2) [OF u(2)] 3(4) False by simp
      then show ?thesis using t_elements [OF w j, of "[]"] u(3) False sep(1) by simp
    qed
  qed
next
  case (5 fmt d c cs)
  obtain u v where u: "item_text fmt d c = Some u" "member_texts fmt d cs = Some v"
      "t = (key_text fmt d (key c) @ u) @ ((if cs \<noteq> [] then '','' else []) @ newline fmt) @ v"
    using 5(3) by (auto simp: join2_Some)
  have j: "json_text (json_of c) u" using 5(1) u(1) 5(4) by simp
  obtain kt where k: "quoted (key c) = CHR 0x22 # kt @ [CHR 0x22]" "str_text (the (key c)) kt"
    using 5(4) quoted_text by (fastforce simp: plain_string_or_def)
  show ?case
  proof (intro allI impI)
    fix w w'
    assume w: "ws_text w" "ws_text w'"
    have wi: "ws_text (w @ indent fmt d)" using w(1) by simp
    show "members_text (map (\<lambda>c. (the (key c), json_of c)) (c # cs)) (w @ t @ w')"
    proof (cases "cs = []")
      case True
      then show ?thesis using t_member [OF wi k(2), of "[]" _ _ _ "newline fmt @ w'"] j w(2) u k(1) by (simp add: key_text_def)
    next
      case False
      then have "members_text (map (\<lambda>c. (the (key c), json_of c)) cs) (newline fmt @ v @ w')"
        using 5(2) [OF u(2)] 5(4) w(2) by simp
      then show ?thesis
        using t_members [OF wi k(2), of "[]" "if fmt then [CHR 0x09] else []" "json_of c" u "[]"] j u(3) k(1) False
        by (simp add: key_text_def)
    qed
  qed
qed simp_all

section \<open>The properties\<close>

text \<open>The texts of canonical items exist.\<close>

lemma canonical_prints:
  "canonical item \<Longrightarrow> \<exists>t. item_text fmt d item = Some t"
  "\<forall>c\<in>set cs. canonical c \<Longrightarrow> \<exists>t. element_texts fmt d cs = Some t"
  "\<forall>c\<in>set cs. canonical c \<Longrightarrow> \<exists>t. member_texts fmt d cs = Some t"
proof (induction fmt d item and fmt d cs and fmt d cs rule: item_text_element_texts_member_texts.induct)
  case (1 fmt d ty cs vs vi vd k)
  then show ?case by (auto simp: type_text_def)
qed (auto simp: join2_Some)

lemma print_then_parse:
  assumes "canonical item" "key item = None" "fits CJSON_NESTING_LIMIT (json_of item)" "\<forall>n. hk_alloc H n"
    "length (the (item_text fmt 0 item)) + 2 \<le> int_max"
  shows "\<exists>t. print_text H fmt item = Inr (Some (c_string t)) \<and> cJSON_Parse True always (Some t) = Some item"
proof -
  obtain t where t: "item_text fmt 0 item = Some t" using canonical_prints(1) [OF assms(1)] by blast
  have "prints fmt item = Some t" using t assms(5) by (simp add: prints_def)
  then have "print_text H fmt item = Inr (Some (c_string t))"
    using print_text_result [OF canonical_wf [OF assms(1)], of H fmt] assms(4) by auto
  moreover have "cJSON_Parse True always (Some ([] @ [] @ t @ [])) = Some (item_of (json_of item))"
    by (rule cjson_reads_text [OF canonical_texts(1) [OF t assms(1)] assms(3)]) simp_all
  ultimately show ?thesis using canonical_item [OF assms(1)] set_key_same [OF assms(2)] by auto
qed

text \<open>
  C23. \<^verbatim>\<open>cJSON_Print\<close> and \<^verbatim>\<open>cJSON_PrintUnformatted\<close> never write or read outside their buffers, however often these
  have to grow and whichever allocation fails; they return nothing or the text of the item, and
  with enough memory they return it unless it is longer than an \<^verbatim>\<open>int\<close> can say.
\<close>

theorem cjson_print_text:
  assumes "wf_item item"
  shows "(\<exists>r. cJSON_Print H item = Inr r \<and> (r = None \<or> r = map_option c_string (prints True item)) \<and>
      ((\<forall>n. hk_alloc H n) \<longrightarrow> r = map_option c_string (prints True item))) \<and>
    (\<exists>r. cJSON_PrintUnformatted H item = Inr r \<and> (r = None \<or> r = map_option c_string (prints False item)) \<and>
      ((\<forall>n. hk_alloc H n) \<longrightarrow> r = map_option c_string (prints False item)))"
  unfolding cJSON_Print_def cJSON_PrintUnformatted_def using print_text_result [OF assms] by blast

definition sample_item :: cjson where
  "sample_item = Cjson cJSON_Object
     [Cjson cJSON_Array [Cjson cJSON_Number [] None (- 12) (double_of_int (- 12)) None, plain_item cJSON_True 1] None 0 (Finite False 0 0)
        (Some ''a'')] None 0 (Finite False 0 0) None"

lemma wf_int_sample: "wf_int (- 12)" "wf_int 0" "wf_int 1"
  by (simp_all add: wf_int_def INT_MIN_def INT_MAX_def)

lemma sample_wf: "wf_item sample_item"
  using double_of_int_facts(1) [OF wf_int_sample(1)] wf_int_sample
  by (simp add: sample_item_def plain_item_def) (simp add: wf_double_def)

lemma sample_text:
  "item_text False 0 sample_item = Some (CHR 0x7B # CHR 0x22 # ''a'' @ CHR 0x22 # '':[-12,true]'' @ [CHR 0x7D])"
proof -
  have "decimal 12 = ''12''" by code_simp
  then have n: "number_chars (- 12) (double_of_int (- 12)) = ''-12''"
    using number_chars_int [OF wf_int_sample(1)] by (simp add: show_int_def)
  have k: "quoted (Some ''a'') = [CHR 0x22, CHR ''a'', CHR 0x22]"
    by (simp add: quoted_def until_nul_def escape_one_def)
  show ?thesis
    by (simp add: sample_item_def plain_item_def type_text_def join2_def n key_text_def k indent_def newline_def element_sep_def)
qed

theorem cjson_print_text_witness:
  "cJSON_PrintUnformatted \<lparr>hk_realloc = False, hk_alloc = \<lambda>_. True\<rparr> sample_item =
    Inr (Some (c_string (CHR 0x7B # CHR 0x22 # ''a'' @ CHR 0x22 # '':[-12,true]'' @ [CHR 0x7D])))"
  using cjson_print_text [OF sample_wf, of "\<lparr>hk_realloc = False, hk_alloc = \<lambda>_. True\<rparr>"]
  by (simp add: prints_def sample_text int_max_def)

text \<open>
  C32. \<^verbatim>\<open>cJSON_PrintPreallocated\<close> stays inside the caller's buffer, and succeeds exactly when the text has two characters
  to spare in it, the NUL and one more; then the buffer holds the text.
\<close>

theorem cjson_print_preallocated:
  assumes "wf_item item" "0 \<le> sint len" "nat (sint len) \<le> length B"
  shows "\<exists>ok out. cJSON_PrintPreallocated H item (Some B) len fmt = Inr (ok, out) \<and>
    (ok \<longleftrightarrow> (\<exists>t. item_text fmt 0 item = Some t \<and> int (length t) + 2 \<le> sint len)) \<and>
    (ok \<longrightarrow> (\<exists>t B'. item_text fmt 0 item = Some t \<and> out = Some B' \<and> take (length t + 1) B' = c_string t))"
  using assms by (rule print_preallocated_result)

theorem cjson_print_preallocated_witness:
  "(\<exists>B'. cJSON_PrintPreallocated \<lparr>hk_realloc = False, hk_alloc = \<lambda>_. False\<rparr> sample_item (Some (replicate 18 None)) 18 False =
      Inr (True, Some B') \<and>
      take 17 B' = c_string (CHR 0x7B # CHR 0x22 # ''a'' @ CHR 0x22 # '':[-12,true]'' @ [CHR 0x7D])) \<and>
    (\<exists>out. cJSON_PrintPreallocated \<lparr>hk_realloc = False, hk_alloc = \<lambda>_. False\<rparr> sample_item (Some (replicate 17 None)) 17 False =
      Inr (False, out))"
  using cjson_print_preallocated [OF sample_wf, of 18 "replicate 18 None" "\<lparr>hk_realloc = False, hk_alloc = \<lambda>_. False\<rparr>" False]
    cjson_print_preallocated [OF sample_wf, of 17 "replicate 17 None" "\<lparr>hk_realloc = False, hk_alloc = \<lambda>_. False\<rparr>" False]
  by (auto simp: sample_text eval_nat_numeral)



text \<open>
  \<^verbatim>\<open>cJSON_PrintBuffered\<close> is as safe for a first buffer of at least one character, or with a function to
  reallocate. With neither, the first growth of a buffer of size 0 copies one character from it, outside of it.
\<close>

theorem cjson_print_buffered:
  assumes "wf_item item" "0 \<le> sint prebuffer"
  shows "(0 < sint prebuffer \<or> hk_realloc H \<longrightarrow>
      (\<exists>r. cJSON_PrintBuffered H item prebuffer fmt = Inr r \<and>
        (r = None \<or> (\<exists>t B. item_text fmt 0 item = Some t \<and> r = Some B \<and> take (length t + 1) B = c_string t)))) \<and>
    (sint prebuffer = 0 \<and> \<not> hk_realloc H \<and> (\<forall>n. hk_alloc H n) \<and> has_type cJSON_Array (Some item) \<longrightarrow>
      cJSON_PrintBuffered H item prebuffer fmt = Inl OutOfBounds)"
proof (intro conjI impI)
  assume a: "sint prebuffer = 0 \<and> \<not> hk_realloc H \<and> (\<forall>n. hk_alloc H n) \<and> has_type cJSON_Array (Some item)"
  then have "print_value item (new_buffer H False [] fmt) = Inl OutOfBounds"
    by (cases item)
      (simp add: has_type_def print_type_def print_array_def ensure_def new_buffer_def ensure_grow_def Let_def int_max_def pbind_def)
  then show "cJSON_PrintBuffered H item prebuffer fmt = Inl OutOfBounds" using a by (simp add: cJSON_PrintBuffered_def)
qed (use print_buffered_result [OF assms] in simp)

theorem cjson_print_buffered_witness:
  "cJSON_PrintBuffered \<lparr>hk_realloc = False, hk_alloc = \<lambda>_. True\<rparr> (list_item cJSON_Array []) 0 True = Inl OutOfBounds"
proof -
  have "wf_item (list_item cJSON_Array [])" using wf_int_sample by (simp add: list_item_def wf_double_def)
  from cjson_print_buffered [OF this, of 0 "\<lparr>hk_realloc = False, hk_alloc = \<lambda>_. True\<rparr>" True] show ?thesis
    by (simp add: has_type_def list_item_def)
qed

lemma decimal_evals: "decimal 3 = ''3''" "decimal 300000000000000 = ''300000000000000''"
proof -
  have "char_of (51 :: nat) = CHR ''3''" "char_of (48 :: nat) = CHR ''0''" by code_simp+
  then show "decimal 3 = ''3''" "decimal 300000000000000 = ''300000000000000''" by (simp_all add: decimal.simps)
qed

lemma print_third_digits: "show_g 15 False 5404319552844596 (- 54) = ''0.3''"
proof -
  have "decimal_exponent 5404319552844596 18014398509481984 = - 1"
    by (simp add: decimal_exponent_def decimal_evals)
  then have "significant 15 5404319552844596 18014398509481984 = (- 1, 300000000000000)"
    by (simp add: significant_def Let_def rne_def)
  then show ?thesis
    by (simp add: show_g_def show_digits_def decimal_evals with_fraction_def strip_zeros_def Let_def)
qed

lemma read_third: "strtod ''0.3'' = (Finite False 5404319552844595 (- 54), 3)"
proof -
  have "double_of_ratio False 3 10 = Finite False 5404319552844595 (- 54)"
    by (simp add: double_of_ratio_def scaled_def Let_def rne_def bitlen.simps)
  then show ?thesis
    by (simp add: strtod_def strip_sign_def strtod_exponent_def isdigit_def digits_value_def Let_def)
qed

lemma third_close: "compare_double (Finite False 5404319552844595 (- 54)) (Finite False 5404319552844596 (- 54))"
proof -
  have s: "d_sub (Finite False 5404319552844595 (- 54)) (Finite False 5404319552844596 (- 54)) = double_of_ratio True 1 (2 ^ 54)"
    by (simp add: d_sub_def d_units_def)
  have s': "double_of_ratio True 1 (2 ^ 54) = Finite True (2 ^ 52) (- 106)"
    by (simp add: double_of_ratio_def scaled_def Let_def rne_def bitlen.simps)
  have e: "d_times_epsilon (Finite False 5404319552844596 (- 54)) =
      double_of_ratio False 5404319552844596 (2 ^ 106)"
    by (simp add: d_times_epsilon_def)
  have e': "double_of_ratio False 5404319552844596 (2 ^ 106) = Finite False 5404319552844596 (- 106)"
    by (simp add: double_of_ratio_def scaled_def Let_def rne_def bitlen.simps)
  show ?thesis
    by (simp add: compare_double_def s [unfolded s'] e [unfolded e'] d_less_def d_abs_def d_units_def d_le_def)
qed

text \<open>
  A number can be printed as a text that does not stand for it, although the code means to check that the value
  can be recovered: the comparison allows a relative difference of \<open>2 ^ -52\<close>, so \<^verbatim>\<open>0.30000000000000004\<close> is printed
  as the text of its neighbour.
\<close>

theorem cjson_print_inexact:
  "number_chars 0 (Finite False 5404319552844596 (- 54)) = ''0.3'' \<and>
    fst (strtod ''0.3'') = Finite False 5404319552844595 (- 54)"
  by (simp add: number_chars_def d_equals_int_def d_units_def print_third_digits read_third third_close)

end
