(* ===== verification/Cjson_List.thy ===== *)
theory Cjson_List
  imports Cjson_Value
begin

text \<open>
  The doubly linked lists of children of \<^verbatim>\<open>src/Libs/cJSON/cJSON.c\<close> with their pointers: a heap of nodes, the operations
  that link, unlink and replace nodes, and the lists of values they implement. The \<^verbatim>\<open>prev\<close> of the first child is the last
  one, so that appending does not walk the list.
\<close>

section \<open>Nodes\<close>

type_synonym loc = nat

record node =
  nd_next :: "loc option"
  nd_prev :: "loc option"
  nd_child :: "loc option"
  nd_type :: i32
  nd_string :: "string option"

text \<open>A location that is not allocated, or no longer, has no node; to follow a pointer to it is a fault.\<close>

type_synonym heap = "loc \<Rightarrow> node option"

definition read :: "(node \<Rightarrow> 'a) \<Rightarrow> loc option \<Rightarrow> heap \<Rightarrow> 'a res" where
  "read f l h = (case l of None \<Rightarrow> Inl NullDeref | Some l \<Rightarrow> (case h l of None \<Rightarrow> Inl NullDeref | Some n \<Rightarrow> Inr (f n)))"

definition change :: "(node \<Rightarrow> node) \<Rightarrow> loc option \<Rightarrow> heap \<Rightarrow> heap res" where
  "change f l h = (case l of None \<Rightarrow> Inl NullDeref | Some l \<Rightarrow>
     (case h l of None \<Rightarrow> Inl NullDeref | Some n \<Rightarrow> Inr (h(l \<mapsto> f n))))"

definition bind_res :: "'a res \<Rightarrow> ('a \<Rightarrow> 'b res) \<Rightarrow> 'b res" where
  "bind_res r f = (case r of Inl e \<Rightarrow> Inl e | Inr x \<Rightarrow> f x)"

definition set_next :: "loc option \<Rightarrow> loc option \<Rightarrow> heap \<Rightarrow> heap res" where
  "set_next l v = change (\<lambda>n. n\<lparr>nd_next := v\<rparr>) l"

definition set_prev :: "loc option \<Rightarrow> loc option \<Rightarrow> heap \<Rightarrow> heap res" where
  "set_prev l v = change (\<lambda>n. n\<lparr>nd_prev := v\<rparr>) l"

definition set_child :: "loc option \<Rightarrow> loc option \<Rightarrow> heap \<Rightarrow> heap res" where
  "set_child l v = change (\<lambda>n. n\<lparr>nd_child := v\<rparr>) l"

lemmas heap_defs = read_def change_def bind_res_def set_next_def set_prev_def set_child_def

section \<open>The operations\<close>

definition suffix_object :: "loc option \<Rightarrow> loc option \<Rightarrow> heap \<Rightarrow> heap res" where
  "suffix_object prev item h = bind_res (set_next prev item h) (set_prev item prev)"

definition add_item_to_array :: "loc option \<Rightarrow> loc option \<Rightarrow> heap \<Rightarrow> (bool \<times> heap) res" where
  "add_item_to_array array item h =
     (if item = None \<or> array = None \<or> array = item then Inr (False, h)
      else bind_res (read nd_child array h) (\<lambda>child.
        if child = None
        then bind_res (set_child array item h) (\<lambda>h. bind_res (set_prev item item h) (\<lambda>h. bind_res (set_next item None h)
          (\<lambda>h. Inr (True, h))))
        else bind_res (read nd_prev child h) (\<lambda>prev.
          if prev = None then Inr (True, h)
          else bind_res (suffix_object prev item h) (\<lambda>h. bind_res (read nd_child array h) (\<lambda>child.
            bind_res (set_prev child item h) (\<lambda>h. Inr (True, h)))))))"

definition cJSON_IsReference :: i32 where "cJSON_IsReference = 256"
definition cJSON_StringIsConst :: i32 where "cJSON_StringIsConst = 512"

definition cJSON_strdup :: "bool \<Rightarrow> string option \<Rightarrow> string option" where
  "cJSON_strdup alloc_ok s = (if alloc_ok then s else None)"

text \<open>An item gets its name before it is appended; the name of a constant key is not copied.\<close>

definition add_item_to_object :: "bool \<Rightarrow> loc option \<Rightarrow> string option \<Rightarrow> loc option \<Rightarrow> bool \<Rightarrow> heap \<Rightarrow> (bool \<times> heap) res" where
  "add_item_to_object alloc_ok obj name item constant_key h =
     (if obj = None \<or> name = None \<or> item = None \<or> obj = item then Inr (False, h)
      else bind_res (read nd_type item h) (\<lambda>ty.
        let (new_key, new_type) =
              (if constant_key then (name, ty OR cJSON_StringIsConst)
               else (cJSON_strdup alloc_ok name, ty AND NOT cJSON_StringIsConst))
        in if new_key = None then Inr (False, h)
           else bind_res (change (\<lambda>n. n\<lparr>nd_string := new_key, nd_type := new_type\<rparr>) item h) (add_item_to_array obj item)))"

text \<open>A reference shares the children of the item; \<open>new\<close> is what the allocation of its node returned.\<close>

definition create_reference :: "loc option \<Rightarrow> loc option \<Rightarrow> heap \<Rightarrow> (loc option \<times> heap) res" where
  "create_reference new item h =
     (if item = None then Inr (None, h)
      else case new of
        None \<Rightarrow> Inr (None, h)
      | Some l \<Rightarrow> bind_res (read id item h) (\<lambda>n.
          Inr (Some l, h(l \<mapsto> n\<lparr>nd_string := None, nd_type := nd_type n OR cJSON_IsReference, nd_next := None, nd_prev := None\<rparr>))))"

definition cJSON_AddItemReferenceToArray :: "loc option \<Rightarrow> loc option \<Rightarrow> loc option \<Rightarrow> heap \<Rightarrow> (bool \<times> heap) res" where
  "cJSON_AddItemReferenceToArray new array item h =
     (if array = None then Inr (False, h)
      else bind_res (create_reference new item h) (\<lambda>(r, h). add_item_to_array array r h))"

text \<open>The item with an index: a walk along the links, which ends by the index.\<close>

fun get_array_item_loop :: "nat \<Rightarrow> loc option \<Rightarrow> heap \<Rightarrow> loc option res" where
  "get_array_item_loop 0 child h = Inr child"
| "get_array_item_loop (Suc index) child h =
     (if child = None then Inr None else bind_res (read nd_next child h) (\<lambda>child. get_array_item_loop index child h))"

definition get_array_item :: "loc option \<Rightarrow> nat \<Rightarrow> heap \<Rightarrow> loc option res" where
  "get_array_item array index h =
     (if array = None then Inr None else bind_res (read nd_child array h) (\<lambda>child. get_array_item_loop index child h))"

definition cJSON_DetachItemViaPointer :: "loc option \<Rightarrow> loc option \<Rightarrow> heap \<Rightarrow> (loc option \<times> heap) res" where
  "cJSON_DetachItemViaPointer parent item h =
     (if parent = None \<or> item = None then Inr (None, h)
      else bind_res (read nd_child parent h) (\<lambda>child. bind_res (read nd_prev item h) (\<lambda>prev.
        if item \<noteq> child \<and> prev = None then Inr (None, h)
        else bind_res (read nd_next item h) (\<lambda>next.
          bind_res (if item \<noteq> child then set_next prev next h else Inr h) (\<lambda>h.
          bind_res (read nd_next item h) (\<lambda>next. bind_res (read nd_prev item h) (\<lambda>prev.
          bind_res (if next \<noteq> None then set_prev next prev h else Inr h) (\<lambda>h.
          bind_res (read nd_child parent h) (\<lambda>child. bind_res (read nd_next item h) (\<lambda>next. bind_res (read nd_prev item h) (\<lambda>prev.
          bind_res (if item = child then set_child parent next h
                    else if next = None then set_prev child prev h else Inr h) (\<lambda>h.
          bind_res (set_prev item None h) (\<lambda>h. bind_res (set_next item None h) (\<lambda>h. Inr (item, h)))))))))))))))"

definition cJSON_DetachItemFromArray :: "loc option \<Rightarrow> int \<Rightarrow> heap \<Rightarrow> (loc option \<times> heap) res" where
  "cJSON_DetachItemFromArray array which h =
     (if which < 0 then Inr (None, h)
      else bind_res (get_array_item array (nat which) h) (\<lambda>item. cJSON_DetachItemViaPointer array item h))"

text \<open>The second half of an insertion, in front of an item that is there.\<close>

definition insert_links :: "loc option \<Rightarrow> loc option \<Rightarrow> loc option \<Rightarrow> heap \<Rightarrow> (bool \<times> heap) res" where
  "insert_links array after newitem h =
     bind_res (read nd_child array h) (\<lambda>child. bind_res (read nd_prev after h) (\<lambda>prev.
       if after \<noteq> child \<and> prev = None then Inr (False, h)
       else bind_res (set_next newitem after h) (\<lambda>h. bind_res (read nd_prev after h) (\<lambda>prev.
         bind_res (set_prev newitem prev h) (\<lambda>h. bind_res (set_prev after newitem h) (\<lambda>h.
         bind_res (read nd_child array h) (\<lambda>child. bind_res (read nd_prev newitem h) (\<lambda>prev.
         bind_res (if after = child then set_child array newitem h else set_next prev newitem h)
           (\<lambda>h. Inr (True, h))))))))))"

definition cJSON_InsertItemInArray :: "loc option \<Rightarrow> int \<Rightarrow> loc option \<Rightarrow> heap \<Rightarrow> (bool \<times> heap) res" where
  "cJSON_InsertItemInArray array which newitem h =
     (if which < 0 \<or> newitem = None then Inr (False, h)
      else bind_res (get_array_item array (nat which) h) (\<lambda>after.
        if after = None then add_item_to_array array newitem h else insert_links array after newitem h))"

text \<open>
  Replacing: after its links have been taken over, the old item is linked to nothing and deleted. How it is deleted
  is a parameter here.
\<close>

definition cJSON_ReplaceItemViaPointer :: "(loc option \<Rightarrow> heap \<Rightarrow> heap res) \<Rightarrow> loc option \<Rightarrow> loc option \<Rightarrow> loc option \<Rightarrow> heap \<Rightarrow> (bool \<times> heap) res" where
  "cJSON_ReplaceItemViaPointer delete parent item replacement h =
     (if parent = None then Inr (False, h)
      else bind_res (read nd_child parent h) (\<lambda>child.
        if child = None \<or> replacement = None \<or> item = None then Inr (False, h)
        else if replacement = item then Inr (True, h)
        else bind_res (read nd_next item h) (\<lambda>next. bind_res (set_next replacement next h) (\<lambda>h.
          bind_res (read nd_prev item h) (\<lambda>prev. bind_res (set_prev replacement prev h) (\<lambda>h.
          bind_res (read nd_next replacement h) (\<lambda>next.
          bind_res (if next \<noteq> None then set_prev next replacement h else Inr h) (\<lambda>h.
          bind_res (read nd_child parent h) (\<lambda>child.
          bind_res
            (if child = item
             then bind_res (read nd_prev child h) (\<lambda>prev.
               bind_res (if prev = child then set_prev replacement replacement h else Inr h) (set_child parent replacement))
             else bind_res (read nd_prev replacement h) (\<lambda>prev.
               bind_res (if prev \<noteq> None then set_next prev replacement h else Inr h) (\<lambda>h.
               bind_res (read nd_next replacement h) (\<lambda>next. if next = None
                 then bind_res (read nd_child parent h) (\<lambda>child. set_prev child replacement h) else Inr h)))) (\<lambda>h.
          bind_res (set_next item None h) (\<lambda>h. bind_res (set_prev item None h) (\<lambda>h.
          bind_res (delete item h) (\<lambda>h. Inr (True, h))))))))))))))"

section \<open>Lists of children\<close>

definition head :: "loc list \<Rightarrow> loc option" where
  "head xs = (if xs = [] then None else Some (hd xs))"

definition final :: "loc list \<Rightarrow> loc option" where
  "final xs = (if xs = [] then None else Some (last xs))"

text \<open>A segment of the list: its nodes, what its first one has as \<^verbatim>\<open>prev\<close> and its last one as \<^verbatim>\<open>next\<close>.\<close>

fun segment :: "heap \<Rightarrow> loc option \<Rightarrow> loc list \<Rightarrow> loc option \<Rightarrow> bool" where
  "segment h before [] after = True"
| "segment h before (x # xs) after =
     ((\<exists>n. h x = Some n \<and> nd_prev n = before \<and> nd_next n = (if xs = [] then after else head xs)) \<and> segment h (Some x) xs after)"

text \<open>The children of \<open>p\<close> are \<open>xs\<close>: the first one points to the last one.\<close>

definition kids :: "heap \<Rightarrow> loc \<Rightarrow> loc list \<Rightarrow> bool" where
  "kids h p xs \<longleftrightarrow> (\<exists>n. h p = Some n \<and> nd_child n = head xs) \<and> segment h (final xs) xs None \<and> distinct (p # xs)"

lemma head_final_simps [simp]:
  "head [] = None" "head (x # xs) = Some x" "final [] = None" "final (x # xs) = (if xs = [] then Some x else final xs)"
  "head (xs @ ys) = (if xs = [] then head ys else head xs)" "final (xs @ ys) = (if ys = [] then final xs else final ys)"
  by (auto simp: head_def final_def)

lemma segment_append:
  "segment h before (xs @ ys) after \<longleftrightarrow>
    segment h before xs (if ys = [] then after else head ys) \<and> segment h (if xs = [] then before else final xs) ys after"
proof (induction xs arbitrary: before)
  case (Cons x xs)
  show ?case using Cons.IH [of "Some x"] by (cases "xs = []"; cases "ys = []") simp_all
qed simp

text \<open>A segment looks at the links of its nodes only.\<close>

lemma segment_other [simp]: "l \<notin> set xs \<Longrightarrow> segment (h(l := v)) before xs after = segment h before xs after"
  by (induction xs arbitrary: before) auto

text \<open>What an operation on the children of \<open>p\<close> leaves alone: other nodes, and the contents of all nodes.\<close>

definition relinks :: "loc \<Rightarrow> loc set \<Rightarrow> heap \<Rightarrow> heap \<Rightarrow> bool" where
  "relinks p A h h' \<longleftrightarrow> (\<forall>l. l \<notin> A \<and> l \<noteq> p \<longrightarrow> h' l = h l) \<and>
     (\<forall>l n. h l = Some n \<longrightarrow> (\<exists>n'. h' l = Some n' \<and> nd_type n' = nd_type n \<and> nd_string n' = nd_string n \<and>
       (l \<noteq> p \<longrightarrow> nd_child n' = nd_child n)))"

lemma list_shapes:
  obtains "xs = []" | z where "xs = [z]" | y ms z where "xs = y # ms @ [z]"
proof (cases xs)
  case (Cons y ys)
  then show ?thesis using that by (cases ys rule: rev_cases) auto
qed (use that in simp)

lemma add_item_appends:
  assumes "kids h p xs" "h x = Some n" "nd_next n = None" "x \<notin> set (p # xs)"
  shows "\<exists>h'. add_item_to_array (Some p) (Some x) h = Inr (True, h') \<and> kids h' p (xs @ [x]) \<and> relinks p (set (x # xs)) h h'"
  using assms
  by (cases xs rule: list_shapes)
    (auto simp: add_item_to_array_def suffix_object_def heap_defs kids_def segment_append relinks_def)

text \<open>The item with an index.\<close>

lemma get_item_loop:
  assumes "segment h before xs None"
  shows "get_array_item_loop k (head xs) h = Inr (if k < length xs then Some (xs ! k) else None)"
  using assms
proof (induction xs arbitrary: before k)
  case Nil
  then show ?case by (cases k) simp_all
next
  case (Cons x xs)
  show ?case
  proof (cases k)
    case (Suc i)
    have "\<exists>n. h x = Some n \<and> nd_next n = head xs" "segment h (Some x) xs None" using Cons.prems by (auto simp: head_def)
    then show ?thesis using Cons.IH [of "Some x" i] Suc by (auto simp: heap_defs)
  qed simp
qed

lemma get_item_nth:
  assumes "kids h p xs"
  shows "get_array_item (Some p) k h = Inr (if k < length xs then Some (xs ! k) else None)"
  using assms get_item_loop [of h "final xs" xs k] by (auto simp: get_array_item_def kids_def heap_defs)

text \<open>A list around one of its elements.\<close>

lemma around_shapes:
  obtains "ys = []" "zs = []" | z where "ys = []" "zs = [z]" | z ms w where "ys = []" "zs = z # ms @ [w]"
    | y where "ys = [y]" "zs = []" | y z where "ys = [y]" "zs = [z]" | y z ms w where "ys = [y]" "zs = z # ms @ [w]"
    | y ms w where "ys = y # ms @ [w]" "zs = []" | y ms w z where "ys = y # ms @ [w]" "zs = [z]"
    | y ms w z ms' w' where "ys = y # ms @ [w]" "zs = z # ms' @ [w']"
  by (cases ys rule: list_shapes; cases zs rule: list_shapes) auto

lemma detach_removes:
  assumes "kids h p (ys @ x # zs)"
  shows "\<exists>h' n. cJSON_DetachItemViaPointer (Some p) (Some x) h = Inr (Some x, h') \<and> kids h' p (ys @ zs) \<and>
    h' x = Some n \<and> nd_next n = None \<and> nd_prev n = None \<and> relinks p (set (ys @ x # zs)) h h'"
  using assms
  by (cases ys zs rule: around_shapes)
    (auto simp: cJSON_DetachItemViaPointer_def heap_defs kids_def segment_append relinks_def)

lemma insert_before:
  assumes "kids h p (ys @ y # zs)" "h x = Some n" "x \<notin> set (p # ys @ y # zs)"
  shows "\<exists>h'. cJSON_InsertItemInArray (Some p) (int (length ys)) (Some x) h = Inr (True, h') \<and> kids h' p (ys @ x # y # zs) \<and>
    relinks p (set (ys @ x # y # zs)) h h'"
proof -
  have "get_array_item (Some p) (length ys) h = Inr (Some y)" using get_item_nth [OF assms(1)] by simp
  then have "cJSON_InsertItemInArray (Some p) (int (length ys)) (Some x) h = insert_links (Some p) (Some y) (Some x) h"
    by (simp add: cJSON_InsertItemInArray_def bind_res_def)
  moreover have "\<exists>h'. insert_links (Some p) (Some y) (Some x) h = Inr (True, h') \<and> kids h' p (ys @ x # y # zs) \<and>
      relinks p (set (ys @ x # y # zs)) h h'"
    using assms
    by (cases ys zs rule: around_shapes) (auto simp: insert_links_def heap_defs kids_def segment_append relinks_def)
  ultimately show ?thesis by simp
qed

lemma insert_at:
  assumes "kids h p xs" "h x = Some n" "x \<notin> set (p # xs)" "nd_next n = None"
  shows "\<exists>h'. cJSON_InsertItemInArray (Some p) (int k) (Some x) h = Inr (True, h') \<and> kids h' p (take k xs @ x # drop k xs) \<and>
    relinks p (set (x # xs)) h h'"
proof (cases "k < length xs")
  case True
  have xs: "xs = take k xs @ xs ! k # drop (Suc k) xs" using True by (rule id_take_nth_drop)
  have "kids h p (take k xs @ xs ! k # drop (Suc k) xs)" "x \<notin> set (p # take k xs @ xs ! k # drop (Suc k) xs)"
    using assms(1,3) xs by simp_all
  from insert_before [OF this(1) assms(2) this(2)] obtain h' where
      h': "cJSON_InsertItemInArray (Some p) (int (length (take k xs))) (Some x) h = Inr (True, h')"
        "kids h' p (take k xs @ x # xs ! k # drop (Suc k) xs)" "relinks p (set (take k xs @ x # xs ! k # drop (Suc k) xs)) h h'"
    by blast
  have "set (take k xs @ x # xs ! k # drop (Suc k) xs) = set (x # xs)" using arg_cong [OF xs, of set] by auto
  then show ?thesis using h' True by (simp add: Cons_nth_drop_Suc min_def)
next
  case False
  then have "get_array_item (Some p) k h = Inr None" using get_item_nth [OF assms(1)] by simp
  then show ?thesis using add_item_appends [OF assms(1,2,4,3)] False by (simp add: cJSON_InsertItemInArray_def bind_res_def)
qed

lemma replace_in_place:
  assumes "kids h p (ys @ x # zs)" "h r = Some m" "r \<notin> set (p # ys @ x # zs)"
  shows "\<exists>h' n. cJSON_ReplaceItemViaPointer delete (Some p) (Some x) (Some r) h =
      bind_res (delete (Some x) h') (\<lambda>h. Inr (True, h)) \<and>
    kids h' p (ys @ r # zs) \<and> h' x = Some n \<and> nd_next n = None \<and> nd_prev n = None \<and> relinks p (set (r # ys @ x # zs)) h h'"
  using assms
  by (cases ys zs rule: around_shapes)
    (auto simp: cJSON_ReplaceItemViaPointer_def heap_defs kids_def segment_append relinks_def)

section \<open>Deleting\<close>

text \<open>
  An item, its children and what follows it are freed; a node that is freed already is a fault. The recursion goes along
  pointers and has fuel, which runs out on a cycle.
\<close>

fun cJSON_Delete :: "nat \<Rightarrow> loc option \<Rightarrow> heap \<Rightarrow> heap res option" where
  "cJSON_Delete 0 item h = None"
| "cJSON_Delete (Suc fuel) None h = Some (Inr h)"
| "cJSON_Delete (Suc fuel) (Some l) h =
     (case h l of
        None \<Rightarrow> Some (Inl NullDeref)
      | Some n \<Rightarrow>
          (case (if nd_type n AND cJSON_IsReference = 0 \<and> nd_child n \<noteq> None then cJSON_Delete fuel (nd_child n) h else Some (Inr h)) of
             Some (Inr h) \<Rightarrow>
               if h l = None then Some (Inl NullDeref) else cJSON_Delete fuel (nd_next n) (h(l := None))
           | r \<Rightarrow> r))"

definition cJSON_DeleteItemFromArray :: "nat \<Rightarrow> loc option \<Rightarrow> int \<Rightarrow> heap \<Rightarrow> heap res option" where
  "cJSON_DeleteItemFromArray fuel array which h =
     (case cJSON_DetachItemFromArray array which h of Inl e \<Rightarrow> Some (Inl e) | Inr (item, h) \<Rightarrow> cJSON_Delete fuel item h)"

text \<open>A tree of items in the heap, none of them a reference.\<close>

datatype ltree = LTree (root: loc) (subtrees: "ltree list")

fun locs :: "ltree \<Rightarrow> loc list" where
  "locs (LTree l ts) = l # concat (map locs ts)"

fun tree_at :: "heap \<Rightarrow> ltree \<Rightarrow> bool" where
  "tree_at h (LTree l ts) \<longleftrightarrow> (\<exists>n. h l = Some n \<and> nd_type n AND cJSON_IsReference = 0) \<and> kids h l (map root ts) \<and>
     (\<forall>t\<in>set ts. tree_at h t)"

lemma root_in_locs: "root t \<in> set (locs t)"
  by (cases t) simp

lemma roots_in_locs: "set (map root ts) \<subseteq> set (concat (map locs ts))"
  using root_in_locs by fastforce

lemma segment_cong: "\<forall>l\<in>set xs. h' l = h l \<Longrightarrow> segment h' before xs after = segment h before xs after"
  by (induction xs arbitrary: before) auto

lemma kids_cong: "\<forall>l\<in>set (p # xs). h' l = h l \<Longrightarrow> kids h' p xs = kids h p xs"
  using segment_cong [of xs h' h] by (simp add: kids_def)

lemma tree_at_cong: "\<forall>l\<in>set (locs t). h' l = h l \<Longrightarrow> tree_at h' t = tree_at h t"
proof (induction t)
  case (LTree l ts)
  have "kids h' l (map root ts) = kids h l (map root ts)"
    using LTree.prems roots_in_locs [of ts] by (intro kids_cong) auto
  moreover have "tree_at h' t = tree_at h t" if "t \<in> set ts" for t using LTree that by auto
  ultimately show ?case using LTree.prems by simp
qed

text \<open>Deleting frees the items of the trees, each once, and nothing else.\<close>

lemma delete_frees:
  assumes "segment h before (map root ts) None" "\<forall>t\<in>set ts. tree_at h t" "distinct (concat (map locs ts))"
    "length (concat (map locs ts)) < fuel"
  shows "cJSON_Delete fuel (head (map root ts)) h =
    Some (Inr (\<lambda>l. if l \<in> set (concat (map locs ts)) then None else h l))"
  using assms
proof (induction fuel arbitrary: ts h before)
  case (Suc fuel)
  show ?case
  proof (cases ts)
    case (Cons t ts')
    obtain l us where t: "t = LTree l us" by (cases t)
    obtain n where n: "h l = Some n" "nd_type n AND cJSON_IsReference = 0" "nd_child n = head (map root us)"
      using Suc.prems(2) by (auto simp: Cons t kids_def)
    have nx: "nd_next n = head (map root ts')" "segment h (Some l) (map root ts') None"
      using Suc.prems(1) n(1) by (auto simp: Cons t head_def)
    define h1 where "h1 = (\<lambda>k. if k \<in> set (concat (map locs us)) then None else h k)"
    have l: "l \<notin> set (concat (map locs us))" using Suc.prems(3) by (auto simp: Cons t)
    have sub: "(if nd_type n AND cJSON_IsReference = 0 \<and> nd_child n \<noteq> None then cJSON_Delete fuel (nd_child n) h else Some (Inr h)) = Some (Inr h1)"
    proof (cases "us = []")
      case True
      then show ?thesis using n(3) by (simp add: h1_def)
    next
      case False
      have "cJSON_Delete fuel (head (map root us)) h = Some (Inr h1)"
        unfolding h1_def
        by (rule Suc.IH [of h "final (map root us)"])
          (use Suc.prems in \<open>auto simp: Cons t kids_def\<close>)
      moreover have "nd_child n \<noteq> None" using n(3) False by (simp add: head_def)
      ultimately show ?thesis using n(2,3) by simp
    qed
    define h2 where "h2 = h1(l := None)"
    have same: "h2 k = h k" if "k \<in> set (concat (map locs ts'))" for k
      using that Suc.prems(3) by (auto simp: h2_def h1_def Cons t)
    have "cJSON_Delete fuel (head (map root ts')) h2 = Some (Inr (\<lambda>k. if k \<in> set (concat (map locs ts')) then None else h2 k))"
    proof (rule Suc.IH)
      show "segment h2 (Some l) (map root ts') None"
        using nx(2) segment_cong [of "map root ts'" h2 h] same roots_in_locs [of ts'] by blast
      show "\<forall>t\<in>set ts'. tree_at h2 t"
        using Suc.prems(2) tree_at_cong [of _ h2 h] same by (fastforce simp: Cons)
    qed (use Suc.prems(3,4) in \<open>auto simp: Cons t\<close>)
    moreover have "(\<lambda>k. if k \<in> set (concat (map locs ts')) then None else h2 k) =
        (\<lambda>k. if k \<in> set (concat (map locs ts)) then None else h k)"
      by (intro ext) (auto simp: h2_def h1_def Cons t)
    ultimately show ?thesis
      using n(1) nx(1) sub l by (simp add: Cons t h2_def h1_def)
  qed simp
qed simp

text \<open>Relinking the children of \<open>p\<close> leaves the trees below them as they are.\<close>

lemma relinks_tree:
  assumes "tree_at h t" "relinks p A h h'" "root t \<noteq> p" "\<forall>l\<in>set (locs t). l \<noteq> root t \<longrightarrow> l \<notin> A \<and> l \<noteq> p" "distinct (locs t)"
  shows "tree_at h' t"
proof -
  obtain l ts where t: "t = LTree l ts" by (cases t)
  have l: "l \<notin> set (concat (map locs ts))" using assms(5) by (simp add: t)
  have same: "h' k = h k" if "k \<in> set (concat (map locs ts))" for k
  proof -
    have "k \<noteq> l" using that l by blast
    moreover have "k \<in> set (locs t)" using that by (simp add: t)
    ultimately have "k \<notin> A" "k \<noteq> p" using assms(4) by (auto simp: t)
    then show ?thesis using assms(2) by (simp add: relinks_def)
  qed
  obtain n where n: "h l = Some n" "nd_type n AND cJSON_IsReference = 0" "nd_child n = head (map root ts)"
    using assms(1) by (auto simp: t kids_def)
  obtain n' where n': "h' l = Some n'" "nd_type n' = nd_type n" "nd_child n' = nd_child n"
    using assms(2,3) n(1) unfolding relinks_def t by fastforce
  have "segment h' (final (map root ts)) (map root ts) None"
    using assms(1) segment_cong [of "map root ts" h' h] same roots_in_locs [of ts] unfolding t kids_def tree_at.simps by blast
  moreover have "\<forall>u\<in>set ts. tree_at h' u"
    using assms(1) tree_at_cong [of _ h' h] same by (fastforce simp: t)
  ultimately show ?thesis using assms(1) n n' by (auto simp: t kids_def)
qed

lemma split_nth: "k < length xs \<Longrightarrow> xs = take k xs @ xs ! k # drop (Suc k) xs"
  by (rule id_take_nth_drop)

lemma detach_from_array:
  assumes "kids h p xs" "k < length xs"
  shows "\<exists>h' n. cJSON_DetachItemFromArray (Some p) (int k) h = Inr (Some (xs ! k), h') \<and> kids h' p (take k xs @ drop (Suc k) xs) \<and>
    h' (xs ! k) = Some n \<and> nd_next n = None \<and> nd_prev n = None \<and> relinks p (set xs) h h'"
proof -
  have "cJSON_DetachItemFromArray (Some p) (int k) h = cJSON_DetachItemViaPointer (Some p) (Some (xs ! k)) h"
    using get_item_nth [OF assms(1)] assms(2) by (simp add: cJSON_DetachItemFromArray_def bind_res_def)
  then show ?thesis
    using detach_removes [of h p "take k xs" "xs ! k" "drop (Suc k) xs"] assms(1) split_nth [OF assms(2)] by simp
qed

lemma delete_item_from_array:
  assumes "tree_at h (LTree p ts)" "distinct (locs (LTree p ts))" "k < length ts" "length (locs (ts ! k)) < fuel"
  shows "\<exists>h'. cJSON_DeleteItemFromArray fuel (Some p) (int k) h = Some (Inr h') \<and>
    tree_at h' (LTree p (take k ts @ drop (Suc k) ts)) \<and> (\<forall>l\<in>set (locs (ts ! k)). h' l = None) \<and>
    (\<forall>l. l \<notin> set (locs (LTree p ts)) \<longrightarrow> h' l = h l)"
proof -
  define A where "A = set (map root ts)"
  define t where "t = ts ! k"
  define rest where "rest = take k ts @ drop (Suc k) ts"
  have ts: "ts = take k ts @ t # drop (Suc k) ts" unfolding t_def by (rule split_nth [OF assms(3)])
  have tin: "t \<in> set ts" using assms(3) by (simp add: t_def)
  have rin: "set rest \<subseteq> set ts" by (auto simp: rest_def dest: in_set_takeD in_set_dropD)
  have c: "concat (map locs ts) = concat (map locs (take k ts)) @ locs t @ concat (map locs (drop (Suc k) ts))"
    using arg_cong [OF ts, of "\<lambda>xs. concat (map locs xs)"] by simp
  have "distinct (concat (map locs ts))" using assms(2) by simp
  then have dist: "distinct (locs t @ concat (map locs rest))" unfolding c by (auto simp: rest_def)
  obtain n where p: "h p = Some n" "nd_type n AND cJSON_IsReference = 0" using assms(1) by auto
  have ks: "kids h p (map root ts)" using assms(1) by simp
  obtain h1 m where h1: "cJSON_DetachItemFromArray (Some p) (int k) h = Inr (Some (root t), h1)" "kids h1 p (map root rest)"
      "h1 (root t) = Some m" "nd_next m = None" "nd_prev m = None" "relinks p A h h1"
    using detach_from_array [OF ks, of k] assms(3) by (auto simp: t_def rest_def A_def take_map drop_map)
  have root: "root u \<in> A" "root u \<noteq> p" if "u \<in> set ts" for u
    using that assms(2) root_in_locs [of u] by (auto simp: A_def)
  have inner: "l \<notin> A \<and> l \<noteq> p" if "u \<in> set ts" "l \<in> set (locs u)" "l \<noteq> root u" for u l
  proof -
    have "l \<notin> A"
    proof
      assume "l \<in> A"
      then obtain v where v: "v \<in> set ts" "l = root v" by (auto simp: A_def)
      then have "l \<in> set (locs v)" using root_in_locs by simp
      moreover have "locs u \<noteq> locs v" using that(3) v(2) by (cases u; cases v) auto
      ultimately show False using that(1,2) v(1) \<open>distinct (concat (map locs ts))\<close> by (auto simp: distinct_concat_iff)
    qed
    moreover have "l \<noteq> p" using that assms(2) by auto
    ultimately show ?thesis by blast
  qed
  have trees: "tree_at h1 u" if "u \<in> set ts" for u
  proof (rule relinks_tree [OF _ h1(6)])
    show "distinct (locs u)" using that assms(2) by (auto simp: distinct_concat_iff)
  qed (use assms(1) that root inner in auto)
  define h2 where "h2 = (\<lambda>l. if l \<in> set (locs t) then None else h1 l)"
  have "cJSON_Delete fuel (head (map root [t])) h1 = Some (Inr (\<lambda>l. if l \<in> set (concat (map locs [t])) then None else h1 l))"
    by (rule delete_frees [of _ None]) (use h1(3-5) trees tin dist assms(4) in \<open>auto simp: t_def\<close>)
  then have "cJSON_DeleteItemFromArray fuel (Some p) (int k) h = Some (Inr h2)"
    using h1(1) by (simp add: cJSON_DeleteItemFromArray_def h2_def)
  moreover have same: "h2 l = h1 l" if "l \<notin> set (locs t)" for l using that by (simp add: h2_def)
  have pt: "p \<notin> set (locs t)" using assms(2) tin by auto
  have rt: "u \<in> set rest \<Longrightarrow> l \<in> set (locs u) \<Longrightarrow> l \<notin> set (locs t)" for u l using dist by auto
  have "tree_at h2 (LTree p rest)"
  proof -
    have "kids h2 p (map root rest)"
      using h1(2) kids_cong [of p "map root rest" h2 h1] same pt rt root_in_locs by fastforce
    moreover have "\<forall>u\<in>set rest. tree_at h2 u"
      using trees rin tree_at_cong [of _ h2 h1] same rt by blast
    moreover have "\<exists>n'. h1 p = Some n' \<and> nd_type n' = nd_type n" using h1(6) p(1) unfolding relinks_def by blast
    ultimately show ?thesis using p(2) same [OF pt] by auto
  qed
  moreover have "h2 l = h l" if "l \<notin> set (locs (LTree p ts))" for l
  proof -
    have "l \<notin> A" "l \<noteq> p" "l \<notin> set (locs t)" using that root_in_locs tin by (auto simp: A_def)
    then show ?thesis using h1(6) same by (simp add: relinks_def)
  qed
  ultimately show ?thesis by (intro exI [of _ h2]) (simp add: h2_def rest_def t_def)
qed

lemma add_named:
  assumes "kids h p xs" "h x = Some n" "nd_next n = None" "x \<notin> set (p # xs)"
  shows "\<exists>h' m. add_item_to_object True (Some p) (Some nm) (Some x) constant_key h = Inr (True, h') \<and> kids h' p (xs @ [x]) \<and>
    h' x = Some m \<and> nd_string m = Some nm"
proof -
  define m where "m = n\<lparr>nd_string := Some nm, nd_type := (if constant_key then nd_type n OR cJSON_StringIsConst else nd_type n AND NOT cJSON_StringIsConst)\<rparr>"
  have "kids (h(x \<mapsto> m)) p xs = kids h p xs" using assms(4) by (intro kids_cong) auto
  then obtain h' where h': "add_item_to_array (Some p) (Some x) (h(x \<mapsto> m)) = Inr (True, h')" "kids h' p (xs @ [x])"
      "relinks p (set (x # xs)) (h(x \<mapsto> m)) h'"
    using add_item_appends [of "h(x \<mapsto> m)" p xs x m] assms by (auto simp: m_def)
  have "add_item_to_object True (Some p) (Some nm) (Some x) constant_key h = Inr (True, h')"
    using assms(2,4) h'(1) by (auto simp: add_item_to_object_def heap_defs cJSON_strdup_def m_def)
  moreover have "\<exists>m'. h' x = Some m' \<and> nd_string m' = Some nm"
    using h'(3) unfolding relinks_def by (metis fun_upd_same m_def node.select_convs(5) node.surjective node.update_convs(4,5))
  ultimately show ?thesis using h'(2) by blast
qed

section \<open>The properties\<close>

text \<open>
  C24. The operations on the children of an item implement those on lists: the item with an index, appending,
  inserting before an index (or at the end), taking out and replacing. The links of all nodes stay those of the list,
  in both directions, with the first one pointing to the last, and no operation follows a missing pointer or touches
  nodes outside the list.
\<close>

theorem cjson_children_refine:
  assumes "kids h p xs" "h x = Some n" "nd_next n = None" "x \<notin> set (p # xs)"
  shows "(\<forall>k. get_array_item (Some p) k h = Inr (if k < length xs then Some (xs ! k) else None)) \<and>
    (\<exists>h'. add_item_to_array (Some p) (Some x) h = Inr (True, h') \<and> kids h' p (xs @ [x]) \<and> relinks p (set (x # xs)) h h') \<and>
    (\<forall>k. \<exists>h'. cJSON_InsertItemInArray (Some p) (int k) (Some x) h = Inr (True, h') \<and>
      kids h' p (take k xs @ x # drop k xs) \<and> relinks p (set (x # xs)) h h') \<and>
    (\<forall>k<length xs. \<exists>h'. cJSON_DetachItemFromArray (Some p) (int k) h = Inr (Some (xs ! k), h') \<and>
      kids h' p (take k xs @ drop (Suc k) xs) \<and> relinks p (set xs) h h') \<and>
    (\<forall>k<length xs. \<forall>delete. \<exists>h'. cJSON_ReplaceItemViaPointer delete (Some p) (Some (xs ! k)) (Some x) h =
        bind_res (delete (Some (xs ! k)) h') (\<lambda>h. Inr (True, h)) \<and>
      kids h' p (xs[k := x]) \<and> relinks p (set (x # xs)) h h')"
proof (intro conjI allI impI)
  show "get_array_item (Some p) k h = Inr (if k < length xs then Some (xs ! k) else None)" for k
    by (rule get_item_nth [OF assms(1)])
  show "\<exists>h'. add_item_to_array (Some p) (Some x) h = Inr (True, h') \<and> kids h' p (xs @ [x]) \<and> relinks p (set (x # xs)) h h'"
    by (rule add_item_appends [OF assms])
  show "\<exists>h'. cJSON_InsertItemInArray (Some p) (int k) (Some x) h = Inr (True, h') \<and>
      kids h' p (take k xs @ x # drop k xs) \<and> relinks p (set (x # xs)) h h'" for k
    by (rule insert_at [OF assms(1,2,4,3)])
  fix k
  assume k: "k < length xs"
  show "\<exists>h'. cJSON_DetachItemFromArray (Some p) (int k) h = Inr (Some (xs ! k), h') \<and>
      kids h' p (take k xs @ drop (Suc k) xs) \<and> relinks p (set xs) h h'"
    using detach_from_array [OF assms(1) k] by blast
  fix delete
  have "set (x # take k xs @ xs ! k # drop (Suc k) xs) = set (x # xs)" using arg_cong [OF split_nth [OF k], of set] by simp
  then show "\<exists>h'. cJSON_ReplaceItemViaPointer delete (Some p) (Some (xs ! k)) (Some x) h =
        bind_res (delete (Some (xs ! k)) h') (\<lambda>h. Inr (True, h)) \<and>
      kids h' p (xs[k := x]) \<and> relinks p (set (x # xs)) h h'"
    using replace_in_place [of h p "take k xs" "xs ! k" "drop (Suc k) xs" x n delete] assms split_nth [OF k]
    unfolding upd_conv_take_nth_drop [OF k] by (metis (no_types, lifting))
qed

definition blank :: node where
  "blank = \<lparr>nd_next = None, nd_prev = None, nd_child = None, nd_type = cJSON_NULL, nd_string = None\<rparr>"

text \<open>An array with two items, and an item by itself.\<close>

definition sample_heap :: heap where
  "sample_heap = [0 \<mapsto> blank\<lparr>nd_child := Some 1, nd_type := cJSON_Array\<rparr>, 1 \<mapsto> blank\<lparr>nd_next := Some 2, nd_prev := Some 2\<rparr>,
     2 \<mapsto> blank\<lparr>nd_prev := Some 1\<rparr>, 3 \<mapsto> blank]"

lemma sample_kids: "kids sample_heap 0 [1, 2]"
  by (simp add: kids_def sample_heap_def blank_def)

theorem cjson_children_refine_witness:
  "\<exists>h'. cJSON_InsertItemInArray (Some 0) 1 (Some 3) sample_heap = Inr (True, h') \<and> kids h' 0 [1, 3, 2]"
proof -
  have "sample_heap 3 = Some blank" "nd_next blank = None" "3 \<notin> set [0 :: nat, 1, 2]" by (simp_all add: sample_heap_def blank_def)
  from cjson_children_refine [OF sample_kids this] have "\<exists>h'. cJSON_InsertItemInArray (Some 0) (int 1) (Some 3) sample_heap = Inr (True, h') \<and>
      kids h' 0 (take 1 [1, 2] @ 3 # drop 1 [1, 2])" by blast
  then show ?thesis by simp
qed

text \<open>
  C31. Deleting an item of an array frees the item and everything below it, each node once; the other items stay as
  they were, with everything below them, and are the children of the array. The fuel is one more than the nodes freed.
\<close>

theorem cjson_delete_from_array:
  assumes "tree_at h (LTree p ts)" "distinct (locs (LTree p ts))" "k < length ts" "length (locs (ts ! k)) < fuel"
  shows "\<exists>h'. cJSON_DeleteItemFromArray fuel (Some p) (int k) h = Some (Inr h') \<and>
    tree_at h' (LTree p (take k ts @ drop (Suc k) ts)) \<and> (\<forall>l\<in>set (locs (ts ! k)). h' l = None) \<and>
    (\<forall>l. l \<notin> set (locs (LTree p ts)) \<longrightarrow> h' l = h l)"
  using assms by (rule delete_item_from_array)

theorem cjson_delete_from_array_witness:
  "\<exists>h'. cJSON_DeleteItemFromArray 2 (Some 0) 0 sample_heap = Some (Inr h') \<and> tree_at h' (LTree 0 [LTree 2 []]) \<and> h' 1 = None"
proof -
  have "tree_at sample_heap (LTree 0 [LTree 1 [], LTree 2 []])"
    using sample_kids by (simp add: kids_def sample_heap_def blank_def cJSON_types cJSON_IsReference_def)
  from cjson_delete_from_array [OF this, of 0 2] show ?thesis by simp blast
qed

end
