(* ===== verification/Spec2Isabelle.thy ===== *)
theory Spec2Isabelle
  imports Sdb_Containers Sdb_Misc Mb_Throughput Thread_Ctl App_Setup Pg_Schema Signals Test_Server Poc_Ring Poc_Zero Cjson_Print_Api Cjson_List
begin

text \<open>
  The sensor data logger: packets of sensor values arrive over Modbus TCP and are inserted into PostgreSQL.

  \<^bold>\<open>The program.\<close> \<^verbatim>\<open>src/Main.c\<close> loads a JSON configuration, makes one thread group for every data handler of it and
  waits for them. A group has a Modbus thread (\<^verbatim>\<open>MbRun\<close>), which takes frames off a socket and puts their packets
  into the buffers of a sensor data pipe, and a database thread (\<^verbatim>\<open>PgRun\<close>), which takes full buffers out of the pipe,
  converts their rows to the binary format of COPY and commits them. The pipe is a ring of arenas with two
  event counters: one counts buffers that are full, one buffers that may be filled. A signal handler
  sets a flag that the loops poll. Everything is built on \<^verbatim>\<open>src/Sdb.h\<close>: arenas, scratch arenas of a thread,
  strings, logging, files.

  \<^bold>\<open>How it is modelled.\<close> Machine integers are words of their width and wrap as they do in C; signed ones that the
  code never lets overflow are integers. Memory is a function from 64-bit addresses to bytes, and an arena store
  maps addresses to arenas where the code shares them by pointer. A function that can crash returns
  \<open>fault + 'a\<close>, where the fault is a read outside a buffer, a dereferenced NULL or a failed assertion; a call
  that can wait for ever has \<open>Blocks\<close>, \<open>Stuck\<close> or \<open>None\<close> for that. What the kernel, libpq and the C library answer
  (reads of a socket, results of a query, clocks, allocation) is an argument, mostly as the list of answers
  in the order they come; libpq and the POSIX objects are not defined here. Threads are step relations whose steps are the atomic
  accesses of the code.

  \<^bold>\<open>The theories\<close>, each with the component's data, operations and lemmas:

  \<^item> \<open>Sdb_Prelude\<close>: integer types, memory, faults, and the lemmas on words and lists that are shared.
  \<^item> \<open>Sdb_Memory\<close>, \<open>Sdb_Arena\<close>, \<open>Sdb_Scratch\<close>, \<open>Sdb_Containers\<close>, \<open>Sdb_Strings\<close>, \<open>Sdb_FileIO\<close>, \<open>Sdb_Log\<close>, \<open>Sdb_Misc\<close>: the
    sections of \<^verbatim>\<open>src/Sdb.h\<close>. Arenas keep their cursor inside their block and hand out disjoint blocks (an interpretation
    of the locale \<open>bump_allocator\<close>); a scratch arena avoids the conflicts it is given, but only the first of two;
    strings refine lists of characters; a log call writes one bounded line and returns the lock, except on errors.
  \<^item> \<open>Sdb_Time\<close>: \<^verbatim>\<open>src/Common/Time.c\<close>, with the rounding of doubles written out.
  \<^item> \<open>Sensor_Pipe\<close>: \<^verbatim>\<open>src/Common/SensorDataPipe.c\<close>, its calls as functions and as steps of a writer and a reader; tokens,
    indices and contents as invariants; with three buffers no buffer is used by both threads and buffers arrive in order,
    with two they race. \<open>Sensor_Pipe_Refine\<close>: the calls on arenas and bytes refine the steps; what \<^verbatim>\<open>SdpCreate\<close> lays out.
  \<^item> \<open>Modbus_Tcp\<close>, \<open>Modbus_Recv\<close>, \<open>Modbus_Ctx\<close>: \<^verbatim>\<open>src/Common/Socket.c\<close> and \<^verbatim>\<open>src/CommProtocols/Modbus.c\<close>; a frame in pieces is put
    together, what the test server builds is parsed back. \<open>Test_Server\<close>: \<^verbatim>\<open>src/DevUtils/ModbusTestServer.c\<close>.
  \<^item> \<open>Mb_Run\<close>, \<open>Mb_Thread\<close>, \<open>Mb_Throughput\<close>: \<^verbatim>\<open>src/DataHandlers/ModbusWithPostgres/Modbus.c\<close>; an iteration on a whole frame is a push of
    its packet, the thread with its connections and shutdown hands over what it received and closes its sockets, and the
    throughput test puts its file through the pipe byte by byte.
  \<^item> \<open>Pg_Encode\<close>, \<open>Pg_Schema\<close>: \<^verbatim>\<open>src/DatabaseSystems/Postgres.c\<close>; rows in the binary format are read back as
    the values of the packet, the transaction's outcome is the one reported, and the statements made of a schema are the ones meant.
  \<^item> \<open>Pg_Run\<close>: \<^verbatim>\<open>src/DataHandlers/ModbusWithPostgres/Postgres.c\<close>; the buffers taken are committed in order.
  \<^item> \<open>Sensor_Flow\<close>, \<open>Sensor_System\<close>, \<open>Sensor_Shutdown\<close>: the whole way, from packets in any interleaving of the pipe's steps and from frames in any
    order of iterations and reads to the rows that are committed; after the flush of a shutdown nothing is left behind.
  \<^item> \<open>Cjson_Value\<close>, \<open>Cjson_Parse\<close>, \<open>Cjson_Safe\<close>, \<open>Cjson_Grammar\<close>, \<open>Cjson_Complete\<close>, \<open>Cjson_Reads\<close>: the parser and the accessors of
    \<^verbatim>\<open>src/Libs/cJSON/cJSON.c\<close>; it reads inside its buffer only, always ends, and reads every text of the grammar as its value.
  \<^item> \<open>Cjson_Numbers\<close>, \<open>Cjson_Print\<close>, \<open>Cjson_Print_Text\<close>, \<open>Cjson_Print_Api\<close>: the printer of \<^verbatim>\<open>cJSON.c\<close>. Numbers are rendered with the
    conversions of \<^verbatim>\<open>sprintf\<close> written out (C locale, correct rounding) and fit their 26 characters; the growing buffer is a block of
    characters, some not initialised, and every access is checked. \<open>adds\<close> says of an operation that it adds a text; the lemmas \<open>*_adds\<close>
    compose from the literals up to \<open>printer_adds\<close>. What is printed is the text of the item, and parsing it gives the item back.
  \<^item> \<open>Cjson_List\<close>: the doubly linked lists of children in a heap of nodes (\<open>kids\<close>); the operations by index implement
    those on lists, and deleting frees each node below an item once.
  \<^item> \<open>App_Setup\<close>: \<^verbatim>\<open>src/Main.c\<close>, \<^verbatim>\<open>src/DataHandlers/DataHandlers.c\<close>, \<^verbatim>\<open>ModbusWithPostgres.c\<close>, \<^verbatim>\<open>DatabaseInitializer.c\<close>; a configuration text
    gives the groups it asks for.
  \<^item> \<open>Thread_Sync\<close>, \<open>Thread_Ctl\<close>, \<open>Thread_Group\<close>: \<^verbatim>\<open>src/Common/Thread.c\<close> and \<^verbatim>\<open>src/Common/ThreadGroup.c\<close>; no wake-up of the thread
    control is lost, waiting for all groups ends when all have ended.
  \<^item> \<open>Signals\<close>: \<^verbatim>\<open>src/Signals.c\<close>, the flag, the dumps and their conversion.
  \<^item> \<open>Poc_Ring\<close>, \<open>Poc_Zero\<close>: the prototypes \<^verbatim>\<open>poc/Metrics\<close> and \<^verbatim>\<open>poc/ZeroCompression\<close>; the ring of bytes is a queue (an interpretation of
    the locale \<open>byte_queue\<close>) as long as insertions fit, run lengths tell which blocks were removed.

  \<^bold>\<open>Fuel and bounds.\<close> The loops of the parser over elements and members have the length of the buffer as fuel,
  which \<open>cjson_parse_ends\<close> shows is never used up: every turn takes a character. The depth of nesting is the
  library's limit of 1000. \<^verbatim>\<open>cJSON_Delete\<close>
  has one more than the nodes it frees. The reader of a copy stream in \<open>Sensor_Flow\<close> has the length of the stream as fuel, as a
  row takes at least two bytes. Loops of threads run over the list of answers they get, which stands for a schedule; a thread
  that waits with no answer left is stuck.

  \<^bold>\<open>Not modelled.\<close> Of cJSON, which is vendored, making, copying, comparing and minifying items, which the program
  never calls; its deallocations, except in \<^verbatim>\<open>cJSON_Delete\<close>; the depth of the C stack. The MQTT prototype, which
  hands messages to code the repository does not have; the tests and the generators of random values (sine and
  cosine over doubles); \<^verbatim>\<open>DumpAnalyzer.c\<close>, which is inside \<^verbatim>\<open>#if 0\<close>; the printing functions of \<^verbatim>\<open>Postgres.c\<close>; the two
  floating point helpers of \<^verbatim>\<open>src/Sdb.h\<close>; \<^verbatim>\<open>MultiBlockSaveAllMetaDataWhenZero\<close>, which has no effect. Log calls are left out of the
  functions that make them.
\<close>

end
